(* ===== verification/Engine_Types.thy ===== *)
theory Engine_Types
  imports Engine_Prelude
begin

text \<open>
  The vocabulary of \<open>include/engine/types.hpp\<close>: machine integers at their width, the two
  enumerations, and \<open>struct Order\<close>.

  \<open>Price\<close> is a signed 64-bit tick count. It is kept as the 64-bit pattern and ordered by the
  two's complement comparison, which makes it a linear order of its own.
\<close>

type_synonym OrderId = "64 word"
type_synonym Qty = "32 word"
type_synonym SeqNo = "64 word"
type_synonym Index = "32 word"
type_synonym Account = "32 word"
type_synonym TradeId = "64 word"

datatype Price = Price (ticks: "64 word")

instantiation Price :: linorder
begin

definition less_eq_Price :: "Price \<Rightarrow> Price \<Rightarrow> bool" where
  "less_eq_Price p q \<longleftrightarrow> ticks p \<le>s ticks q"

definition less_Price :: "Price \<Rightarrow> Price \<Rightarrow> bool" where
  "less_Price p q \<longleftrightarrow> ticks p <s ticks q"

instance
proof
  fix p q r :: Price
  show "p < q \<longleftrightarrow> p \<le> q \<and> \<not> q \<le> p"
    by (auto simp: less_Price_def less_eq_Price_def word_sle_eq word_sless_alt)
  show "p \<le> p"
    by (simp add: less_eq_Price_def)
  show "p \<le> q \<Longrightarrow> q \<le> r \<Longrightarrow> p \<le> r"
    by (auto simp: less_eq_Price_def word_sle_eq)
  show "p \<le> q \<Longrightarrow> q \<le> p \<Longrightarrow> p = q"
    by (auto simp: less_eq_Price_def word_sle_eq intro!: Price.expand signed_word_eqI [where 'a = int])
  show "p \<le> q \<or> q \<le> p"
    by (auto simp: less_eq_Price_def word_sle_eq)
qed

end

lemma Price_le_iff [simp]: "Price a \<le> Price b \<longleftrightarrow> a \<le>s b"
  by (simp add: less_eq_Price_def)

lemma Price_less_iff [simp]: "Price a < Price b \<longleftrightarrow> a <s b"
  by (simp add: less_Price_def)

definition kNilIndex :: Index where
  "kNilIndex = 4294967295"

lemma unat_kNilIndex: "unat kNilIndex = 4294967295"
  by (simp add: kNilIndex_def)

lemma kNilIndex_not_less [simp]: "n < 2 ^ 32 \<Longrightarrow> unat kNilIndex < n \<longleftrightarrow> False"
  by (simp add: unat_kNilIndex)

datatype Side = Buy | Sell

datatype TimeInForce = GTC | IOC | FOK

text \<open>
  \<open>struct Order\<close>. The hot fields are read by the crossing loop, the cold ones by cancel,
  modify and audits; the links are indices into the pool.
\<close>

record Order =
  price :: Price
  qty :: Qty
  next_idx :: Index
  prev_idx :: Index
  side :: Side
  order_id :: OrderId
  account :: Account
  seq_no :: SeqNo

definition default_Order :: Order where
  "default_Order = \<lparr>price = Price 0, qty = 0, next_idx = kNilIndex, prev_idx = kNilIndex,
     side = Buy, order_id = 0, account = 0, seq_no = 0\<rparr>"

end
