(* ===== verification/Pool.thy ===== *)
theory Pool
  imports Engine_Types
begin

text \<open>
  \<open>include/engine/pool.hpp\<close>: generation-checked handles and the fixed pool with its free list
  threaded through the unused slots.

  A slot is a union of a value and a free-list link, so it is a datatype with one constructor
  per member. Reading the member that is not active is undefined behaviour and gives \<open>None\<close>.
\<close>

section \<open>Handles\<close>

datatype Handle = Handle (value64: "64 word")

definition Handle_kNil :: "64 word" where
  "Handle_kNil = 18446744073709551615"

definition Handle_nil :: Handle where
  "Handle_nil = Handle Handle_kNil"

definition Handle_valid :: "Handle \<Rightarrow> bool" where
  "Handle_valid h \<longleftrightarrow> value64 h \<noteq> Handle_kNil"

definition Handle_index :: "Handle \<Rightarrow> Index" where
  "Handle_index h = ucast (value64 h AND 0xFFFFFFFF)"

definition Handle_generation :: "Handle \<Rightarrow> 32 word" where
  "Handle_generation h = ucast (drop_bit 32 (value64 h))"

definition make_handle :: "Index \<Rightarrow> 32 word \<Rightarrow> Handle" where
  "make_handle idx gen = Handle (push_bit 32 (ucast gen) OR ucast idx)"

lemma mask32_64: "(0xFFFFFFFF :: 64 word) = mask 32"
  by (simp add: mask_eq_exp_minus_1)

lemma index_make_handle [simp]: "Handle_index (make_handle i g) = i"
  by (rule bit_word_eqI)
    (auto simp: Handle_index_def make_handle_def mask32_64 bit_simps)

lemma generation_make_handle [simp]: "Handle_generation (make_handle i g) = g"
  by (rule bit_word_eqI)
    (auto simp: Handle_generation_def make_handle_def bit_simps dest: bit_imp_le_length)

lemma make_handle_eq [simp]: "make_handle i g = make_handle j k \<longleftrightarrow> i = j \<and> g = k"
  by (metis index_make_handle generation_make_handle)

lemma make_handle_index_generation [simp]:
  "make_handle (Handle_index h) (Handle_generation h) = h"
proof (cases h)
  case (Handle v)
  have "push_bit 32 (ucast (ucast (drop_bit 32 v) :: 32 word)) OR ucast (ucast (v AND 0xFFFFFFFF) :: 32 word) = v"
    unfolding mask32_64 by (rule bit_word_eqI) (auto simp: bit_simps not_less)
  then show ?thesis
    using Handle by (simp add: make_handle_def Handle_index_def Handle_generation_def)
qed

lemma Handle_nil_invalid [simp]: "\<not> Handle_valid Handle_nil"
  by (simp add: Handle_valid_def Handle_nil_def)

lemma Handle_nil_parts:
  "Handle_nil = make_handle kNilIndex 4294967295"
  by (simp add: Handle_nil_def make_handle_def Handle_kNil_def kNilIndex_def)

lemma Handle_valid_iff: "Handle_valid h \<longleftrightarrow> h \<noteq> Handle_nil"
  by (cases h) (simp add: Handle_valid_def Handle_nil_def)

lemma Handle_valid_make_handle [simp]:
  "Handle_valid (make_handle i g) \<longleftrightarrow> \<not> (i = kNilIndex \<and> g = 4294967295)"
  by (simp add: Handle_valid_iff Handle_nil_parts)

section \<open>The pool\<close>

datatype 'a Slot = Value 'a | NextFree Index

record 'a FixedPool =
  slots :: "'a Slot list"
  generation :: "32 word list"
  free_head :: Index

text \<open>The constructor: every slot links to the one behind it, the last one to \<open>kNilIndex\<close>.\<close>

definition FixedPool_new :: "Index \<Rightarrow> 'a FixedPool" where
  "FixedPool_new capacity =
     \<lparr>slots = map (\<lambda>i. NextFree (if i + 1 < unat capacity then of_nat (i + 1) else kNilIndex))
                 [0..<unat capacity],
      generation = replicate (unat capacity) 0,
      free_head = (if 0 < capacity then 0 else kNilIndex)\<rparr>"

definition read_next_free :: "'a FixedPool \<Rightarrow> Index \<Rightarrow> Index option" where
  "read_next_free p idx =
     do { s \<leftarrow> nth_opt (slots p) (unat idx);
          case s of NextFree n \<Rightarrow> Some n | Value _ \<Rightarrow> None }"

text \<open>
  \<open>allocate\<close> returns the invalid handle when the pool is exhausted, and \<open>None\<close> only where the
  source would read a link out of an occupied or missing slot.
\<close>

definition allocate :: "'a FixedPool \<Rightarrow> 'a \<Rightarrow> (Handle \<times> 'a FixedPool) option" where
  "allocate p v =
     (if free_head p = kNilIndex then Some (Handle_nil, p)
      else do {
        let idx = free_head p;
        nxt \<leftarrow> read_next_free p idx;
        g \<leftarrow> nth_opt (generation p) (unat idx);
        Some (make_handle idx g, p\<lparr>free_head := nxt, slots := (slots p)[unat idx := Value v]\<rparr>)
      })"

definition validate :: "'a FixedPool \<Rightarrow> Handle \<Rightarrow> bool" where
  "validate p h \<longleftrightarrow> Handle_valid h \<and> unat (Handle_index h) < length (slots p) \<and>
     Handle_generation h = generation p ! unat (Handle_index h)"

definition pool_free :: "'a FixedPool \<Rightarrow> Handle \<Rightarrow> 'a FixedPool" where
  "pool_free p h =
     (if \<not> validate p h then p
      else let idx = Handle_index h
           in p\<lparr>generation := (generation p)[unat idx := generation p ! unat idx + 1],
                slots := (slots p)[unat idx := NextFree (free_head p)],
                free_head := idx\<rparr>)"

text \<open>Direct access by raw index, \<open>slots_[idx].value\<close>.\<close>

definition unchecked_at :: "'a FixedPool \<Rightarrow> Index \<Rightarrow> 'a option" where
  "unchecked_at p idx =
     do { s \<leftarrow> nth_opt (slots p) (unat idx);
          case s of Value v \<Rightarrow> Some v | NextFree _ \<Rightarrow> None }"

text \<open>A write through the reference \<open>unchecked(idx)\<close> returns.\<close>

definition set_unchecked_at :: "'a FixedPool \<Rightarrow> Index \<Rightarrow> 'a \<Rightarrow> 'a FixedPool option" where
  "set_unchecked_at p idx v =
     do { _ \<leftarrow> unchecked_at p idx;
          Some (p\<lparr>slots := (slots p)[unat idx := Value v]\<rparr>) }"

text \<open>
  \<open>get\<close> is a pointer or null: \<open>Some None\<close> is the null pointer, \<open>Some (Some v)\<close> a pointer to
  \<open>v\<close>, and \<open>None\<close> a pointer to the inactive member of a slot.
\<close>

definition pool_get :: "'a FixedPool \<Rightarrow> Handle \<Rightarrow> 'a option option" where
  "pool_get p h =
     (if validate p h then map_option Some (unchecked_at p (Handle_index h)) else Some None)"

definition handle_of :: "'a FixedPool \<Rightarrow> Index \<Rightarrow> Handle" where
  "handle_of p idx = make_handle idx (generation p ! unat idx)"

definition capacity :: "'a FixedPool \<Rightarrow> Index" where
  "capacity p = of_nat (length (slots p))"

text \<open>The walk of \<open>free_slots\<close>, with its counter and the cycle check.\<close>

partial_function (option) free_slots_from :: "'a FixedPool \<Rightarrow> Index \<Rightarrow> Index \<Rightarrow> Index option" where
  "free_slots_from p n i =
     (if i = kNilIndex then Some n
      else if length (slots p) < unat (n + 1) then Some (of_nat (length (slots p)) + 1)
      else Option.bind (read_next_free p i) (free_slots_from p (n + 1)))"

declare free_slots_from.simps [code]

definition free_slots :: "'a FixedPool \<Rightarrow> Index option" where
  "free_slots p = free_slots_from p 0 (free_head p)"


section \<open>Representation invariant\<close>

text \<open>\<open>free_path p i fs\<close>: the free-list links lead from \<open>i\<close> through the slots \<open>fs\<close> to the end.\<close>

fun free_path :: "'a FixedPool \<Rightarrow> Index \<Rightarrow> Index list \<Rightarrow> bool" where
  "free_path p i [] \<longleftrightarrow> i = kNilIndex"
| "free_path p i (x # fs) \<longleftrightarrow> i = x \<and> x \<noteq> kNilIndex \<and>
     (\<exists>n. read_next_free p x = Some n \<and> free_path p n fs)"

definition free_repr :: "'a FixedPool \<Rightarrow> Index list \<Rightarrow> bool" where
  "free_repr p fs \<longleftrightarrow> length (slots p) < 2 ^ 32 \<and> length (generation p) = length (slots p) \<and>
     free_path p (free_head p) fs \<and> distinct fs \<and>
     (\<forall>i. read_next_free p i \<noteq> None \<longleftrightarrow> i \<in> set fs)"

definition pool_inv :: "'a FixedPool \<Rightarrow> bool" where
  "pool_inv p \<longleftrightarrow> (\<exists>fs. free_repr p fs)"

lemma read_next_free_eq:
  "read_next_free p i = Some n \<longleftrightarrow> unat i < length (slots p) \<and> slots p ! unat i = NextFree n"
  by (auto simp: read_next_free_def nth_opt_def split: Slot.splits)

lemma unchecked_at_eq:
  "unchecked_at p i = Some v \<longleftrightarrow> unat i < length (slots p) \<and> slots p ! unat i = Value v"
  by (auto simp: unchecked_at_def nth_opt_def split: Slot.splits)

lemma slot_free_or_used:
  "unat i < length (slots p) \<Longrightarrow> (read_next_free p i \<noteq> None) = (unchecked_at p i = None)"
  by (cases "slots p ! unat i") (auto simp: read_next_free_def unchecked_at_def)

lemma unchecked_at_bound: "unchecked_at p i = Some v \<Longrightarrow> unat i < length (slots p)"
  by (simp add: unchecked_at_eq)

lemma unchecked_at_kNil [simp]: "length (slots p) < 2 ^ 32 \<Longrightarrow> unchecked_at p kNilIndex = None"
  by (auto simp: unchecked_at_def nth_opt_def unat_kNilIndex split: Slot.splits)

lemma pool_inv_length:
  "pool_inv p \<Longrightarrow> length (slots p) < 2 ^ 32 \<and> length (generation p) = length (slots p)"
  by (auto simp: pool_inv_def free_repr_def)

lemma pool_inv_kNil: "pool_inv p \<Longrightarrow> unchecked_at p i = Some v \<Longrightarrow> i \<noteq> kNilIndex"
  using pool_inv_length unchecked_at_kNil by fastforce

text \<open>Writing a slot that is off a path leaves the path alone.\<close>

lemma free_path_frame:
  assumes "free_path p i fs" "\<And>x. x \<in> set fs \<Longrightarrow> read_next_free q x = read_next_free p x"
  shows "free_path q i fs"
  using assms by (induction fs arbitrary: i) auto

lemma finite_dom_unchecked [simp]: "finite (dom (unchecked_at p))"
  by (rule finite)

text \<open>The occupied slots and the free list share out the pool.\<close>

lemma card_slots: "n \<le> 2 ^ 32 \<Longrightarrow> card {i :: Index. unat i < n} = n"
proof -
  assume n: "n \<le> 2 ^ 32"
  have "{i :: Index. unat i < n} = of_nat ` {..<n}"
  proof (intro set_eqI iffI)
    fix i :: Index
    assume "i \<in> {i. unat i < n}"
    then show "i \<in> of_nat ` {..<n}"
      by (intro image_eqI [where x = "unat i"]) auto
  next
    fix i :: Index
    assume "i \<in> of_nat ` {..<n}"
    with n show "i \<in> {i. unat i < n}"
      by (auto simp: unat_of_nat_small)
  qed
  moreover have "inj_on (of_nat :: nat \<Rightarrow> Index) {..<n}"
    by (rule inj_onI) (use n in \<open>auto dest!: arg_cong [where f = unat] simp: unat_of_nat_small\<close>)
  ultimately show ?thesis
    by (simp add: card_image)
qed

lemma free_repr_share:
  assumes "free_repr p fs"
  shows "card (dom (unchecked_at p)) + length fs = length (slots p)"
proof -
  have disj: "dom (unchecked_at p) \<inter> set fs = {}"
    using assms by (auto simp: free_repr_def unchecked_at_eq read_next_free_eq) (metis Slot.distinct(1) read_next_free_eq)
  have "{i. unat i < length (slots p)} = dom (unchecked_at p) \<union> set fs"
    using assms slot_free_or_used [of _ p]
    by (auto simp: free_repr_def dest: unchecked_at_bound) (metis read_next_free_eq)
  then have "length (slots p) = card (dom (unchecked_at p) \<union> set fs)"
    using assms card_slots [of "length (slots p)"] by (simp add: free_repr_def)
  also have "\<dots> = card (dom (unchecked_at p)) + card (set fs)"
    using disj by (simp add: card_Un_disjoint)
  also have "card (set fs) = length fs"
    using assms by (simp add: free_repr_def distinct_card)
  finally show ?thesis ..
qed


section \<open>The operations keep the invariant\<close>

lemma FixedPool_new_path:
  assumes "k \<le> unat c"
  shows "free_path (FixedPool_new c :: 'a FixedPool) (if k < unat c then of_nat k else kNilIndex)
           (map of_nat [k..<unat c])"
  using assms
proof (induction k rule: inc_induct)
  case base
  then show ?case by simp
next
  case (step k)
  have k: "k < 2 ^ 32 - 1"
    using step.hyps unat_bound32 [of c] by simp
  then have "unat (of_nat k :: Index) = k"
    by (simp add: unat_of_nat_small)
  moreover have "(of_nat k :: Index) \<noteq> kNilIndex"
    using k calculation by (auto simp: unat_eq_iff [of "of_nat k"] unat_kNilIndex)
  moreover have "read_next_free (FixedPool_new c :: 'a FixedPool) (of_nat k) =
      Some (if Suc k < unat c then of_nat (Suc k) else kNilIndex)"
    using calculation(1) step.hyps by (simp add: read_next_free_eq FixedPool_new_def)
  moreover have "map of_nat [k..<unat c] = (of_nat k :: Index) # map of_nat [Suc k..<unat c]"
    using step.hyps by (simp add: upt_conv_Cons)
  ultimately show ?case
    using step.IH step.hyps by (simp del: of_nat_Suc)
qed

lemma FixedPool_new_repr: "free_repr (FixedPool_new c :: 'a FixedPool) (map of_nat [0..<unat c])"
proof -
  let ?p = "FixedPool_new c :: 'a FixedPool"
  have b: "unat c < 2 ^ 32"
    using unat_bound32 [of c] by simp
  have "free_path ?p (free_head ?p) (map of_nat [0..<unat c])"
    using FixedPool_new_path [of 0 c, where ?'a = 'a]
    by (cases "unat c = 0") (simp_all add: FixedPool_new_def word_less_nat_alt)
  moreover have "inj_on (of_nat :: nat \<Rightarrow> Index) {0..<unat c}"
    by (rule inj_onI) (use b in \<open>auto dest!: arg_cong [where f = unat] simp: unat_of_nat_small\<close>)
  moreover have "read_next_free ?p i \<noteq> None \<longleftrightarrow> i \<in> of_nat ` {0..<unat c}" for i
    using b by (auto simp: read_next_free_def nth_opt_def FixedPool_new_def unat_of_nat_small
        intro!: image_eqI [where x = "unat i"])
  moreover have "length (slots ?p) = unat c" "length (generation ?p) = unat c"
    by (simp_all add: FixedPool_new_def)
  ultimately show ?thesis
    using b by (simp add: free_repr_def distinct_map)
qed

lemma FixedPool_new_inv [engine_inv]: "pool_inv (FixedPool_new c)"
  using FixedPool_new_repr by (auto simp: pool_inv_def)

lemma unchecked_at_new [simp]: "unchecked_at (FixedPool_new c) i = None"
  by (auto simp: unchecked_at_def nth_opt_def FixedPool_new_def split: if_splits)

lemma length_slots_new [simp]: "length (slots (FixedPool_new c)) = unat c"
  by (simp add: FixedPool_new_def)

text \<open>Exhausted exactly when every slot is occupied.\<close>

lemma free_head_kNil_iff:
  assumes "pool_inv p"
  shows "free_head p = kNilIndex \<longleftrightarrow> card (dom (unchecked_at p)) = length (slots p)"
proof -
  obtain fs where fs: "free_repr p fs"
    using assms by (auto simp: pool_inv_def)
  then show ?thesis
    using free_repr_share [OF fs] by (cases fs) (auto simp: free_repr_def)
qed

lemma allocate_full:
  "free_head p = kNilIndex \<Longrightarrow> allocate p v = Some (Handle_nil, p)"
  by (simp add: allocate_def)

lemma allocate_fresh:
  assumes inv: "pool_inv p" and nonfull: "free_head p \<noteq> kNilIndex"
  obtains p' where
    "allocate p v = Some (handle_of p (free_head p), p')" and
    "pool_inv p'" and
    "unchecked_at p (free_head p) = None" and
    "unchecked_at p' = (unchecked_at p)(free_head p \<mapsto> v)" and
    "generation p' = generation p" and
    "length (slots p') = length (slots p)" and
    "Handle_valid (handle_of p (free_head p))"
proof -
  obtain fs where fs: "free_repr p fs"
    using inv by (auto simp: pool_inv_def)
  define i where "i = free_head p"
  from fs nonfull obtain n fs' where fs': "fs = i # fs'" "read_next_free p i = Some n"
      "free_path p n fs'"
    by (cases fs) (auto simp: free_repr_def i_def)
  then have i: "unat i < length (slots p)" "slots p ! unat i = NextFree n"
    by (auto simp: read_next_free_eq)
  define p' where "p' = p\<lparr>free_head := n, slots := (slots p)[unat i := Value v]\<rparr>"
  have rnf: "read_next_free p' j = (if j = i then None else read_next_free p j)" for j
    using i by (auto simp: p'_def read_next_free_def nth_opt_def nth_list_update word_unat_eq_iff)
  have "free_path p' n fs'"
    by (rule free_path_frame [OF fs'(3)]) (use fs fs' in \<open>auto simp: rnf free_repr_def\<close>)
  then have "free_repr p' fs'"
    using fs fs' by (auto simp: free_repr_def rnf) (auto simp: p'_def)
  moreover have "unchecked_at p' = (unchecked_at p)(i \<mapsto> v)"
    using i by (auto simp: fun_eq_iff p'_def unchecked_at_def nth_opt_def nth_list_update word_unat_eq_iff)
  moreover have "unchecked_at p i = None"
    using i by (simp add: unchecked_at_def)
  moreover have "allocate p v = Some (handle_of p i, p')"
    using fs fs' nonfull i by (simp add: allocate_def i_def handle_of_def p'_def free_repr_def Let_def)
  ultimately show ?thesis
    using that [of p'] nonfull by (auto simp: pool_inv_def p'_def i_def handle_of_def)
qed

lemma validate_handle_of:
  assumes "pool_inv p" "unchecked_at p i = Some v"
  shows "validate p (handle_of p i)"
  using assms pool_inv_kNil [OF assms] by (auto simp: validate_def handle_of_def unchecked_at_eq)

lemma pool_get_handle_of:
  assumes "pool_inv p" "unchecked_at p i = Some v"
  shows "pool_get p (handle_of p i) = Some (Some v)"
  using assms validate_handle_of [OF assms] by (simp add: pool_get_def handle_of_def)

lemma pool_free_occupied:
  assumes inv: "pool_inv p" and occ: "unchecked_at p i = Some v"
  defines "p' \<equiv> pool_free p (handle_of p i)"
  shows "pool_inv p'"
    and "unchecked_at p' = (unchecked_at p)(i := None)"
    and "generation p' = (generation p)[unat i := generation p ! unat i + 1]"
    and "length (slots p') = length (slots p)"
proof -
  obtain fs where fs: "free_repr p fs"
    using inv by (auto simp: pool_inv_def)
  have i: "unat i < length (slots p)" "slots p ! unat i = Value v" "i \<noteq> kNilIndex"
    using occ pool_inv_kNil [OF inv occ] by (auto simp: unchecked_at_eq)
  have p': "p' = p\<lparr>generation := (generation p)[unat i := generation p ! unat i + 1],
      slots := (slots p)[unat i := NextFree (free_head p)], free_head := i\<rparr>"
    using validate_handle_of [OF inv occ] by (simp add: p'_def pool_free_def Let_def handle_of_def)
  have rnf: "read_next_free p' j = (if j = i then Some (free_head p) else read_next_free p j)" for j
    using i by (auto simp: p' read_next_free_def nth_opt_def nth_list_update word_unat_eq_iff)
  have "i \<notin> set fs"
    using fs i by (auto simp: free_repr_def read_next_free_eq) (metis Slot.distinct(1) read_next_free_eq)
  then have "free_path p' (free_head p) fs"
    using fs by (auto simp: rnf free_repr_def intro: free_path_frame)
  then have "free_repr p' (i # fs)"
    using fs i \<open>i \<notin> set fs\<close> by (auto simp: free_repr_def rnf) (auto simp: p')
  then show "pool_inv p'"
    by (auto simp: pool_inv_def)
  show "unchecked_at p' = (unchecked_at p)(i := None)"
    using i by (auto simp: fun_eq_iff p' unchecked_at_def nth_opt_def nth_list_update word_unat_eq_iff)
  show "generation p' = (generation p)[unat i := generation p ! unat i + 1]"
    "length (slots p') = length (slots p)"
    by (simp_all add: p')
qed

lemma set_unchecked_at_occupied:
  assumes inv: "pool_inv p" and occ: "unchecked_at p i = Some w"
  obtains p' where
    "set_unchecked_at p i v = Some p'" and "pool_inv p'" and
    "unchecked_at p' = (unchecked_at p)(i \<mapsto> v)" and
    "generation p' = generation p" and "length (slots p') = length (slots p)"
proof -
  obtain fs where fs: "free_repr p fs"
    using inv by (auto simp: pool_inv_def)
  have i: "unat i < length (slots p)" "slots p ! unat i = Value w"
    using occ by (auto simp: unchecked_at_eq)
  define p' where "p' = p\<lparr>slots := (slots p)[unat i := Value v]\<rparr>"
  have rnf: "read_next_free p' j = read_next_free p j" for j
    using i by (auto simp: p'_def read_next_free_def nth_opt_def nth_list_update word_unat_eq_iff)
  have "free_path p' (free_head p) fs"
    using fs by (auto simp: rnf free_repr_def intro: free_path_frame)
  then have "free_repr p' fs"
    using fs by (auto simp: free_repr_def rnf) (auto simp: p'_def)
  moreover have "unchecked_at p' = (unchecked_at p)(i \<mapsto> v)"
    using i by (auto simp: fun_eq_iff p'_def unchecked_at_def nth_opt_def nth_list_update word_unat_eq_iff)
  ultimately show ?thesis
    using that [of p'] occ by (auto simp: pool_inv_def set_unchecked_at_def p'_def)
qed


section \<open>Counting the free list\<close>

lemma free_slots_from_path:
  assumes "free_path p i fs" "unat n + length fs \<le> length (slots p)" "length (slots p) < 2 ^ 32"
  shows "free_slots_from p n i = Some (n + of_nat (length fs))"
  using assms
proof (induction fs arbitrary: n i)
  case Nil
  then show ?case
    by (simp add: free_slots_from.simps)
next
  case (Cons x fs)
  then obtain m where m: "i = x" "x \<noteq> kNilIndex" "read_next_free p x = Some m" "free_path p m fs"
    by auto
  have "unat (n + 1) = unat n + 1"
    using Cons.prems by (subst unat_word_ariths) simp
  with Cons.prems m(4) Cons.IH [of m "n + 1"]
  have "free_slots_from p (n + 1) m = Some (n + 1 + of_nat (length fs))" "unat (n + 1) \<le> length (slots p)"
    by auto
  with m show ?case
    by (subst free_slots_from.simps) (simp add: add.assoc)
qed

lemma free_slots_eq:
  assumes "pool_inv p"
  shows "free_slots p = Some (of_nat (length (slots p) - card (dom (unchecked_at p))))"
proof -
  obtain fs where fs: "free_repr p fs"
    using assms by (auto simp: pool_inv_def)
  have "length fs = length (slots p) - card (dom (unchecked_at p))"
    using free_repr_share [OF fs] by simp
  moreover have "free_slots p = Some (0 + of_nat (length fs))"
    using fs free_repr_share [OF fs] unfolding free_slots_def
    by (intro free_slots_from_path) (auto simp: free_repr_def)
  ultimately show ?thesis by simp
qed

section \<open>The contract of the pool\<close>

text \<open>
  What the book relies on: a store of values under generation-checked handles. \<open>look\<close> reads a
  slot by its raw index, \<open>hnd\<close> is the handle of an occupied slot.
\<close>

locale handle_pool =
  fixes invar :: "'p \<Rightarrow> bool"
    and look :: "'p \<Rightarrow> 'i \<Rightarrow> 'v option"
    and full :: "'p \<Rightarrow> bool"
    and alloc :: "'p \<Rightarrow> 'v \<Rightarrow> ('h \<times> 'p) option"
    and release :: "'p \<Rightarrow> 'h \<Rightarrow> 'p"
    and valid :: "'p \<Rightarrow> 'h \<Rightarrow> bool"
    and hnd :: "'p \<Rightarrow> 'i \<Rightarrow> 'h"
  assumes alloc_fresh: "invar p \<Longrightarrow> \<not> full p \<Longrightarrow> \<exists>i p'. alloc p v = Some (hnd p' i, p') \<and> invar p' \<and>
      look p i = None \<and> look p' = (look p)(i \<mapsto> v)"
    and valid_hnd: "invar p \<Longrightarrow> look p i = Some v \<Longrightarrow> valid p (hnd p i)"
    and invar_release: "invar p \<Longrightarrow> look p i = Some v \<Longrightarrow> invar (release p (hnd p i))"
    and look_release: "invar p \<Longrightarrow> look p i = Some v \<Longrightarrow> look (release p (hnd p i)) = (look p)(i := None)"
    and release_stale: "invar p \<Longrightarrow> look p i = Some v \<Longrightarrow> \<not> valid (release p (hnd p i)) (hnd p i)"
    and release_invalid: "\<not> valid p h \<Longrightarrow> release p h = p"
begin

lemma alloc_valid:
  assumes "invar p" "\<not> full p" "alloc p v = Some (h, p')"
  shows "invar p' \<and> valid p' h"
  using alloc_fresh [OF assms(1,2), of v] assms(3) valid_hnd by fastforce

lemma alloc_release_restores:
  assumes "invar p" "\<not> full p" "alloc p v = Some (h, p')"
  shows "look (release p' h) = look p \<and> invar (release p' h) \<and> \<not> valid (release p' h) h"
  using alloc_fresh [OF assms(1,2), of v] assms(3) look_release invar_release release_stale
  by (fastforce simp: fun_eq_iff)

lemma release_twice:
  assumes "invar p" "look p i = Some v"
  shows "release (release p (hnd p i)) (hnd p i) = release p (hnd p i)"
  using release_stale [OF assms] by (rule release_invalid)

end

lemma handle_of_after_free:
  assumes "pool_inv p" "unchecked_at p i = Some v" "j \<noteq> i"
  shows "handle_of (pool_free p (handle_of p i)) j = handle_of p j"
  using assms pool_free_occupied(3) [OF assms(1,2)]
  by (simp add: handle_of_def word_unat_eq_iff)

interpretation fixed_pool: handle_pool pool_inv unchecked_at "\<lambda>p. free_head p = kNilIndex"
  allocate pool_free validate handle_of
proof
  fix p :: "'a FixedPool" and v
  assume "pool_inv p" "\<not> free_head p = kNilIndex"
  then obtain p' where p': "allocate p v = Some (handle_of p (free_head p), p')" "pool_inv p'"
      "unchecked_at p (free_head p) = None" "unchecked_at p' = (unchecked_at p)(free_head p \<mapsto> v)"
      "generation p' = generation p"
    by (rule allocate_fresh)
  then have "handle_of p (free_head p) = handle_of p' (free_head p)"
    by (simp add: handle_of_def)
  with p' show "\<exists>i p'. allocate p v = Some (handle_of p' i, p') \<and> pool_inv p' \<and>
      unchecked_at p i = None \<and> unchecked_at p' = (unchecked_at p)(i \<mapsto> v)"
    by metis
next
  fix p :: "'a FixedPool" and i v
  assume p: "pool_inv p" "unchecked_at p i = Some v"
  show "validate p (handle_of p i)"
    using p by (rule validate_handle_of)
  show "pool_inv (pool_free p (handle_of p i))"
    "unchecked_at (pool_free p (handle_of p i)) = (unchecked_at p)(i := None)"
    using pool_free_occupied [OF p] by simp_all
  have "unat i < length (generation p)"
    using p pool_inv_length unchecked_at_bound by metis
  then show "\<not> validate (pool_free p (handle_of p i)) (handle_of p i)"
    using pool_free_occupied(3) [OF p] by (simp add: validate_def handle_of_def)
next
  fix p :: "'a FixedPool" and h
  show "\<not> validate p h \<Longrightarrow> pool_free p h = p"
    by (simp add: pool_free_def)
qed

section \<open>Executable checks of the invariant\<close>

lemma free_path_code [code]:
  "free_path p i [] \<longleftrightarrow> i = kNilIndex"
  "free_path p i (x # fs) \<longleftrightarrow> i = x \<and> x \<noteq> kNilIndex \<and>
     (case read_next_free p x of None \<Rightarrow> False | Some n \<Rightarrow> free_path p n fs)"
  by (auto split: option.splits)

lemma free_repr_code [code]:
  "free_repr p fs \<longleftrightarrow> int (length (slots p)) < 4294967296 \<and> length (generation p) = length (slots p) \<and>
     free_path p (free_head p) fs \<and> distinct fs \<and>
     list_all (\<lambda>x. read_next_free p x \<noteq> None) fs \<and>
     list_all (\<lambda>k. read_next_free p (of_nat k) \<noteq> None \<longrightarrow> of_nat k \<in> set fs) [0..<length (slots p)]"
proof -
  have "(\<forall>i. read_next_free p i \<noteq> None \<longrightarrow> i \<in> set fs) \<longleftrightarrow>
      (\<forall>k < length (slots p). read_next_free p (of_nat k) \<noteq> None \<longrightarrow> of_nat k \<in> set fs)"
    (is "?L \<longleftrightarrow> ?R")
  proof
    assume r: ?R
    show ?L
    proof (intro allI impI)
      fix i
      assume "read_next_free p i \<noteq> None"
      moreover from this have "unat i < length (slots p)"
        using read_next_free_eq by blast
      ultimately show "i \<in> set fs"
        using r [rule_format, of "unat i"] by simp
    qed
  qed blast
  then show ?thesis
    by (auto simp: free_repr_def list_all_iff)
qed

section \<open>Properties\<close>

text \<open>
  Allocating a slot and freeing its handle again brings back the contents and the
  invariant, and the handle is stale from then on.
\<close>

theorem allocate_free_restores:
  assumes "pool_inv p" "free_head p \<noteq> kNilIndex" "allocate p v = Some (h, p')"
  shows "unchecked_at (pool_free p' h) = unchecked_at p \<and> pool_inv (pool_free p' h) \<and>
    validate p' h \<and> \<not> validate (pool_free p' h) h"
  using fixed_pool.alloc_release_restores [OF assms] fixed_pool.alloc_valid [OF assms] by blast

theorem allocate_free_restores_witness:
  "\<exists>h p'. allocate (FixedPool_new 2 :: nat FixedPool) 7 = Some (h, p') \<and> validate p' h \<and>
     \<not> validate (pool_free p' h) h"
proof -
  let ?p = "FixedPool_new 2 :: nat FixedPool"
  have "free_head ?p \<noteq> kNilIndex"
    by (simp add: FixedPool_new_def kNilIndex_def)
  moreover from this obtain h p' where "allocate ?p 7 = Some (h, p')"
    by (metis allocate_fresh FixedPool_new_inv)
  ultimately show ?thesis
    using allocate_free_restores [OF FixedPool_new_inv, of 2 7 h p'] by auto
qed

text \<open>
  A handle freed a second time changes nothing, so a slot can never enter the
  free list twice.
\<close>

theorem double_free_ignored:
  assumes "pool_inv p" "unchecked_at p i = Some v"
  shows "pool_free (pool_free p (handle_of p i)) (handle_of p i) = pool_free p (handle_of p i)"
  using assms by (rule fixed_pool.release_twice)

theorem double_free_ignored_witness:
  "let p = \<lparr>slots = [Value 5, NextFree kNilIndex], generation = [3, 0], free_head = 1\<rparr> :: nat FixedPool
   in pool_free (pool_free p (handle_of p 0)) (handle_of p 0) = pool_free p (handle_of p 0)"
proof -
  let ?p = "\<lparr>slots = [Value 5, NextFree kNilIndex], generation = [3, 0], free_head = 1\<rparr> :: nat FixedPool"
  have "pool_inv ?p"
    unfolding pool_inv_def by (rule exI [of _ "[1]"]) code_simp
  moreover have "unchecked_at ?p 0 = Some 5"
    by code_simp
  ultimately show ?thesis
    using double_free_ignored by (simp only: Let_def)
qed

text \<open>
  \<open>free_slots\<close> returns, without wrapping or running into its cycle check, the number
  of slots that hold no value.
\<close>

theorem free_slots_counts:
  assumes "pool_inv p"
  shows "map_option unat (free_slots p) = Some (unat (capacity p) - card (dom (unchecked_at p)))"
proof -
  have "length (slots p) < 2 ^ 32"
    using assms pool_inv_length by blast
  then show ?thesis
    using free_slots_eq [OF assms] by (simp add: capacity_def unat_of_nat_small)
qed

theorem free_slots_counts_witness:
  "map_option unat (free_slots (FixedPool_new 9 :: nat FixedPool)) =
     Some (unat (capacity (FixedPool_new 9 :: nat FixedPool)) -
           card (dom (unchecked_at (FixedPool_new 9 :: nat FixedPool))))"
  using free_slots_counts [OF FixedPool_new_inv] .

end
