(* ===== verification/Level_Queue.thy ===== *)
theory Level_Queue
  imports Pool
begin

text \<open>
  \<open>include/engine/level.hpp\<close>: a price level is a FIFO of orders threaded through the pool by
  \<open>next_idx\<close> and \<open>prev_idx\<close>. The theory relates the two link-surgery routines to the operations
  "append at the back" and "remove" on the list of pool indices the links spell out.
\<close>

record Level =
  lv_price :: Price
  head :: Index
  tail :: Index

type_synonym order_pool = "Order FixedPool"

text \<open>\<open>pool.unchecked(i).field = e\<close>: a write to fields of the order stored at \<open>i\<close>.\<close>

definition update_at :: "order_pool \<Rightarrow> Index \<Rightarrow> (Order \<Rightarrow> Order) \<Rightarrow> order_pool option" where
  "update_at pool i f = do { x \<leftarrow> unchecked_at pool i; set_unchecked_at pool i (f x) }"

definition level_append :: "Level \<Rightarrow> order_pool \<Rightarrow> Index \<Rightarrow> (Level \<times> order_pool) option" where
  "level_append level pool order_idx =
     do {
       pool \<leftarrow> update_at pool order_idx (\<lambda>x. x\<lparr>prev_idx := tail level, next_idx := kNilIndex\<rparr>);
       (level, pool) \<leftarrow>
         (if tail level \<noteq> kNilIndex
          then do { pool \<leftarrow> update_at pool (tail level) (\<lambda>x. x\<lparr>next_idx := order_idx\<rparr>);
                    Some (level, pool) }
          else Some (level\<lparr>head := order_idx\<rparr>, pool));
       Some (level\<lparr>tail := order_idx\<rparr>, pool)
     }"

definition level_unlink :: "Level \<Rightarrow> order_pool \<Rightarrow> Index \<Rightarrow> (Level \<times> order_pool) option" where
  "level_unlink level pool order_idx =
     do {
       order \<leftarrow> unchecked_at pool order_idx;
       let prev = prev_idx order;
       let nxt = next_idx order;
       (level, pool) \<leftarrow>
         (if prev \<noteq> kNilIndex
          then do { pool \<leftarrow> update_at pool prev (\<lambda>x. x\<lparr>next_idx := nxt\<rparr>); Some (level, pool) }
          else Some (level\<lparr>head := nxt\<rparr>, pool));
       (level, pool) \<leftarrow>
         (if nxt \<noteq> kNilIndex
          then do { pool \<leftarrow> update_at pool nxt (\<lambda>x. x\<lparr>prev_idx := prev\<rparr>); Some (level, pool) }
          else Some (level\<lparr>tail := prev\<rparr>, pool));
       pool \<leftarrow> update_at pool order_idx (\<lambda>x. x\<lparr>prev_idx := kNilIndex, next_idx := kNilIndex\<rparr>);
       Some (level, pool)
     }"

section \<open>Doubly linked lists in the pool\<close>

type_synonym order_map = "Index \<rightharpoonup> Order"

definition first_of :: "Index list \<Rightarrow> Index \<Rightarrow> Index" where
  "first_of xs n = (case xs of [] \<Rightarrow> n | x # _ \<Rightarrow> x)"

definition last_of :: "Index \<Rightarrow> Index list \<Rightarrow> Index" where
  "last_of p xs = (if xs = [] then p else last xs)"

text \<open>
  \<open>dll m p xs n\<close>: the orders at \<open>xs\<close> are linked in this order, the first one points back to
  \<open>p\<close> and the last one forward to \<open>n\<close>.
\<close>

fun dll :: "order_map \<Rightarrow> Index \<Rightarrow> Index list \<Rightarrow> Index \<Rightarrow> bool" where
  "dll m p [] n \<longleftrightarrow> True"
| "dll m p (x # xs) n \<longleftrightarrow>
     (\<exists>x'. m x = Some x' \<and> prev_idx x' = p \<and> next_idx x' = first_of xs n) \<and> dll m x xs n"

lemma first_of_simps [simp]: "first_of [] n = n" "first_of (x # xs) n = x"
  by (simp_all add: first_of_def)

lemma last_of_simps [simp]: "last_of p [] = p" "last_of p (xs @ [x]) = x" "last_of p (x # xs) = last_of x xs"
  by (simp_all add: last_of_def)

lemma first_of_append [simp]: "first_of (xs @ ys) n = first_of xs (first_of ys n)"
  by (cases xs) simp_all

lemma last_of_append [simp]: "last_of p (xs @ ys) = last_of (last_of p xs) ys"
  by (induction xs arbitrary: p) simp_all

lemma dll_append [simp]:
  "dll m p (xs @ ys) n \<longleftrightarrow> dll m p xs (first_of ys n) \<and> dll m (last_of p xs) ys n"
  by (induction xs arbitrary: p) auto

lemma dll_frame: "dll m p xs n \<Longrightarrow> (\<And>i. i \<in> set xs \<Longrightarrow> m' i = m i) \<Longrightarrow> dll m' p xs n"
  by (induction xs arbitrary: p) auto

lemma dll_dom: "dll m p xs n \<Longrightarrow> set xs \<subseteq> dom m"
  by (induction xs arbitrary: p) auto

text \<open>What an order holds apart from its links.\<close>

definition payload :: "Order \<Rightarrow> Order" where
  "payload x = x\<lparr>prev_idx := kNilIndex, next_idx := kNilIndex\<rparr>"

definition same_payload :: "order_map \<Rightarrow> order_map \<Rightarrow> bool" where
  "same_payload m m' \<longleftrightarrow> (\<forall>i. map_option payload (m' i) = map_option payload (m i))"

lemma payload_simps [simp]:
  "price (payload x) = price x" "qty (payload x) = qty x" "side (payload x) = side x"
  "order_id (payload x) = order_id x" "account (payload x) = account x" "seq_no (payload x) = seq_no x"
  "payload (x\<lparr>next_idx := i\<rparr>) = payload x" "payload (x\<lparr>prev_idx := i\<rparr>) = payload x"
  by (simp_all add: payload_def)

lemma same_payload_refl [simp]: "same_payload m m"
  by (simp add: same_payload_def)

lemma same_payload_trans [trans]: "same_payload a b \<Longrightarrow> same_payload b c \<Longrightarrow> same_payload a c"
  by (simp add: same_payload_def)

lemma same_payload_upd [simp]:
  "m i = Some x \<Longrightarrow> payload y = payload x \<Longrightarrow> same_payload m (m(i \<mapsto> y))"
  by (simp add: same_payload_def)

lemma same_payload_dom: "same_payload m m' \<Longrightarrow> dom m' = dom m"
  by (auto simp: same_payload_def domIff set_eq_iff simp del: not_None_eq) (metis map_option_is_None)+

lemma same_payload_get:
  "same_payload m m' \<Longrightarrow> m i = Some x \<Longrightarrow> \<exists>y. m' i = Some y \<and> payload y = payload x"
  by (metis map_option_eq_Some option.simps(9) same_payload_def)

section \<open>Levels\<close>

text \<open>\<open>level_repr m lv xs\<close>: the level \<open>lv\<close> holds the orders at \<open>xs\<close>, oldest first.\<close>

definition level_repr :: "order_map \<Rightarrow> Level \<Rightarrow> Index list \<Rightarrow> bool" where
  "level_repr m lv xs \<longleftrightarrow> head lv = first_of xs kNilIndex \<and> tail lv = last_of kNilIndex xs \<and>
     dll m kNilIndex xs kNilIndex \<and> distinct xs \<and> kNilIndex \<notin> set xs"

lemma level_repr_frame:
  "level_repr m lv xs \<Longrightarrow> (\<And>i. i \<in> set xs \<Longrightarrow> m' i = m i) \<Longrightarrow> level_repr m' lv xs"
  by (auto simp: level_repr_def intro: dll_frame)

lemma level_repr_empty_iff: "level_repr m lv xs \<Longrightarrow> head lv = kNilIndex \<longleftrightarrow> xs = []"
  by (cases xs) (auto simp: level_repr_def)

lemma level_repr_dom: "level_repr m lv xs \<Longrightarrow> set xs \<subseteq> dom m"
  by (auto simp: level_repr_def dest: dll_dom)

text \<open>
  The frame of the two routines: the pool keeps its invariant, its size and its generations; no
  order changes anything but its links; and only orders of the level and the order moved are written.
\<close>

definition links_frame :: "order_pool \<Rightarrow> order_pool \<Rightarrow> Index set \<Rightarrow> bool" where
  "links_frame p p' S \<longleftrightarrow> pool_inv p' \<and> generation p' = generation p \<and>
     length (slots p') = length (slots p) \<and>
     same_payload (unchecked_at p) (unchecked_at p') \<and>
     (\<forall>i. i \<notin> S \<longrightarrow> unchecked_at p' i = unchecked_at p i)"

lemma links_frame_refl: "pool_inv p \<Longrightarrow> links_frame p p S"
  by (simp add: links_frame_def)

lemma links_frame_trans: "links_frame p q S \<Longrightarrow> links_frame q r T \<Longrightarrow> links_frame p r (S \<union> T)"
  by (auto simp: links_frame_def intro: same_payload_trans)

lemma links_frame_mono: "links_frame p q S \<Longrightarrow> S \<subseteq> T \<Longrightarrow> links_frame p q T"
  by (auto simp: links_frame_def)

lemma update_at_links:
  assumes "pool_inv p" "unchecked_at p i = Some x" "payload (f x) = payload x"
  obtains p' where "update_at p i f = Some p'" "links_frame p p' {i}"
    "unchecked_at p' = (unchecked_at p)(i \<mapsto> f x)"
  using set_unchecked_at_occupied [OF assms(1,2), of "f x"] assms
  by (auto simp: update_at_def links_frame_def)


lemma level_append_repr:
  assumes inv: "pool_inv p" and rep: "level_repr (unchecked_at p) lv xs"
    and i: "unchecked_at p i = Some x" "i \<notin> set xs"
  obtains lv' p' where "level_append lv p i = Some (lv', p')" "links_frame p p' (insert i (set xs))"
    "level_repr (unchecked_at p') lv' (xs @ [i])" "lv_price lv' = lv_price lv"
proof -
  define x1 where "x1 = x\<lparr>prev_idx := tail lv, next_idx := kNilIndex\<rparr>"
  have "i \<noteq> kNilIndex"
    using pool_inv_kNil [OF inv i(1)] .
  obtain p1 where p1: "update_at p i (\<lambda>x. x\<lparr>prev_idx := tail lv, next_idx := kNilIndex\<rparr>) = Some p1"
      "links_frame p p1 {i}" "unchecked_at p1 = (unchecked_at p)(i \<mapsto> x1)"
    by (rule update_at_links [OF inv i(1), where f = "\<lambda>x. x\<lparr>prev_idx := tail lv, next_idx := kNilIndex\<rparr>"])
      (auto simp: x1_def)
  show ?thesis
  proof (cases xs rule: rev_cases)
    case Nil
    with rep have "tail lv = kNilIndex"
      by (simp add: level_repr_def)
    then have "level_append lv p i = Some (lv\<lparr>head := i, tail := i\<rparr>, p1)"
      using p1(1) by (simp add: level_append_def)
    then show ?thesis
      using that [of "lv\<lparr>head := i, tail := i\<rparr>" p1] p1 Nil \<open>i \<noteq> kNilIndex\<close> \<open>tail lv = kNilIndex\<close>
      by (simp add: level_repr_def x1_def)
  next
    case (snoc ys t)
    with rep obtain xt where t: "tail lv = t" "t \<noteq> kNilIndex" "t \<noteq> i" "unchecked_at p t = Some xt"
        "prev_idx xt = last_of kNilIndex ys" "dll (unchecked_at p) kNilIndex ys t"
      using i by (auto simp: level_repr_def)
    obtain p2 where p2: "update_at p1 t (\<lambda>x. x\<lparr>next_idx := i\<rparr>) = Some p2" "links_frame p1 p2 {t}"
        "unchecked_at p2 = (unchecked_at p1)(t \<mapsto> xt\<lparr>next_idx := i\<rparr>)"
      by (rule update_at_links [of p1 t xt "next_idx_update (\<lambda>_. i)"])
        (use p1 t in \<open>auto simp: links_frame_def\<close>)
    have "level_append lv p i = Some (lv\<lparr>tail := i\<rparr>, p2)"
      using p1(1) p2(1) t by (simp add: level_append_def)
    moreover have "links_frame p p2 (insert i (set xs))"
      using links_frame_trans [OF p1(2) p2(2)] snoc by (auto elim: links_frame_mono)
    moreover have "dll (unchecked_at p2) kNilIndex ys t"
      using t(6) rep snoc i by (intro dll_frame [OF t(6)]) (auto simp: p1 p2 level_repr_def)
    ultimately show ?thesis
      using that [of "lv\<lparr>tail := i\<rparr>" p2] rep snoc i t \<open>i \<noteq> kNilIndex\<close>
      by (auto simp: level_repr_def p1 p2 x1_def)
  qed
qed

text \<open>A write that matters only at the end of a segment: the neighbours of a removed order.\<close>

lemma update_prev_link:
  assumes inv: "pool_inv p" and dll: "dll (unchecked_at p) kNilIndex xs i" "distinct xs" "kNilIndex \<notin> set xs"
  obtains p' lv' where
    "(if last_of kNilIndex xs \<noteq> kNilIndex
      then do { p \<leftarrow> update_at p (last_of kNilIndex xs) (\<lambda>x. x\<lparr>next_idx := n\<rparr>); Some (lv, p) }
      else Some (lv\<lparr>head := n\<rparr>, p)) = Some (lv', p')"
    "links_frame p p' (set xs)" "dll (unchecked_at p') kNilIndex xs n"
    "lv_price lv' = lv_price lv" "tail lv' = tail lv"
    "head lv = first_of xs i \<Longrightarrow> head lv' = first_of xs n"
proof (cases xs rule: rev_cases)
  case Nil
  then show ?thesis
    using that [of "lv\<lparr>head := n\<rparr>" p] inv by (simp add: links_frame_refl)
next
  case (snoc ys t)
  with dll obtain xt where t: "t \<noteq> kNilIndex" "unchecked_at p t = Some xt"
      "prev_idx xt = last_of kNilIndex ys" "dll (unchecked_at p) kNilIndex ys t" "t \<notin> set ys"
    by auto
  obtain p' where p': "update_at p t (\<lambda>x. x\<lparr>next_idx := n\<rparr>) = Some p'" "links_frame p p' {t}"
      "unchecked_at p' = (unchecked_at p)(t \<mapsto> xt\<lparr>next_idx := n\<rparr>)"
    by (rule update_at_links [OF inv t(2), where f = "next_idx_update (\<lambda>_. n)"]) auto
  have "dll (unchecked_at p') kNilIndex ys t"
    by (rule dll_frame [OF t(4)]) (use t(5) p' in auto)
  then show ?thesis
    using that [of lv p'] p' t snoc links_frame_mono [OF p'(2), of "set xs"] by auto
qed

lemma update_next_link:
  assumes inv: "pool_inv p" and dll: "dll (unchecked_at p) i ys kNilIndex" "distinct ys" "kNilIndex \<notin> set ys"
  obtains p' lv' where
    "(if first_of ys kNilIndex \<noteq> kNilIndex
      then do { p \<leftarrow> update_at p (first_of ys kNilIndex) (\<lambda>x. x\<lparr>prev_idx := q\<rparr>); Some (lv, p) }
      else Some (lv\<lparr>tail := q\<rparr>, p)) = Some (lv', p')"
    "links_frame p p' (set ys)" "dll (unchecked_at p') q ys kNilIndex"
    "lv_price lv' = lv_price lv" "head lv' = head lv"
    "tail lv = last_of i ys \<Longrightarrow> tail lv' = last_of q ys"
proof (cases ys)
  case Nil
  then show ?thesis
    using that [of "lv\<lparr>tail := q\<rparr>" p] inv by (simp add: links_frame_refl)
next
  case (Cons t zs)
  with dll obtain xt where t: "t \<noteq> kNilIndex" "unchecked_at p t = Some xt"
      "next_idx xt = first_of zs kNilIndex" "dll (unchecked_at p) t zs kNilIndex" "t \<notin> set zs"
    by auto
  obtain p' where p': "update_at p t (\<lambda>x. x\<lparr>prev_idx := q\<rparr>) = Some p'" "links_frame p p' {t}"
      "unchecked_at p' = (unchecked_at p)(t \<mapsto> xt\<lparr>prev_idx := q\<rparr>)"
    by (rule update_at_links [OF inv t(2), where f = "prev_idx_update (\<lambda>_. q)"]) auto
  have "dll (unchecked_at p') t zs kNilIndex"
    by (rule dll_frame [OF t(4)]) (use t(5) p' in auto)
  then show ?thesis
    using that [of lv p'] p' t Cons links_frame_mono [OF p'(2), of "set ys"] by auto
qed


lemma level_unlink_repr:
  assumes inv: "pool_inv p" and rep: "level_repr (unchecked_at p) lv (xs @ i # ys)"
  obtains lv' p' where "level_unlink lv p i = Some (lv', p')" "links_frame p p' (set (xs @ i # ys))"
    "level_repr (unchecked_at p') lv' (xs @ ys)" "lv_price lv' = lv_price lv"
    "unchecked_at p' i = map_option payload (unchecked_at p i)"
proof -
  have d: "distinct xs" "distinct ys" "i \<notin> set xs" "i \<notin> set ys" "set xs \<inter> set ys = {}"
      "kNilIndex \<notin> set xs" "kNilIndex \<notin> set ys" "i \<noteq> kNilIndex"
    using rep by (auto simp: level_repr_def)
  obtain x where x: "unchecked_at p i = Some x" "prev_idx x = last_of kNilIndex xs"
      "next_idx x = first_of ys kNilIndex"
    and dx: "dll (unchecked_at p) kNilIndex xs i" and dy: "dll (unchecked_at p) i ys kNilIndex"
    using rep by (auto simp: level_repr_def)
  obtain p1 lv1 where 1:
      "(if last_of kNilIndex xs \<noteq> kNilIndex
        then do { p \<leftarrow> update_at p (last_of kNilIndex xs) (\<lambda>x. x\<lparr>next_idx := first_of ys kNilIndex\<rparr>); Some (lv, p) }
        else Some (lv\<lparr>head := first_of ys kNilIndex\<rparr>, p)) = Some (lv1, p1)"
      "links_frame p p1 (set xs)" "dll (unchecked_at p1) kNilIndex xs (first_of ys kNilIndex)"
      "lv_price lv1 = lv_price lv" "tail lv1 = tail lv"
      "head lv = first_of xs i \<Longrightarrow> head lv1 = first_of xs (first_of ys kNilIndex)"
    by (rule update_prev_link [OF inv dx d(1) d(6)]) blast
  have m1: "unchecked_at p1 j = unchecked_at p j" if "j \<notin> set xs" for j
    using that 1(2) by (simp add: links_frame_def)
  have "pool_inv p1"
    using 1(2) by (simp add: links_frame_def)
  moreover have "dll (unchecked_at p1) i ys kNilIndex"
    by (rule dll_frame [OF dy]) (use d m1 in auto)
  ultimately obtain p2 lv2 where 2:
      "(if first_of ys kNilIndex \<noteq> kNilIndex
        then do { p \<leftarrow> update_at p1 (first_of ys kNilIndex) (\<lambda>x. x\<lparr>prev_idx := last_of kNilIndex xs\<rparr>); Some (lv1, p) }
        else Some (lv1\<lparr>tail := last_of kNilIndex xs\<rparr>, p1)) = Some (lv2, p2)"
      "links_frame p1 p2 (set ys)" "dll (unchecked_at p2) (last_of kNilIndex xs) ys kNilIndex"
      "lv_price lv2 = lv_price lv1" "head lv2 = head lv1"
      "tail lv1 = last_of i ys \<Longrightarrow> tail lv2 = last_of (last_of kNilIndex xs) ys"
    by (rule update_next_link [OF _ _ d(2) d(7)]) blast+
  have m2: "unchecked_at p2 j = unchecked_at p1 j" if "j \<notin> set ys" for j
    using that 2(2) by (simp add: links_frame_def)
  have i2: "pool_inv p2" "unchecked_at p2 i = Some x"
    using 2(2) m1 m2 d x by (auto simp: links_frame_def)
  obtain p3 where 3: "update_at p2 i (\<lambda>x. x\<lparr>prev_idx := kNilIndex, next_idx := kNilIndex\<rparr>) = Some p3"
      "links_frame p2 p3 {i}" "unchecked_at p3 = (unchecked_at p2)(i \<mapsto> payload x)"
    by (rule update_at_links [OF i2, where f = "\<lambda>x. x\<lparr>prev_idx := kNilIndex, next_idx := kNilIndex\<rparr>"])
      (auto simp: payload_def)
  have "level_unlink lv p i = Some (lv2, p3)"
    using x 1(1) 2(1) 3(1) by (simp add: level_unlink_def)
  moreover have "links_frame p p3 (set (xs @ i # ys))"
    using links_frame_trans [OF links_frame_trans [OF 1(2) 2(2)] 3(2)] by (auto elim: links_frame_mono)
  moreover have "dll (unchecked_at p3) kNilIndex xs (first_of ys kNilIndex)"
    by (rule dll_frame [OF 1(3)]) (use d m2 3(3) in auto)
  moreover have "dll (unchecked_at p3) (last_of kNilIndex xs) ys kNilIndex"
    by (rule dll_frame [OF 2(3)]) (use d 3(3) in auto)
  ultimately show ?thesis
    using that [of lv2 p3] rep d 1(4-6) 2(4-6) 3(3) x by (auto simp: level_repr_def)
qed


section \<open>The contract of a level\<close>

text \<open>
  A level and its pool, seen as a FIFO that also allows removal from the middle. \<open>present s i\<close>
  says that \<open>i\<close> is a live order of the pool, linked or not.
\<close>

locale fifo_queue =
  fixes repr :: "'s \<Rightarrow> 'i list \<Rightarrow> bool"
    and present :: "'s \<Rightarrow> 'i \<Rightarrow> bool"
    and push :: "'s \<Rightarrow> 'i \<Rightarrow> 's option"
    and remove :: "'s \<Rightarrow> 'i \<Rightarrow> 's option"
  assumes push: "repr s xs \<Longrightarrow> present s i \<Longrightarrow> i \<notin> set xs \<Longrightarrow>
      \<exists>s'. push s i = Some s' \<and> repr s' (xs @ [i]) \<and> present s' = present s"
    and remove: "repr s (xs @ i # ys) \<Longrightarrow>
      \<exists>s'. remove s i = Some s' \<and> repr s' (xs @ ys) \<and> present s' = present s"
    and repr_distinct: "repr s xs \<Longrightarrow> distinct xs"
    and repr_present: "repr s xs \<Longrightarrow> i \<in> set xs \<Longrightarrow> present s i"
begin

text \<open>Unlink then append, the path of a modify that loses priority.\<close>

lemma requeue:
  assumes "repr s (xs @ i # ys)"
  shows "\<exists>s' s''. remove s i = Some s' \<and> push s' i = Some s'' \<and> repr s'' (xs @ ys @ [i])"
proof -
  obtain s' where s': "remove s i = Some s'" "repr s' (xs @ ys)" "present s' = present s"
    using remove [OF assms] by blast
  moreover have "i \<notin> set (xs @ ys)" "present s' i"
    using repr_distinct [OF assms] repr_present [OF assms] s' by auto
  ultimately show ?thesis
    using push by fastforce
qed

lemma push_remove:
  assumes "repr s xs" "present s i" "i \<notin> set xs"
  shows "\<exists>s' s''. push s i = Some s' \<and> remove s' i = Some s'' \<and> repr s'' xs"
proof -
  obtain s' where s': "push s i = Some s'" "repr s' (xs @ [i])"
    using push [OF assms] by blast
  then show ?thesis
    using remove [of s' xs i "[]"] by auto
qed

text \<open>Appending a batch keeps the order of arrival.\<close>

lemma push_all:
  assumes "repr s xs" "distinct (xs @ ys)" "\<And>i. i \<in> set ys \<Longrightarrow> present s i"
  shows "\<exists>s'. fold (\<lambda>i so. Option.bind so (\<lambda>s. push s i)) ys (Some s) = Some s' \<and> repr s' (xs @ ys)"
  using assms
proof (induction ys arbitrary: s xs)
  case Nil
  then show ?case by simp
next
  case (Cons y ys)
  obtain s' where s': "push s y = Some s'" "repr s' (xs @ [y])" "present s' = present s"
    using push [of s xs y] Cons.prems by auto
  show ?case
    using Cons.IH [of s' "xs @ [y]"] Cons.prems s' by simp
qed

end

definition queue_repr :: "Level \<times> order_pool \<Rightarrow> Index list \<Rightarrow> bool" where
  "queue_repr s xs \<longleftrightarrow> pool_inv (snd s) \<and> level_repr (unchecked_at (snd s)) (fst s) xs"

interpretation level_fifo: fifo_queue queue_repr "\<lambda>s i. unchecked_at (snd s) i \<noteq> None"
  "\<lambda>s. level_append (fst s) (snd s)" "\<lambda>s. level_unlink (fst s) (snd s)"
proof
  fix s xs and i :: Index
  assume s: "queue_repr s xs" "unchecked_at (snd s) i \<noteq> None" "i \<notin> set xs"
  then obtain x where "unchecked_at (snd s) i = Some x"
    by blast
  with s(1,3) obtain lv' p' where "level_append (fst s) (snd s) i = Some (lv', p')"
      "links_frame (snd s) p' (insert i (set xs))" "level_repr (unchecked_at p') lv' (xs @ [i])"
    unfolding queue_repr_def by (metis level_append_repr)
  then show "\<exists>s'. level_append (fst s) (snd s) i = Some s' \<and> queue_repr s' (xs @ [i]) \<and>
      (\<lambda>i. unchecked_at (snd s') i \<noteq> None) = (\<lambda>i. unchecked_at (snd s) i \<noteq> None)"
    by (auto simp: queue_repr_def links_frame_def fun_eq_iff same_payload_def) (metis map_option_is_None not_None_eq)+
next
  fix s xs ys and i :: Index
  assume s: "queue_repr s (xs @ i # ys)"
  then obtain lv' p' where "level_unlink (fst s) (snd s) i = Some (lv', p')"
      "links_frame (snd s) p' (set (xs @ i # ys))" "level_repr (unchecked_at p') lv' (xs @ ys)"
    unfolding queue_repr_def by (metis level_unlink_repr)
  then show "\<exists>s'. level_unlink (fst s) (snd s) i = Some s' \<and> queue_repr s' (xs @ ys) \<and>
      (\<lambda>i. unchecked_at (snd s') i \<noteq> None) = (\<lambda>i. unchecked_at (snd s) i \<noteq> None)"
    by (auto simp: queue_repr_def links_frame_def fun_eq_iff same_payload_def) (metis map_option_is_None not_None_eq)+
next
  fix s xs and i :: Index
  assume s: "queue_repr s xs"
  then show "distinct xs"
    by (simp add: queue_repr_def level_repr_def)
  show "i \<in> set xs \<Longrightarrow> unchecked_at (snd s) i \<noteq> None"
    using s level_repr_dom by (fastforce simp: queue_repr_def)
qed

section \<open>Properties\<close>

text \<open>
  \<open>level_unlink\<close> followed by \<open>level_append\<close> of the same order on the same level,
  the path of a modify that loses time priority, moves that order behind all others and keeps
  their order, wherever in the list it was.
\<close>

theorem unlink_append_requeues:
  assumes "pool_inv p" "level_repr (unchecked_at p) lv (xs @ i # ys)"
  shows "\<exists>lv' p' lv'' p''. level_unlink lv p i = Some (lv', p') \<and> level_append lv' p' i = Some (lv'', p'') \<and>
    pool_inv p'' \<and> level_repr (unchecked_at p'') lv'' (xs @ ys @ [i])"
  using level_fifo.requeue [of "(lv, p)" xs i ys] assms by (auto simp: queue_repr_def)

definition sample_pool :: order_pool where
  "sample_pool =
     \<lparr>slots = [Value (default_Order\<lparr>order_id := 10, next_idx := 2\<rparr>), NextFree kNilIndex,
               Value (default_Order\<lparr>order_id := 11, prev_idx := 0\<rparr>)],
      generation = [0, 4, 1], free_head = 1\<rparr>"

lemma dll_code [code]:
  "dll m p [] n \<longleftrightarrow> True"
  "dll m p (x # xs) n \<longleftrightarrow>
     (case m x of None \<Rightarrow> False | Some x' \<Rightarrow> prev_idx x' = p \<and> next_idx x' = first_of xs n) \<and> dll m x xs n"
  by (auto split: option.splits)

theorem unlink_append_requeues_witness:
  "\<exists>lv' p' lv'' p''. level_unlink \<lparr>lv_price = Price 0, head = 0, tail = 2\<rparr> sample_pool 0 = Some (lv', p') \<and>
    level_append lv' p' 0 = Some (lv'', p'') \<and> pool_inv p'' \<and> level_repr (unchecked_at p'') lv'' [2, 0]"
proof -
  have "pool_inv sample_pool"
    unfolding pool_inv_def by (rule exI [of _ "[1]"]) code_simp
  moreover have "level_repr (unchecked_at sample_pool) \<lparr>lv_price = Price 0, head = 0, tail = 2\<rparr> ([] @ 0 # [2])"
    unfolding level_repr_def by code_simp
  ultimately show ?thesis
    using unlink_append_requeues [of sample_pool "\<lparr>lv_price = Price 0, head = 0, tail = 2\<rparr>" "[]" 0 "[2]"] by simp
qed

end
