(* ===== verification/Price_Levels.thy ===== *)
theory Price_Levels
  imports Level_Queue
begin

text \<open>
  \<open>include/engine/price_levels.hpp\<close>: one side of the book as an array of levels sorted from
  the worst price to the best, of which the first \<open>count\<close> entries are in use.

  A \<open>Level*\<close> or \<open>Level&\<close> into the array is modelled by its position. The three algorithms of
  the C++ library the source calls (\<open>std::lower_bound\<close>, \<open>std::copy_backward\<close>, \<open>std::copy\<close>) are
  modelled by the loops they run, with every access checked.
\<close>

section \<open>Library algorithms\<close>

text \<open>Binary search for the first of \<open>len\<close> entries from \<open>start\<close> on which the comparison fails.\<close>

function lower_bound :: "('a \<Rightarrow> bool) \<Rightarrow> 'a list \<Rightarrow> nat \<Rightarrow> nat \<Rightarrow> nat option" where
  "lower_bound cmp xs start len =
     (if len = 0 then Some start
      else do {
        let half = len div 2;
        x \<leftarrow> nth_opt xs (start + half);
        if cmp x then lower_bound cmp xs (start + half + 1) (len - half - 1)
        else lower_bound cmp xs start half
      })"
  by pat_completeness auto
termination
  by (relation "measure (\<lambda>(cmp, xs, start, len). len)") auto

declare lower_bound.simps [simp del]

function copy_backward :: "'a list \<Rightarrow> nat \<Rightarrow> nat \<Rightarrow> nat \<Rightarrow> 'a list option" where
  "copy_backward xs start stop d_last =
     (if stop \<le> start then Some xs
      else do {
        x \<leftarrow> nth_opt xs (stop - 1);
        xs' \<leftarrow> upd_opt xs (d_last - 1) x;
        copy_backward xs' start (stop - 1) (d_last - 1)
      })"
  by pat_completeness auto
termination
  by (relation "measure (\<lambda>(xs, start, stop, d_last). stop)") auto

declare copy_backward.simps [simp del]

function copy_forward :: "'a list \<Rightarrow> nat \<Rightarrow> nat \<Rightarrow> nat \<Rightarrow> 'a list option" where
  "copy_forward xs start stop d =
     (if stop \<le> start then Some xs
      else do {
        x \<leftarrow> nth_opt xs start;
        xs' \<leftarrow> upd_opt xs d x;
        copy_forward xs' (start + 1) stop (d + 1)
      })"
  by pat_completeness auto
termination
  by (relation "measure (\<lambda>(xs, start, stop, d). stop - start)") auto

declare copy_forward.simps [simp del]

section \<open>The container\<close>

datatype Best = High | Low

record PriceLevels =
  levels :: "Level list"
  count :: nat

definition default_Level :: Level where
  "default_Level = \<lparr>lv_price = Price 0, head = kNilIndex, tail = kNilIndex\<rparr>"

definition PriceLevels_new :: "nat \<Rightarrow> PriceLevels" where
  "PriceLevels_new max_levels = \<lparr>levels = replicate max_levels default_Level, count = 0\<rparr>"

definition better :: "Best \<Rightarrow> Price \<Rightarrow> Price \<Rightarrow> bool" where
  "better B a b \<longleftrightarrow> (if B = High then a > b else a < b)"

definition PriceLevels_empty :: "PriceLevels \<Rightarrow> bool" where
  "PriceLevels_empty pl \<longleftrightarrow> count pl = 0"

definition PriceLevels_size :: "PriceLevels \<Rightarrow> nat" where
  "PriceLevels_size pl = count pl"

text \<open>A read and a write through a reference into the array.\<close>

definition level_at :: "PriceLevels \<Rightarrow> nat \<Rightarrow> Level option" where
  "level_at pl pos = nth_opt (levels pl) pos"

definition set_level_at :: "PriceLevels \<Rightarrow> nat \<Rightarrow> Level \<Rightarrow> PriceLevels option" where
  "set_level_at pl pos lv = map_option (\<lambda>ls. pl\<lparr>levels := ls\<rparr>) (upd_opt (levels pl) pos lv)"

definition PriceLevels_best :: "PriceLevels \<Rightarrow> nat option" where
  "PriceLevels_best pl = do { assert_that (count pl > 0); Some (count pl - 1) }"

definition PriceLevels_pop_best :: "PriceLevels \<Rightarrow> PriceLevels option" where
  "PriceLevels_pop_best pl = do { assert_that (count pl > 0); Some (pl\<lparr>count := count pl - 1\<rparr>) }"

definition PriceLevels_by_rank :: "PriceLevels \<Rightarrow> nat \<Rightarrow> Level option" where
  "PriceLevels_by_rank pl rank =
     do { assert_that (rank < count pl); nth_opt (levels pl) (count pl - 1 - rank) }"

definition PriceLevels_lower :: "Best \<Rightarrow> PriceLevels \<Rightarrow> Price \<Rightarrow> nat option" where
  "PriceLevels_lower B pl p = lower_bound (\<lambda>l. better B p (lv_price l)) (levels pl) 0 (count pl)"

text \<open>\<open>find\<close> returns a pointer or null: \<open>Some None\<close> is null.\<close>

definition PriceLevels_find :: "Best \<Rightarrow> PriceLevels \<Rightarrow> Price \<Rightarrow> nat option option" where
  "PriceLevels_find B pl p =
     do {
       at \<leftarrow> PriceLevels_lower B pl p;
       if at = count pl then Some None
       else do { l \<leftarrow> nth_opt (levels pl) at;
                 Some (if lv_price l = p then Some at else None) }
     }"

definition PriceLevels_at :: "Best \<Rightarrow> PriceLevels \<Rightarrow> Price \<Rightarrow> nat option" where
  "PriceLevels_at B pl p = do { found \<leftarrow> PriceLevels_find B pl p; found }"

definition PriceLevels_get_or_insert :: "Best \<Rightarrow> PriceLevels \<Rightarrow> Price \<Rightarrow> (nat \<times> PriceLevels) option" where
  "PriceLevels_get_or_insert B pl p =
     do {
       at \<leftarrow> PriceLevels_lower B pl p;
       present \<leftarrow> (if at = count pl then Some False
                   else do { l \<leftarrow> nth_opt (levels pl) at; Some (lv_price l = p) });
       if present then Some (at, pl)
       else do {
         assert_that (count pl < length (levels pl));
         ls \<leftarrow> copy_backward (levels pl) at (count pl) (count pl + 1);
         ls' \<leftarrow> upd_opt ls at \<lparr>lv_price = p, head = kNilIndex, tail = kNilIndex\<rparr>;
         Some (at, pl\<lparr>levels := ls', count := count pl + 1\<rparr>)
       }
     }"

definition PriceLevels_erase :: "Best \<Rightarrow> PriceLevels \<Rightarrow> Price \<Rightarrow> PriceLevels option" where
  "PriceLevels_erase B pl p =
     do {
       found \<leftarrow> PriceLevels_find B pl p;
       at \<leftarrow> found;
       ls \<leftarrow> copy_forward (levels pl) (at + 1) (count pl) at;
       Some (pl\<lparr>levels := ls, count := count pl - 1\<rparr>)
     }"

section \<open>What the library loops compute\<close>

lemma lower_bound_partition:
  assumes "start + len \<le> length xs"
    and "\<And>i j. start \<le> i \<Longrightarrow> i < j \<Longrightarrow> j < start + len \<Longrightarrow> cmp (xs ! j) \<Longrightarrow> cmp (xs ! i)"
  shows "\<exists>r. lower_bound cmp xs start len = Some r \<and> start \<le> r \<and> r \<le> start + len \<and>
    (\<forall>i. start \<le> i \<and> i < r \<longrightarrow> cmp (xs ! i)) \<and> (\<forall>i. r \<le> i \<and> i < start + len \<longrightarrow> \<not> cmp (xs ! i))"
  using assms
proof (induction cmp xs start len rule: lower_bound.induct)
  case (1 cmp xs start len)
  define half where "half = len div 2"
  show ?case
  proof (cases "len = 0")
    case True
    then show ?thesis by (auto simp: lower_bound.simps)
  next
    case False
    then have half: "half < len" "start + half < length xs"
      using "1.prems" by (auto simp: half_def)
    have mono: "\<And>i j. start \<le> i \<Longrightarrow> i < j \<Longrightarrow> j < start + len \<Longrightarrow> cmp (xs ! j) \<Longrightarrow> cmp (xs ! i)"
      using "1.prems"(2) by blast
    show ?thesis
    proof (cases "cmp (xs ! (start + half))")
      case True
      have eq: "lower_bound cmp xs start len = lower_bound cmp xs (start + half + 1) (len - half - 1)"
        using False True half by (subst lower_bound.simps) (simp add: Let_def half_def)
      have "\<exists>r. lower_bound cmp xs (start + half + 1) (len - half - 1) = Some r \<and>
          start + half + 1 \<le> r \<and> r \<le> start + half + 1 + (len - half - 1) \<and>
          (\<forall>i. start + half + 1 \<le> i \<and> i < r \<longrightarrow> cmp (xs ! i)) \<and>
          (\<forall>i. r \<le> i \<and> i < start + half + 1 + (len - half - 1) \<longrightarrow> \<not> cmp (xs ! i))"
        using "1.IH"(1) [OF False half_def _ True] half "1.prems" mono by simp
      then obtain r where r: "lower_bound cmp xs start len = Some r" "start + half + 1 \<le> r"
          "r \<le> start + len" "\<forall>i. start + half + 1 \<le> i \<and> i < r \<longrightarrow> cmp (xs ! i)"
          "\<forall>i. r \<le> i \<and> i < start + len \<longrightarrow> \<not> cmp (xs ! i)"
        using half eq by auto
      have "cmp (xs ! i)" if "start \<le> i" "i < r" for i
      proof (cases "i < start + half")
        case True
        then show ?thesis
          using mono [of i "start + half"] that half \<open>cmp (xs ! (start + half))\<close> by simp
      next
        case False
        then show ?thesis
          using r(4) that True by (cases "i = start + half") auto
      qed
      with r show ?thesis by auto
    next
      case nc: False
      have eq: "lower_bound cmp xs start len = lower_bound cmp xs start half"
        using False nc half by (subst lower_bound.simps) (simp add: Let_def half_def)
      obtain r where r: "lower_bound cmp xs start half = Some r" "start \<le> r" "r \<le> start + half"
          "\<forall>i. start \<le> i \<and> i < r \<longrightarrow> cmp (xs ! i)" "\<forall>i. r \<le> i \<and> i < start + half \<longrightarrow> \<not> cmp (xs ! i)"
        using "1.IH"(2) [OF False half_def _ nc] half "1.prems" mono by auto
      have "\<not> cmp (xs ! i)" if "r \<le> i" "i < start + len" for i
        using r(5) that mono [of "start + half" i] r(2) nc
        by (cases "i < start + half"; cases "i = start + half") auto
      with r eq half show ?thesis by auto
    qed
  qed
qed


text \<open>Shifting a block up by one and shifting a block down by one.\<close>

lemma copy_backward_shift:
  assumes "stop < length xs"
  shows "\<exists>ys. copy_backward xs start stop (stop + 1) = Some ys \<and> length ys = length xs \<and>
    (\<forall>j < length xs. ys ! j = (if start < j \<and> j \<le> stop then xs ! (j - 1) else xs ! j))"
  using assms
proof (induction stop arbitrary: xs)
  case 0
  then show ?case by (simp add: copy_backward.simps)
next
  case (Suc n)
  show ?case
  proof (cases "Suc n \<le> start")
    case True
    then show ?thesis by (auto simp: copy_backward.simps)
  next
    case False
    define xs' where "xs' = xs[Suc n := xs ! n]"
    obtain ys where ys: "copy_backward xs' start n (n + 1) = Some ys" "length ys = length xs'"
        "\<forall>j < length xs'. ys ! j = (if start < j \<and> j \<le> n then xs' ! (j - 1) else xs' ! j)"
      using Suc.IH [of xs'] Suc.prems by (auto simp: xs'_def)
    have "copy_backward xs start (Suc n) (Suc n + 1) = Some ys"
      using False Suc.prems ys(1) by (subst copy_backward.simps) (simp add: xs'_def)
    moreover have "ys ! j = (if start < j \<and> j \<le> Suc n then xs ! (j - 1) else xs ! j)"
      if "j < length xs" for j
      using ys(3) that False by (cases "j = Suc n") (auto simp: xs'_def nth_list_update)
    ultimately show ?thesis
      using ys(2) by (auto simp: xs'_def)
  qed
qed

lemma copy_forward_shift:
  assumes "stop \<le> length xs"
  shows "\<exists>ys. copy_forward xs (a + 1) stop a = Some ys \<and> length ys = length xs \<and>
    (\<forall>j < length xs. ys ! j = (if a \<le> j \<and> j + 1 < stop then xs ! (j + 1) else xs ! j))"
  using assms
proof (induction "stop - a" arbitrary: xs a rule: less_induct)
  case less
  show ?case
  proof (cases "stop \<le> a + 1")
    case True
    then show ?thesis by (auto simp: copy_forward.simps)
  next
    case False
    define xs' where "xs' = xs[a := xs ! (a + 1)]"
    obtain ys where ys: "copy_forward xs' (a + 1 + 1) stop (a + 1) = Some ys" "length ys = length xs'"
        "\<forall>j < length xs'. ys ! j = (if a + 1 \<le> j \<and> j + 1 < stop then xs' ! (j + 1) else xs' ! j)"
    proof -
      have "stop - (a + 1) < stop - a" "stop \<le> length xs'"
        using False less.prems by (auto simp: xs'_def)
      from less.hyps [OF this] show ?thesis
        using that by blast
    qed
    have "copy_forward xs (a + 1) stop a = Some ys"
      using False less.prems ys(1) by (subst copy_forward.simps) (simp add: xs'_def)
    moreover have "ys ! j = (if a \<le> j \<and> j + 1 < stop then xs ! (j + 1) else xs ! j)"
      if "j < length xs" for j
      using ys(3) that False by (cases "j = a") (auto simp: xs'_def nth_list_update)
    ultimately show ?thesis
      using ys(2) by (auto simp: xs'_def)
  qed
qed

section \<open>Orders on prices\<close>

text \<open>
  Which end of the price axis is best is a strict total order, and the array runs from worst to
  best. The facts the container needs hold for any such order.
\<close>

locale price_order =
  fixes better :: "'p \<Rightarrow> 'p \<Rightarrow> bool"
  assumes irrefl: "\<not> better a a"
    and trans: "better a b \<Longrightarrow> better b c \<Longrightarrow> better a c"
    and total: "a = b \<or> better a b \<or> better b a"
begin

lemma asym: "better a b \<Longrightarrow> \<not> better b a"
  using irrefl trans by blast

lemma worst_first_distinct: "sorted_wrt (\<lambda>a b. better b a) ps \<Longrightarrow> distinct ps"
  by (induction ps) (auto simp: irrefl)

text \<open>The entries worse than a price form a prefix.\<close>

lemma worse_prefix:
  assumes "sorted_wrt (\<lambda>a b. better b a) ps" "i < j" "j < length ps" "better q (ps ! j)"
  shows "better q (ps ! i)"
  using assms sorted_wrt_nth_less [OF assms(1-3)] trans by blast

lemma found_iff_member:
  assumes sorted: "sorted_wrt (\<lambda>a b. better b a) ps"
    and k: "k \<le> length ps" "\<And>i. i < k \<Longrightarrow> better q (ps ! i)" "\<And>i. k \<le> i \<Longrightarrow> i < length ps \<Longrightarrow> \<not> better q (ps ! i)"
  shows "q \<in> set ps \<longleftrightarrow> k < length ps \<and> ps ! k = q"
proof
  assume "q \<in> set ps"
  then obtain j where j: "j < length ps" "ps ! j = q"
    by (auto simp: in_set_conv_nth)
  then have "k \<le> j"
    using k(2) irrefl by (metis not_le)
  moreover have "\<not> k < j"
    using sorted_wrt_nth_less [OF sorted, of k j] j k(3) [of k] by auto
  ultimately show "k < length ps \<and> ps ! k = q"
    using j by auto
qed auto

lemma insert_worst_first:
  assumes sorted: "sorted_wrt (\<lambda>a b. better b a) ps" and new: "q \<notin> set ps"
    and k: "k \<le> length ps" "\<And>i. i < k \<Longrightarrow> better q (ps ! i)" "\<And>i. k \<le> i \<Longrightarrow> i < length ps \<Longrightarrow> \<not> better q (ps ! i)"
  shows "sorted_wrt (\<lambda>a b. better b a) (take k ps @ q # drop k ps)"
proof -
  have "sorted_wrt (\<lambda>a b. better b a) (take k ps @ drop k ps)"
    using sorted by simp
  moreover have "better q a" if "a \<in> set (take k ps)" for a
    using that k by (auto simp: in_set_conv_nth)
  moreover have "better a q" if a: "a \<in> set (drop k ps)" for a
  proof -
    obtain i where "k + i < length ps" "ps ! (k + i) = a"
      using a k(1) by (auto simp: in_set_conv_nth less_diff_conv add.commute)
    then show ?thesis
      using k(3) [of "k + i"] total [of a q] new by (auto simp: in_set_conv_nth)
  qed
  ultimately show ?thesis
    unfolding sorted_wrt_append by auto
qed

end

interpretation side_order: price_order "better B" for B
  by unfold_locales (auto simp: better_def split: if_splits)


section \<open>The container's operations\<close>

definition active :: "PriceLevels \<Rightarrow> Level list" where
  "active pl = take (count pl) (levels pl)"

definition levels_inv :: "Best \<Rightarrow> PriceLevels \<Rightarrow> bool" where
  "levels_inv B pl \<longleftrightarrow> count pl \<le> length (levels pl) \<and>
     sorted_wrt (\<lambda>a b. better B b a) (map lv_price (active pl))"

lemma length_active [simp]: "count pl \<le> length (levels pl) \<Longrightarrow> length (active pl) = count pl"
  by (simp add: active_def)

lemma levels_inv_length: "levels_inv B pl \<Longrightarrow> length (active pl) = count pl"
  by (simp add: levels_inv_def)

lemma nth_active: "i < count pl \<Longrightarrow> active pl ! i = levels pl ! i"
  by (simp add: active_def)

lemma levels_inv_new [engine_inv]: "levels_inv B (PriceLevels_new n)" "active (PriceLevels_new n) = []"
  by (simp_all add: levels_inv_def PriceLevels_new_def active_def)

lemma PriceLevels_lower_split:
  assumes inv: "levels_inv B pl"
  obtains as bs where "active pl = as @ bs" "PriceLevels_lower B pl p = Some (length as)"
    "\<And>l. l \<in> set as \<Longrightarrow> better B p (lv_price l)" "\<And>l. l \<in> set bs \<Longrightarrow> \<not> better B p (lv_price l)"
    "p \<in> lv_price ` set (active pl) \<longleftrightarrow> (\<exists>l bs'. bs = l # bs' \<and> lv_price l = p)"
proof -
  let ?ps = "map lv_price (active pl)"
  have cnt: "count pl \<le> length (levels pl)" and sorted: "sorted_wrt (\<lambda>a b. better B b a) ?ps"
    using inv by (auto simp: levels_inv_def)
  have pre: "better B p (lv_price (levels pl ! i))"
    if "i < j" "j < 0 + count pl" "better B p (lv_price (levels pl ! j))" for i j
    using side_order.worse_prefix [OF sorted that(1), of p] that cnt by (simp add: nth_active)
  obtain k where k: "PriceLevels_lower B pl p = Some k" "k \<le> count pl"
      "\<And>i. i < k \<Longrightarrow> better B p (lv_price (levels pl ! i))"
      "\<And>i. k \<le> i \<Longrightarrow> i < count pl \<Longrightarrow> \<not> better B p (lv_price (levels pl ! i))"
    using lower_bound_partition [of 0 "count pl" "levels pl" "\<lambda>l. better B p (lv_price l)"] cnt pre
    unfolding PriceLevels_lower_def by auto
  have "p \<in> set ?ps \<longleftrightarrow> k < length ?ps \<and> ?ps ! k = p"
    by (rule side_order.found_iff_member [OF sorted]) (use k cnt in \<open>auto simp: nth_active\<close>)
  also have "\<dots> \<longleftrightarrow> (\<exists>l bs'. drop k (active pl) = l # bs' \<and> lv_price l = p)"
  proof (cases "k < length (active pl)")
    case True
    then have "drop k (active pl) = active pl ! k # drop (Suc k) (active pl)"
      by (rule Cons_nth_drop_Suc [symmetric])
    with True show ?thesis by auto
  qed auto
  finally have mem: "p \<in> lv_price ` set (active pl) \<longleftrightarrow> (\<exists>l bs'. drop k (active pl) = l # bs' \<and> lv_price l = p)"
    by simp
  have "better B p (lv_price l)" if "l \<in> set (take k (active pl))" for l
    using that k(2,3) cnt by (auto simp: in_set_conv_nth nth_active)
  moreover have "\<not> better B p (lv_price l)" if "l \<in> set (drop k (active pl))" for l
    using that k(2,4) cnt by (auto simp: in_set_conv_nth nth_active)
  ultimately show ?thesis
    using that [of "take k (active pl)" "drop k (active pl)"] k(1,2) cnt mem by simp
qed

lemma PriceLevels_find_present:
  assumes inv: "levels_inv B pl" and split: "active pl = as @ l # bs" "lv_price l = p"
  shows "PriceLevels_find B pl p = Some (Some (length as))"
proof -
  obtain cs ds where cd: "active pl = cs @ ds" "PriceLevels_lower B pl p = Some (length cs)"
      "\<And>l. l \<in> set cs \<Longrightarrow> better B p (lv_price l)"
      "p \<in> lv_price ` set (active pl) \<longleftrightarrow> (\<exists>l bs'. ds = l # bs' \<and> lv_price l = p)"
    using PriceLevels_lower_split [OF inv, of p] by metis
  moreover have "p \<in> lv_price ` set (active pl)"
    using split by (simp del: image_eqI)
  ultimately obtain l' ds' where ds: "ds = l' # ds'" "lv_price l' = p"
    by blast
  have d: "distinct (map lv_price (active pl))"
    using inv side_order.worst_first_distinct by (auto simp: levels_inv_def)
  have len: "length (active pl) = count pl"
    using inv by (rule levels_inv_length)
  have at: "active pl ! length cs = l'" "length cs < count pl"
    using cd(1) ds(1) len by auto
  moreover have "active pl ! length as = l" "length as < count pl"
    using split(1) len by auto
  ultimately have "length cs = length as"
    using d ds(2) split(2) len nth_eq_iff_index_eq [OF d, of "length cs" "length as"] by simp
  moreover have "levels pl ! length cs = l'" "length cs < length (levels pl)"
    using at inv by (auto simp: nth_active levels_inv_def)
  ultimately show ?thesis
    using cd(2) ds(2) at by (auto simp: PriceLevels_find_def)
qed

lemma PriceLevels_find_absent:
  assumes inv: "levels_inv B pl" and absent: "p \<notin> lv_price ` set (active pl)"
  shows "PriceLevels_find B pl p = Some None"
proof -
  obtain cs ds where cd: "active pl = cs @ ds" "PriceLevels_lower B pl p = Some (length cs)"
    using PriceLevels_lower_split [OF inv, of p] by metis
  have len: "length (active pl) = count pl" "count pl \<le> length (levels pl)"
    using inv by (auto simp: levels_inv_def)
  show ?thesis
  proof (cases "length cs = count pl")
    case True
    then show ?thesis using cd by (simp add: PriceLevels_find_def)
  next
    case False
    then have "length cs < count pl"
      using cd(1) len by (metis length_append le_add1 le_neq_implies_less)
    then have "levels pl ! length cs \<in> set (active pl)" "length cs < length (levels pl)"
      using len by (auto simp: nth_active [symmetric])
    then show ?thesis
      using cd(2) absent False by (auto simp: PriceLevels_find_def)
  qed
qed

lemma PriceLevels_at_present:
  assumes "levels_inv B pl" "active pl = as @ l # bs" "lv_price l = p"
  shows "PriceLevels_at B pl p = Some (length as)"
  using PriceLevels_find_present [OF assms] by (simp add: PriceLevels_at_def)

lemma level_at_active: "levels_inv B pl \<Longrightarrow> active pl = as @ l # bs \<Longrightarrow> level_at pl (length as) = Some l"
  using nth_active [of "length as" pl] levels_inv_length [of B pl]
  by (auto simp: level_at_def levels_inv_def)


lemma level_at_bound: "levels_inv B pl \<Longrightarrow> active pl = as @ l # bs \<Longrightarrow> length as < length (levels pl)"
  using levels_inv_length [of B pl] by (auto simp: levels_inv_def)

lemma set_level_at_active:
  assumes "levels_inv B pl" "active pl = as @ l # bs" "lv_price l' = lv_price l"
  obtains pl' where "set_level_at pl (length as) l' = Some pl'" "active pl' = as @ l' # bs"
    "levels_inv B pl'" "length (levels pl') = length (levels pl)"
proof -
  define pl' where "pl' = pl\<lparr>levels := (levels pl)[length as := l']\<rparr>"
  have "active pl' = (active pl)[length as := l']"
    by (simp add: active_def pl'_def take_update_swap)
  then have act: "active pl' = as @ l' # bs"
    using assms(2) by simp
  moreover have "levels_inv B pl'"
    using assms act by (simp add: levels_inv_def) (simp add: pl'_def)
  ultimately show ?thesis
    using that [of pl'] level_at_bound [OF assms(1,2)] by (simp add: set_level_at_def pl'_def)
qed

lemma get_or_insert_present:
  assumes inv: "levels_inv B pl" and split: "active pl = as @ l # bs" "lv_price l = p"
  shows "PriceLevels_get_or_insert B pl p = Some (length as, pl)"
proof -
  obtain at where "PriceLevels_lower B pl p = Some at" "at \<noteq> count pl" "at < length (levels pl)"
      "lv_price (levels pl ! at) = p" "at = length as"
    using PriceLevels_find_present [OF assms] by (auto simp: PriceLevels_find_def split: if_splits)
  then show ?thesis
    by (simp add: PriceLevels_get_or_insert_def)
qed

definition new_level :: "Price \<Rightarrow> Level" where
  "new_level p = \<lparr>lv_price = p, head = kNilIndex, tail = kNilIndex\<rparr>"

lemma get_or_insert_absent:
  assumes inv: "levels_inv B pl" and absent: "p \<notin> lv_price ` set (active pl)"
    and room: "count pl < length (levels pl)"
  obtains as bs pl' where "active pl = as @ bs" "PriceLevels_get_or_insert B pl p = Some (length as, pl')"
    "active pl' = as @ new_level p # bs" "levels_inv B pl'" "length (levels pl') = length (levels pl)"
    "\<And>l. l \<in> set as \<Longrightarrow> better B p (lv_price l)" "\<And>l. l \<in> set bs \<Longrightarrow> better B (lv_price l) p"
proof -
  obtain as bs where ab: "active pl = as @ bs" "PriceLevels_lower B pl p = Some (length as)"
      "\<And>l. l \<in> set as \<Longrightarrow> better B p (lv_price l)" "\<And>l. l \<in> set bs \<Longrightarrow> \<not> better B p (lv_price l)"
    using PriceLevels_lower_split [OF inv, of p] by metis
  have bs: "better B (lv_price l) p" if "l \<in> set bs" for l
    using ab(4) [OF that] side_order.total [of "lv_price l" p B] that absent ab(1) by auto
  have len: "length as + length bs = count pl"
    using ab(1) levels_inv_length [OF inv] by simp
  obtain ys where ys: "copy_backward (levels pl) (length as) (count pl) (count pl + 1) = Some ys"
      "length ys = length (levels pl)"
      "\<And>j. j < length (levels pl) \<Longrightarrow>
         ys ! j = (if length as < j \<and> j \<le> count pl then levels pl ! (j - 1) else levels pl ! j)"
    using copy_backward_shift [OF room, of "length as"] by auto
  define pl' where "pl' = pl\<lparr>levels := ys[length as := new_level p], count := count pl + 1\<rparr>"
  have nth: "levels pl ! j = (as @ bs) ! j" if "j < count pl" for j
    using nth_active [OF that] ab(1) by simp
  have act: "active pl' = as @ new_level p # bs"
  proof (rule nth_equalityI)
    show "length (active pl') = length (as @ new_level p # bs)"
      using len room ys(2) by (simp add: active_def pl'_def)
  next
    fix j assume "j < length (active pl')"
    then have j: "j \<le> count pl"
      using room ys(2) by (simp add: active_def pl'_def)
    consider "j < length as" | "j = length as" | "length as < j" by linarith
    then show "active pl' ! j = (as @ new_level p # bs) ! j"
    proof cases
      case 1
      then show ?thesis
        using j room ys nth [of j] len by (simp add: active_def pl'_def nth_append)
    next
      case 2
      then show ?thesis
        using j room ys(2) by (simp add: active_def pl'_def nth_append)
    next
      case 3
      then show ?thesis
        using j room ys nth [of "j - 1"] len by (simp add: active_def pl'_def nth_append nth_Cons')
    qed
  qed
  moreover have "levels_inv B pl'"
    using act inv ab bs room ys(2)
    by (auto simp: levels_inv_def sorted_wrt_append new_level_def) (auto simp: pl'_def)
  moreover have "PriceLevels_get_or_insert B pl p = Some (length as, pl')"
  proof -
    have "(if length as = count pl then Some False
        else do { l \<leftarrow> nth_opt (levels pl) (length as); Some (lv_price l = p) }) = Some False"
      using PriceLevels_find_absent [OF inv absent] ab(2)
      by (auto simp: PriceLevels_find_def split: if_splits)
    then show ?thesis
      using ab(2) ys room len by (simp add: PriceLevels_get_or_insert_def pl'_def new_level_def)
  qed
  ultimately show ?thesis
    using that ab bs ys(2) by (simp add: pl'_def)
qed

lemma erase_present:
  assumes inv: "levels_inv B pl" and split: "active pl = as @ l # bs" "lv_price l = p"
  obtains pl' where "PriceLevels_erase B pl p = Some pl'" "active pl' = as @ bs"
    "levels_inv B pl'" "length (levels pl') = length (levels pl)"
proof -
  have len: "count pl = Suc (length as + length bs)" "count pl \<le> length (levels pl)"
    using split levels_inv_length [OF inv] inv by (auto simp: levels_inv_def)
  obtain ys where ys: "copy_forward (levels pl) (length as + 1) (count pl) (length as) = Some ys"
      "length ys = length (levels pl)"
      "\<And>j. j < length (levels pl) \<Longrightarrow>
         ys ! j = (if length as \<le> j \<and> j + 1 < count pl then levels pl ! (j + 1) else levels pl ! j)"
    using copy_forward_shift [OF len(2), of "length as"] by auto
  define pl' where "pl' = pl\<lparr>levels := ys, count := count pl - 1\<rparr>"
  have nth: "levels pl ! j = (as @ l # bs) ! j" if "j < count pl" for j
    using nth_active [OF that] split(1) by simp
  have act: "active pl' = as @ bs"
  proof (rule nth_equalityI)
    show "length (active pl') = length (as @ bs)"
      using len ys(2) by (simp add: active_def pl'_def)
  next
    fix j assume "j < length (active pl')"
    then have j: "Suc j < count pl"
      using len ys(2) by (auto simp: active_def pl'_def)
    then show "active pl' ! j = (as @ bs) ! j"
      using ys len nth [of j] nth [of "Suc j"]
      by (cases "j < length as") (auto simp: active_def pl'_def nth_append Suc_diff_le)
  qed
  moreover have "levels_inv B pl'"
    using act inv split len ys(2)
    by (auto simp: levels_inv_def sorted_wrt_append) (auto simp: pl'_def)
  moreover have "PriceLevels_erase B pl p = Some pl'"
    using PriceLevels_find_present [OF assms] ys by (simp add: PriceLevels_erase_def pl'_def)
  ultimately show ?thesis
    using that ys(2) by (simp add: pl'_def)
qed

lemma best_active:
  assumes "levels_inv B pl" "active pl = as @ [l]"
  shows "PriceLevels_best pl = Some (length as)"
  using assms levels_inv_length [OF assms(1)] by (simp add: PriceLevels_best_def)

lemma pop_best_active:
  assumes "levels_inv B pl" "active pl = as @ [l]"
  obtains pl' where "PriceLevels_pop_best pl = Some pl'" "active pl' = as" "levels_inv B pl'"
    "length (levels pl') = length (levels pl)"
proof -
  define pl' where "pl' = pl\<lparr>count := count pl - 1\<rparr>"
  have c: "count pl = Suc (length as)"
    using assms levels_inv_length [OF assms(1)] by simp
  have "active pl' = take (length as) (active pl)"
    using c by (simp add: active_def pl'_def)
  then have act: "active pl' = as"
    using assms(2) by simp
  moreover have "levels_inv B pl'"
    using assms act by (auto simp: levels_inv_def sorted_wrt_append) (auto simp: pl'_def)
  ultimately show ?thesis
    using that [of pl'] c by (simp add: PriceLevels_pop_best_def pl'_def)
qed

lemma by_rank_active:
  assumes "levels_inv B pl" "rank < count pl"
  shows "PriceLevels_by_rank pl rank = Some (rev (active pl) ! rank)"
  using assms by (auto simp: PriceLevels_by_rank_def levels_inv_def rev_nth nth_active)

lemma empty_active: "levels_inv B pl \<Longrightarrow> PriceLevels_empty pl \<longleftrightarrow> active pl = []"
  using levels_inv_length [of B pl] by (auto simp: PriceLevels_empty_def active_def)

section \<open>Properties\<close>

text \<open>
  \<open>get_or_insert\<close> never trips its assertions while there is room, returns the
  position of the level for the price, keeps the array strictly ordered worst to best, and adds
  at most the one price.
\<close>

theorem get_or_insert_correct:
  assumes inv: "levels_inv B pl" and room: "count pl < length (levels pl)"
  shows "\<exists>pos pl' lv. PriceLevels_get_or_insert B pl p = Some (pos, pl') \<and> levels_inv B pl' \<and>
    level_at pl' pos = Some lv \<and> lv_price lv = p \<and> pos < count pl' \<and>
    set (active pl') = set (active pl) \<union> {lv} \<and>
    (p \<notin> lv_price ` set (active pl) \<longrightarrow> lv = new_level p) \<and> PriceLevels_at B pl' p = Some pos"
proof (cases "p \<in> lv_price ` set (active pl)")
  case True
  then obtain as lv bs where ab: "active pl = as @ lv # bs" "lv_price lv = p"
    by (auto dest: split_list)
  have "count pl = Suc (length as + length bs)"
    using levels_inv_length [OF inv] ab by simp
  then show ?thesis
    using get_or_insert_present [OF inv ab] level_at_active [OF inv ab(1)] PriceLevels_at_present [OF inv ab]
      inv ab True by auto
next
  case False
  obtain as bs pl' where ab: "active pl = as @ bs" "PriceLevels_get_or_insert B pl p = Some (length as, pl')"
      "active pl' = as @ new_level p # bs" "levels_inv B pl'"
    by (rule get_or_insert_absent [OF inv False room])
  have "lv_price (new_level p) = p" "count pl' = Suc (length as + length bs)"
    using levels_inv_length [OF ab(4)] ab(3) by (auto simp: new_level_def)
  then show ?thesis
    using ab level_at_active [OF ab(4,3)] PriceLevels_at_present [OF ab(4,3)] by auto
qed

theorem get_or_insert_correct_witness:
  "\<exists>pos pl' lv. PriceLevels_get_or_insert High (PriceLevels_new 3) (Price 5) = Some (pos, pl') \<and> levels_inv High pl' \<and>
    level_at pl' pos = Some lv \<and> lv_price lv = Price 5 \<and> PriceLevels_at High pl' (Price 5) = Some pos"
proof -
  have "count (PriceLevels_new 3) < length (levels (PriceLevels_new 3))"
    by (simp add: PriceLevels_new_def)
  then show ?thesis
    using get_or_insert_correct [OF levels_inv_new(1), of 3 High "Price 5"] by blast
qed

end
