(* ===== verification/Probing.thy ===== *)
theory Probing
  imports Engine_Prelude
begin

text \<open>
  Linear probing over a ring of \<open>n\<close> slots, independent of how the table is stored. A table is a
  function from slot numbers to key-value pairs; \<open>h\<close> gives each key its home slot.

  The invariant is that a key is reachable: every slot from its home up to the slot it sits in is
  occupied. Insertion into the first empty slot keeps it trivially. Deletion without tombstones
  opens a hole and shifts later entries back into it; \<open>hole_inv\<close> is the invariant of that loop.
\<close>

section \<open>Distances on a ring\<close>

definition cdist :: "nat \<Rightarrow> nat \<Rightarrow> nat \<Rightarrow> nat" where
  "cdist n a b = (b + n - a) mod n"

lemma cdist_cases:
  assumes "a < n" "b < n"
  shows "cdist n a b = (if a \<le> b then b - a else b + n - a)"
proof (cases "a \<le> b")
  case True
  then have eq: "b + n - a = (b - a) + n" by simp
  show ?thesis
    unfolding cdist_def eq mod_add_self2 using True assms by simp
next
  case False
  with assms show ?thesis by (simp add: cdist_def)
qed

lemma ring_add_cases:
  fixes a :: nat
  assumes "a < n" "d \<le> n"
  shows "(a + d) mod n = (if a + d < n then a + d else a + d - n)"
  using assms by (auto simp: le_mod_geq)

lemma cdist_less: "0 < n \<Longrightarrow> cdist n a b < n"
  by (simp add: cdist_def)

lemma cdist_self [simp]: "a < n \<Longrightarrow> cdist n a a = 0"
  by (simp add: cdist_cases)

lemma cdist_eq_0: "a < n \<Longrightarrow> b < n \<Longrightarrow> cdist n a b = 0 \<longleftrightarrow> a = b"
  by (auto simp: cdist_cases)

lemma add_cdist: "a < n \<Longrightarrow> b < n \<Longrightarrow> (a + cdist n a b) mod n = b"
  by (auto simp: cdist_cases ring_add_cases)

lemma cdist_add: "a < n \<Longrightarrow> d < n \<Longrightarrow> cdist n a ((a + d) mod n) = d"
  by (auto simp: cdist_cases ring_add_cases)

text \<open>A slot on the way from \<open>a\<close> to \<open>b\<close> splits the distance.\<close>

lemma cdist_split:
  assumes "a < n" "b < n" "d \<le> cdist n a b"
  shows "cdist n ((a + d) mod n) b = cdist n a b - d"
  using assms cdist_less [of n a b] by (auto simp: cdist_cases ring_add_cases split: if_splits)

lemma cdist_step:
  assumes "a < n" "b < n" "cdist n a b + 1 < n"
  shows "cdist n a ((b + 1) mod n) = cdist n a b + 1"
  using assms ring_add_cases [of b n 1] by (auto simp: cdist_cases split: if_splits)

lemma cdist_step_closer:
  assumes "a < n" "b < n" "a \<noteq> b"
  shows "cdist n ((a + 1) mod n) b < cdist n a b"
  using assms ring_add_cases [of a n 1] by (auto simp: cdist_cases split: if_splits)

text \<open>If \<open>c\<close> is no farther from \<open>b\<close> than \<open>a\<close> is, then \<open>c\<close> is on the way from \<open>a\<close> to \<open>b\<close>.\<close>

lemma on_path:
  assumes "a < n" "b < n" "c < n" "cdist n c b \<le> cdist n a b"
  shows "(a + (cdist n a b - cdist n c b)) mod n = c"
  using assms by (auto simp: cdist_cases ring_add_cases split: if_splits)

section \<open>Tables\<close>

type_synonym ('k, 'v) ptable = "nat \<Rightarrow> ('k \<times> 'v) option"

definition contents :: "nat \<Rightarrow> ('k, 'v) ptable \<Rightarrow> ('k \<times> 'v) set" where
  "contents n t = {kv. \<exists>j<n. t j = Some kv}"

definition unique_keys :: "nat \<Rightarrow> ('k, 'v) ptable \<Rightarrow> bool" where
  "unique_keys n t \<longleftrightarrow> (\<forall>i<n. \<forall>j<n. \<forall>k v w. t i = Some (k, v) \<and> t j = Some (k, w) \<longrightarrow> i = j)"

definition probe_inv :: "nat \<Rightarrow> ('k \<Rightarrow> nat) \<Rightarrow> ('k, 'v) ptable \<Rightarrow> bool" where
  "probe_inv n h t \<longleftrightarrow> (\<forall>k. h k < n) \<and> unique_keys n t \<and>
     (\<forall>j<n. \<forall>k v. t j = Some (k, v) \<longrightarrow> (\<forall>d < cdist n (h k) j. t ((h k + d) mod n) \<noteq> None))"

lemma unique_keysD:
  "unique_keys n t \<Longrightarrow> i < n \<Longrightarrow> j < n \<Longrightarrow> t i = Some (k, v) \<Longrightarrow> t j = Some (k, w) \<Longrightarrow> i = j"
  unfolding unique_keys_def by blast

lemma contents_functional:
  "unique_keys n t \<Longrightarrow> (k, v) \<in> contents n t \<Longrightarrow> (k, w) \<in> contents n t \<Longrightarrow> v = w"
  unfolding contents_def using unique_keysD by fastforce

lemma probe_invD:
  assumes "probe_inv n h t"
  shows "h k < n" "unique_keys n t"
    "\<And>j v d. j < n \<Longrightarrow> t j = Some (k, v) \<Longrightarrow> d < cdist n (h k) j \<Longrightarrow> t ((h k + d) mod n) \<noteq> None"
  using assms unfolding probe_inv_def by blast+

text \<open>A probe that has passed \<open>d\<close> slots without meeting the key and stands at an empty slot is done.\<close>

lemma absent_at_empty:
  assumes inv: "probe_inv n h t" and d: "d < n" "t ((h k + d) mod n) = None"
    and passed: "\<And>e v. e < d \<Longrightarrow> t ((h k + e) mod n) \<noteq> Some (k, v)"
  shows "(k, v) \<notin> contents n t"
proof
  assume "(k, v) \<in> contents n t"
  then obtain j where j: "j < n" "t j = Some (k, v)"
    by (auto simp: contents_def)
  have hk: "h k < n"
    using inv by (rule probe_invD)
  have slot: "(h k + cdist n (h k) j) mod n = j"
    using hk j(1) by (rule add_cdist)
  consider "cdist n (h k) j < d" | "cdist n (h k) j = d" | "d < cdist n (h k) j"
    by linarith
  then show False
    using passed [of "cdist n (h k) j" v] probe_invD(3) [OF inv j, of d] d(2) slot j(2) by cases auto
qed

lemma insert_probe_inv:
  fixes v :: 'v
  assumes inv: "probe_inv n h t" and new: "\<And>v. (k, v) \<notin> contents n t"
    and d: "d < n" "t ((h k + d) mod n) = None" and passed: "\<And>e. e < d \<Longrightarrow> t ((h k + e) mod n) \<noteq> None"
  defines "t' \<equiv> t((h k + d) mod n \<mapsto> (k, v))"
  shows "probe_inv n h t'" and "contents n t' = insert (k, v) (contents n t)"
proof -
  let ?p = "(h k + d) mod n"
  have hk: "h k < n" and p: "?p < n"
    using probe_invD(1) [OF inv, of k] by auto
  have pos: "cdist n (h k) ?p = d"
    using hk d(1) by (rule cdist_add)
  have "unique_keys n t'"
    unfolding unique_keys_def
  proof (intro allI impI)
    fix i j k' v' w'
    assume ij: "i < n" "j < n" "t' i = Some (k', v') \<and> t' j = Some (k', w')"
    have "k' \<noteq> k" if "i' < n" "i' \<noteq> ?p" "t' i' = Some (k', u)" for i' u
      using that new by (auto simp: t'_def contents_def)
    with ij show "i = j"
      using unique_keysD [OF probe_invD(2) [OF inv] ij(1,2), of k' v' w']
      by (cases "i = ?p"; cases "j = ?p") (auto simp: t'_def)
  qed
  moreover have "t' ((h k' + e) mod n) \<noteq> None"
    if "j < n" "t' j = Some (k', v')" "e < cdist n (h k') j" for j k' v' e
  proof (cases "j = ?p")
    case True
    with that pos have "k' = k" "e < d"
      by (auto simp: t'_def)
    then show ?thesis
      using passed [of e] by (simp add: t'_def)
  next
    case False
    then show ?thesis
      using that probe_invD(3) [OF inv that(1), of k' v' e] by (auto simp: t'_def)
  qed
  ultimately show "probe_inv n h t'"
    using probe_invD(1) [OF inv] by (simp add: probe_inv_def)
  show "contents n t' = insert (k, v) (contents n t)"
    using p d(2) by (auto simp: contents_def t'_def) (metis option.distinct(1))
qed

lemma finite_contents [simp]: "finite (contents n t)"
proof -
  have "contents n t \<subseteq> (\<lambda>j. the (t j)) ` {..<n}"
    by (force simp: contents_def)
  then show ?thesis
    by (rule finite_subset) simp
qed

text \<open>A table with fewer entries than slots has an empty slot.\<close>

lemma exists_empty:
  assumes "unique_keys n t" "card (contents n t) < n"
  obtains z where "z < n" "t z = None"
proof -
  have "\<exists>z<n. t z = None"
  proof (rule ccontr)
    assume "\<not> (\<exists>z<n. t z = None)"
    then have full: "\<And>j. j < n \<Longrightarrow> \<exists>k v. t j = Some (k, v)"
      by auto
    have "inj_on (\<lambda>j. the (t j)) {..<n}"
    proof (rule inj_onI)
      fix i j assume ij: "i \<in> {..<n}" "j \<in> {..<n}" "the (t i) = the (t j)"
      then obtain k v k' v' where "t i = Some (k, v)" "t j = Some (k', v')"
        using full [of i] full [of j] by auto
      then show "i = j"
        using ij unique_keysD [OF assms(1), of i j k v v'] by auto
    qed
    moreover have "(\<lambda>j. the (t j)) ` {..<n} \<subseteq> contents n t"
      using full by (force simp: contents_def)
    ultimately have "n \<le> card (contents n t)"
      using card_mono [OF finite_contents, of "(\<lambda>j. the (t j)) ` {..<n}" n t] by (simp add: card_image)
    with assms(2) show False by simp
  qed
  then show ?thesis using that by blast
qed

section \<open>Deletion by shifting back\<close>

text \<open>
  The loop has emptied slot \<open>hole\<close> and looks at slot \<open>i\<close>. A key whose path is cut by the hole
  sits at \<open>i\<close> or behind it. \<open>z\<close> is any slot that was empty before the deletion; the loop cannot
  pass it.
\<close>

definition hole_inv :: "nat \<Rightarrow> ('k \<Rightarrow> nat) \<Rightarrow> nat \<Rightarrow> ('k, 'v) ptable \<Rightarrow> nat \<Rightarrow> nat \<Rightarrow> bool" where
  "hole_inv n h z t hole i \<longleftrightarrow> (\<forall>k. h k < n) \<and> unique_keys n t \<and> hole < n \<and> i < n \<and> z < n \<and>
     t hole = None \<and> t z = None \<and> z \<noteq> hole \<and> i \<noteq> hole \<and> cdist n hole i \<le> cdist n hole z \<and>
     (\<forall>j<n. \<forall>k v. t j = Some (k, v) \<longrightarrow> (\<forall>d < cdist n (h k) j.
        t ((h k + d) mod n) \<noteq> None \<or> ((h k + d) mod n = hole \<and> cdist n hole i \<le> cdist n hole j)))"

lemma hole_inv_start:
  assumes inv: "probe_inv n h t" and hole: "hole < n" "t hole = Some (k, v)" and z: "z < n" "t z = None"
  shows "hole_inv n h z (t(hole := None)) hole ((hole + 1) mod n)"
    and "contents n (t(hole := None)) = contents n t - {(k, v)}"
proof -
  have zh: "z \<noteq> hole"
    using hole z by auto
  then have "1 < n"
    using hole z by linarith
  have one: "cdist n hole ((hole + 1) mod n) = 1"
    using hole(1) \<open>1 < n\<close> by (rule cdist_add)
  have pos: "1 \<le> cdist n hole j" if "j < n" "j \<noteq> hole" for j
    using cdist_eq_0 [OF hole(1) that(1)] that(2) by (cases "cdist n hole j") auto
  have ne: "(hole + 1) mod n \<noteq> hole"
    using one hole(1) by (metis cdist_self zero_neq_one)
  have "unique_keys n (t(hole := None))"
    using probe_invD(2) [OF inv] unfolding unique_keys_def by (auto split: if_splits)
  moreover have "(t(hole := None)) ((h k' + d) mod n) \<noteq> None \<or>
      ((h k' + d) mod n = hole \<and> cdist n hole ((hole + 1) mod n) \<le> cdist n hole j)"
    if "j < n" "(t(hole := None)) j = Some (k', v')" "d < cdist n (h k') j" for j k' v' d
    using that probe_invD(3) [OF inv that(1), of k' v' d] pos [of j] one by (auto split: if_splits)
  ultimately show "hole_inv n h z (t(hole := None)) hole ((hole + 1) mod n)"
    using probe_invD(1) [OF inv] hole z zh ne one pos [OF z(1) zh] \<open>1 < n\<close>
    unfolding hole_inv_def by simp
  show "contents n (t(hole := None)) = contents n t - {(k, v)}"
  proof -
    have "x = (k, v) \<longleftrightarrow> j = hole" if "j < n" "t j = Some x" for j x
      using that hole unique_keysD [OF probe_invD(2) [OF inv] that(1) hole(1)] by (cases x) auto
    then show ?thesis
      unfolding contents_def by (auto split: if_splits)
  qed
qed

lemma hole_inv_move:
  fixes v :: 'v
  assumes inv: "hole_inv n h z t hole i" and ti: "t i = Some (k, v)"
    and cut: "cdist n hole i \<le> cdist n (h k) i"
  defines "t' \<equiv> t(hole \<mapsto> (k, v), i := None)"
  shows "hole_inv n h z t' i ((i + 1) mod n)" and "contents n t' = contents n t"
    and "cdist n ((i + 1) mod n) z < cdist n i z"
proof -
  have b: "h k < n" "hole < n" "i < n" "z < n" "t hole = None" "t z = None" "z \<noteq> hole" "i \<noteq> hole" "z \<noteq> i"
    using inv ti by (auto simp: hole_inv_def)
  have "1 < n"
    using b by linarith
  have one: "cdist n i ((i + 1) mod n) = 1"
    using b(3) \<open>1 < n\<close> by (rule cdist_add)
  have pos: "1 \<le> cdist n i j" if "j < n" "j \<noteq> i" for j
    using cdist_eq_0 [OF b(3) that(1)] that(2) by (cases "cdist n i j") auto
  have ne: "(i + 1) mod n \<noteq> i"
    using one b(3) by (metis cdist_self zero_neq_one)
  have path: "t ((h k' + d) mod n) \<noteq> None \<or> ((h k' + d) mod n = hole \<and> cdist n hole i \<le> cdist n hole j)"
    if "j < n" "t j = Some (k', v')" "d < cdist n (h k') j" for j k' v' d
    using inv that unfolding hole_inv_def by blast
  have hole_at: "(h k + (cdist n (h k) i - cdist n hole i)) mod n = hole"
    using b cut by (intro on_path) auto
  then have hole_d: "cdist n (h k) hole = cdist n (h k) i - cdist n hole i"
    using b cdist_less [of n "h k" i] by (metis cdist_add diff_le_self le_less_trans less_nat_zero_code not_gr_zero)
  define swap where "swap a = (if a = hole then i else if a = i then hole else a)" for a
  have swap_eq: "t' a = t (swap a)" for a
    using b ti by (simp add: t'_def swap_def)
  have swap_less: "a < n \<Longrightarrow> swap a < n" for a
    using b by (simp add: swap_def)
  have swap_inv: "swap (swap a) = a" for a
    by (auto simp: swap_def)
  have "unique_keys n t'"
    unfolding unique_keys_def
  proof (intro allI impI)
    fix a c k' v' w'
    assume ac: "a < n" "c < n" "t' a = Some (k', v') \<and> t' c = Some (k', w')"
    have "unique_keys n t"
      using inv by (simp add: hole_inv_def)
    then have "swap a = swap c"
      using ac by (auto simp: swap_eq intro: unique_keysD [OF _ swap_less swap_less])
    then show "a = c"
      by (auto simp: swap_def split: if_splits)
  qed
  moreover have "t' ((h k' + d) mod n) \<noteq> None \<or>
      ((h k' + d) mod n = i \<and> cdist n i ((i + 1) mod n) \<le> cdist n i j)"
    if j: "j < n" "t' j = Some (k', v')" "d < cdist n (h k') j" for j k' v' d
  proof (cases "j = hole")
    case True
    then have k': "k' = k"
      using j b by (auto simp: t'_def split: if_splits)
    then have d: "d < cdist n (h k) i - cdist n hole i"
      using j True hole_d by simp
    then have "t ((h k + d) mod n) \<noteq> None \<or> (h k + d) mod n = hole"
      using path [OF b(3) ti, of d] by auto
    moreover have "(h k + d) mod n \<noteq> i"
    proof -
      have "d < cdist n (h k) i" "d < n"
        using d cdist_less [of n "h k" i] b by linarith+
      then show ?thesis
        using cdist_add [OF b(1), of d] by auto
    qed
    ultimately show ?thesis
      using k' by (auto simp: t'_def)
  next
    case False
    then have "t j = Some (k', v')" "j \<noteq> i"
      using j by (auto simp: t'_def split: if_splits)
    then show ?thesis
      using path [OF j(1) _ j(3)] pos [OF j(1)] one by (auto simp: t'_def)
  qed
  ultimately show "hole_inv n h z t' i ((i + 1) mod n)"
    using inv b ne one pos [OF b(4)] \<open>1 < n\<close> unfolding hole_inv_def by (simp add: t'_def)
  show "contents n t' = contents n t"
    unfolding contents_def swap_eq using swap_less swap_inv by (auto; metis)
  show "cdist n ((i + 1) mod n) z < cdist n i z"
    using b by (intro cdist_step_closer) auto
qed


lemma hole_inv_skip:
  assumes inv: "hole_inv n h z t hole i" and ti: "t i = Some (k, v)"
    and uncut: "\<not> cdist n hole i \<le> cdist n (h k) i"
  shows "hole_inv n h z t hole ((i + 1) mod n)" and "cdist n ((i + 1) mod n) z < cdist n i z"
proof -
  have b: "h k < n" "hole < n" "i < n" "z < n" "z \<noteq> i" "z \<noteq> hole"
    using inv ti by (auto simp: hole_inv_def)
  have "cdist n hole i \<noteq> cdist n hole z"
    using add_cdist [OF b(2) b(3)] add_cdist [OF b(2) b(4)] b(5) by metis
  then have before: "cdist n hole i < cdist n hole z"
    using inv by (simp add: hole_inv_def)
  then have step: "cdist n hole ((i + 1) mod n) = cdist n hole i + 1"
    using b cdist_less [of n hole z] by (intro cdist_step) auto
  then have "(i + 1) mod n \<noteq> hole"
    using b by (metis Suc_eq_plus1 Zero_not_Suc cdist_self)
  moreover have "t ((h k' + d) mod n) \<noteq> None \<or>
      ((h k' + d) mod n = hole \<and> cdist n hole ((i + 1) mod n) \<le> cdist n hole j)"
    if j: "j < n" "t j = Some (k', v')" "d < cdist n (h k') j" for j k' v' d
  proof -
    have "cdist n hole i \<noteq> cdist n hole j \<or> i = j"
      using add_cdist [OF b(2) b(3)] add_cdist [OF b(2) j(1)] by metis
    moreover have "(h k' + d) mod n \<noteq> hole" if "i = j"
    proof
      assume "(h k' + d) mod n = hole"
      then have "cdist n hole i = cdist n (h k) i - d"
        using that ti j cdist_split [OF b(1) b(3), of d] by simp
      with uncut show False by simp
    qed
    moreover have "t ((h k' + d) mod n) \<noteq> None \<or>
        ((h k' + d) mod n = hole \<and> cdist n hole i \<le> cdist n hole j)"
      using inv j unfolding hole_inv_def by blast
    ultimately show ?thesis
      using step by auto
  qed
  ultimately show "hole_inv n h z t hole ((i + 1) mod n)"
    using inv step before b unfolding hole_inv_def by simp
  show "cdist n ((i + 1) mod n) z < cdist n i z"
    using b by (intro cdist_step_closer) auto
qed

lemma hole_inv_done:
  assumes inv: "hole_inv n h z t hole i" and ti: "t i = None"
  shows "probe_inv n h t"
proof -
  have b: "hole < n" "i < n" "i \<noteq> hole"
    using inv by (auto simp: hole_inv_def)
  have "t ((h k + d) mod n) \<noteq> None" if j: "j < n" "t j = Some (k, v)" "d < cdist n (h k) j" for j k v d
  proof (rule ccontr)
    assume empty: "\<not> t ((h k + d) mod n) \<noteq> None"
    have path: "t ((h k + e) mod n) \<noteq> None \<or> ((h k + e) mod n = hole \<and> cdist n hole i \<le> cdist n hole j)"
      if "e < cdist n (h k) j" for e
      using inv j that unfolding hole_inv_def by blast
    have hole: "(h k + d) mod n = hole" "cdist n hole i \<le> cdist n hole j"
      using path [OF j(3)] empty by auto
    have hk: "h k < n"
      using inv by (simp add: hole_inv_def)
    have "cdist n hole j = cdist n (h k) j - d"
      using cdist_split [OF hk j(1), of d] j(3) hole(1) by simp
    then have le: "d + cdist n hole i \<le> cdist n (h k) j"
      using hole(2) j(3) by linarith
    have at: "(h k + (d + cdist n hole i)) mod n = i"
      using add_cdist [OF b(1,2)] hole(1) by (metis add.assoc mod_add_left_eq)
    show False
    proof (cases "d + cdist n hole i = cdist n (h k) j")
      case True
      then have "i = j"
        using at add_cdist [OF hk j(1)] by simp
      with ti j show False by simp
    next
      case False
      then show False
        using path [of "d + cdist n hole i"] le at ti b by auto
    qed
  qed
  then show ?thesis
    using inv unfolding probe_inv_def hole_inv_def by blast
qed

end
