(* ===== verification/Id_Map.thy ===== *)
theory Id_Map
  imports Pool Probing
begin

text \<open>
  \<open>include/engine/id_map.hpp\<close>: the lookup from order id to handle, an open-addressing table with
  linear probing, the finalizer of splitmix64 as its hash and deletion by shifting back. Slot
  numbers are 64-bit words masked to the table, exactly as the source computes them; the lemmas
  relate them to the ring of theory \<open>Probing\<close>.
\<close>

section \<open>Operations\<close>

record Entry =
  ent_id :: OrderId
  ent_handle :: Handle

record IdMap =
  table :: "Entry list"
  table_mask :: "64 word"
  entries :: nat

definition default_Entry :: Entry where
  "default_Entry = \<lparr>ent_id = 0, ent_handle = Handle_nil\<rparr>"

text \<open>The sizing loop of the constructor. It starts at 2, so the second guard never fails.\<close>

function grow_slots :: "nat \<Rightarrow> nat \<Rightarrow> nat" where
  "grow_slots max_entries n =
     (if n < 2 * max_entries \<and> 0 < n then grow_slots max_entries (n * 2) else n)"
  by pat_completeness auto
termination
  by (relation "measure (\<lambda>(max_entries, n). 2 * max_entries - n)") auto

declare grow_slots.simps [simp del]

definition IdMap_new :: "Index \<Rightarrow> IdMap" where
  "IdMap_new max_entries =
     (let n = grow_slots (unat max_entries) 2
      in \<lparr>table = replicate n default_Entry, table_mask = of_nat n - 1, entries = 0\<rparr>)"

definition splitmix :: "64 word \<Rightarrow> 64 word" where
  "splitmix oid =
     (let z = oid;
          z = (z XOR drop_bit 30 z) * 0xBF58476D1CE4E5B9;
          z = (z XOR drop_bit 27 z) * 0x94D049BB133111EB
      in z XOR drop_bit 31 z)"

definition home :: "IdMap \<Rightarrow> OrderId \<Rightarrow> 64 word" where
  "home m oid = splitmix oid AND table_mask m"

partial_function (option) find_from :: "IdMap \<Rightarrow> OrderId \<Rightarrow> 64 word \<Rightarrow> Handle option option" where
  "find_from m oid i =
     do {
       e \<leftarrow> nth_opt (table m) (unat i);
       if \<not> Handle_valid (ent_handle e) then Some None
       else if ent_id e = oid then Some (Some (ent_handle e))
       else find_from m oid ((i + 1) AND table_mask m)
     }"

declare find_from.simps [code]

definition IdMap_find :: "IdMap \<Rightarrow> OrderId \<Rightarrow> Handle option option" where
  "IdMap_find m oid = find_from m oid (home m oid)"

definition IdMap_contains :: "IdMap \<Rightarrow> OrderId \<Rightarrow> bool option" where
  "IdMap_contains m oid = map_option (\<lambda>p. p \<noteq> None) (IdMap_find m oid)"

partial_function (option) probe_empty :: "IdMap \<Rightarrow> 64 word \<Rightarrow> 64 word option" where
  "probe_empty m i =
     do {
       e \<leftarrow> nth_opt (table m) (unat i);
       if Handle_valid (ent_handle e) then probe_empty m ((i + 1) AND table_mask m) else Some i
     }"

declare probe_empty.simps [code]

definition IdMap_insert :: "IdMap \<Rightarrow> OrderId \<Rightarrow> Handle \<Rightarrow> IdMap option" where
  "IdMap_insert m oid h =
     do {
       assert_that (Handle_valid h);
       assert_that (entries m < length (table m) div 2);
       i \<leftarrow> probe_empty m (home m oid);
       t \<leftarrow> upd_opt (table m) (unat i) \<lparr>ent_id = oid, ent_handle = h\<rparr>;
       Some (m\<lparr>table := t, entries := entries m + 1\<rparr>)
     }"

text \<open>The first loop of \<open>erase\<close>: the slot of the key, or \<open>Some None\<close> for \<open>return false\<close>.\<close>

partial_function (option) erase_probe :: "IdMap \<Rightarrow> OrderId \<Rightarrow> 64 word \<Rightarrow> 64 word option option" where
  "erase_probe m oid hole =
     do {
       e \<leftarrow> nth_opt (table m) (unat hole);
       if \<not> Handle_valid (ent_handle e) then Some None
       else if ent_id e = oid then Some (Some hole)
       else erase_probe m oid ((hole + 1) AND table_mask m)
     }"

declare erase_probe.simps [code]

text \<open>The second loop: shift entries back into the hole, and return where the hole ends up.\<close>

partial_function (option) shift_back :: "IdMap \<Rightarrow> 64 word \<Rightarrow> 64 word \<Rightarrow> (IdMap \<times> 64 word) option" where
  "shift_back m hole i =
     do {
       e \<leftarrow> nth_opt (table m) (unat i);
       if \<not> Handle_valid (ent_handle e) then Some (m, hole)
       else if ((i - home m (ent_id e)) AND table_mask m) \<ge> ((i - hole) AND table_mask m)
       then do { t \<leftarrow> upd_opt (table m) (unat hole) e;
                 shift_back (m\<lparr>table := t\<rparr>) i ((i + 1) AND table_mask m) }
       else shift_back m hole ((i + 1) AND table_mask m)
     }"

declare shift_back.simps [code]

definition IdMap_erase :: "IdMap \<Rightarrow> OrderId \<Rightarrow> (bool \<times> IdMap) option" where
  "IdMap_erase m oid =
     do {
       found \<leftarrow> erase_probe m oid (home m oid);
       case found of
         None \<Rightarrow> Some (False, m)
       | Some hole \<Rightarrow> do {
           (m, hole) \<leftarrow> shift_back m hole ((hole + 1) AND table_mask m);
           e \<leftarrow> nth_opt (table m) (unat hole);
           t \<leftarrow> upd_opt (table m) (unat hole) (e\<lparr>ent_handle := Handle_nil\<rparr>);
           Some (True, m\<lparr>table := t, entries := entries m - 1\<rparr>)
         }
     }"

definition IdMap_size :: "IdMap \<Rightarrow> nat" where
  "IdMap_size m = entries m"

definition IdMap_slots :: "IdMap \<Rightarrow> nat" where
  "IdMap_slots m = length (table m)"

section \<open>The table as a ring\<close>

definition ring :: "IdMap \<Rightarrow> (OrderId, Handle) ptable" where
  "ring m j = (if j < length (table m) \<and> Handle_valid (ent_handle (table m ! j))
     then Some (ent_id (table m ! j), ent_handle (table m ! j)) else None)"

definition hash :: "IdMap \<Rightarrow> OrderId \<Rightarrow> nat" where
  "hash m oid = unat (home m oid)"

definition table_shape :: "IdMap \<Rightarrow> bool" where
  "table_shape m \<longleftrightarrow> (\<exists>k. 1 \<le> k \<and> k < 64 \<and> length (table m) = 2 ^ k \<and> table_mask m = Bit_Operations.mask k)"

lemma unat_and_mask: "k < 64 \<Longrightarrow> unat (w AND mask k :: 64 word) = unat w mod 2 ^ k"
  by (simp only: take_bit_eq_mask [symmetric] unsigned_take_bit_eq) (simp add: take_bit_eq_mod)

lemma shape_slot:
  assumes "table_shape m"
  shows "unat (w AND table_mask m) = unat w mod length (table m)"
  using assms by (auto simp: table_shape_def unat_and_mask)

lemma shape_pos: "table_shape m \<Longrightarrow> 0 < length (table m)"
  by (auto simp: table_shape_def)

lemma shape_dvd: "table_shape m \<Longrightarrow> length (table m) dvd 18446744073709551616"
proof -
  assume "table_shape m"
  then obtain k where k: "k < 64" "length (table m) = 2 ^ k"
    by (auto simp: table_shape_def)
  have "(2 :: nat) ^ k dvd 2 ^ 64"
    using k(1) by (intro le_imp_power_dvd) simp
  then show ?thesis
    unfolding k(2) by simp
qed

lemma shape_next:
  assumes "table_shape m" "unat i < length (table m)"
  shows "unat ((i + 1) AND table_mask m) = (unat i + 1) mod length (table m)"
  using assms shape_dvd [OF assms(1)]
  by (simp add: shape_slot unat_word_ariths mod_mod_cancel)

lemma shape_dist:
  assumes "table_shape m" "unat i < length (table m)" "unat h < length (table m)"
  shows "unat ((i - h) AND table_mask m) = cdist (length (table m)) (unat h) (unat i)"
proof -
  let ?n = "length (table m)"
  obtain q where q: "(18446744073709551616 :: nat) = ?n * q"
    using shape_dvd [OF assms(1)] by (elim dvdE)
  have "unat (i - h) mod ?n = (unat i + ?n - unat h) mod ?n"
  proof (cases "unat h \<le> unat i")
    case True
    then have "unat i + ?n - unat h = unat (i - h) + ?n"
      by (simp add: unat_sub_if')
    then show ?thesis by simp
  next
    case False
    have "0 < q"
      using q by (cases q) auto
    then have "?n * q = ?n * (q - 1) + ?n"
      by (cases q) auto
    then have "unat (i - h) = (unat i + ?n - unat h) + ?n * (q - 1)"
      using False q assms(3) by (simp add: unat_sub_if')
    then show ?thesis by simp
  qed
  then show ?thesis
    by (simp add: shape_slot [OF assms(1)] cdist_def)
qed


section \<open>Invariant and abstraction\<close>

definition live_entries :: "IdMap \<Rightarrow> (OrderId \<times> Handle) list" where
  "live_entries m = map (\<lambda>e. (ent_id e, ent_handle e)) (filter (\<lambda>e. Handle_valid (ent_handle e)) (table m))"

definition idm_map :: "IdMap \<Rightarrow> OrderId \<rightharpoonup> Handle" where
  "idm_map m = map_of (live_entries m)"

definition idmap_inv :: "IdMap \<Rightarrow> bool" where
  "idmap_inv m \<longleftrightarrow> table_shape m \<and> probe_inv (length (table m)) (hash m) (ring m) \<and>
     entries m = card (contents (length (table m)) (ring m)) \<and> entries m \<le> length (table m) div 2"

lemma set_live_entries: "set (live_entries m) = contents (length (table m)) (ring m)"
  by (force simp: live_entries_def contents_def ring_def in_set_conv_nth)

lemma idm_map_iff:
  assumes "unique_keys (length (table m)) (ring m)"
  shows "idm_map m oid = Some h \<longleftrightarrow> (oid, h) \<in> contents (length (table m)) (ring m)"
proof
  assume "idm_map m oid = Some h"
  then show "(oid, h) \<in> contents (length (table m)) (ring m)"
    using map_of_SomeD by (fastforce simp: idm_map_def set_live_entries)
next
  assume h: "(oid, h) \<in> contents (length (table m)) (ring m)"
  then have "oid \<in> fst ` set (live_entries m)"
    by (force simp: set_live_entries)
  then obtain h' where h': "idm_map m oid = Some h'"
    unfolding idm_map_def by (metis domD dom_map_of_conv_image_fst)
  then have "(oid, h') \<in> contents (length (table m)) (ring m)"
    using map_of_SomeD by (fastforce simp: idm_map_def set_live_entries)
  with assms have "h' = h"
    using h by (rule contents_functional)
  with h' show "idm_map m oid = Some h" by simp
qed

lemma idmap_invD:
  assumes "idmap_inv m"
  shows "table_shape m" "probe_inv (length (table m)) (hash m) (ring m)"
    "unique_keys (length (table m)) (ring m)" "hash m oid < length (table m)"
    "entries m = card (contents (length (table m)) (ring m))"
  using assms probe_invD [of "length (table m)" "hash m" "ring m"] by (auto simp: idmap_inv_def)

lemma distinct_map_filter_nth:
  assumes "\<And>i j. i < length es \<Longrightarrow> j < length es \<Longrightarrow> u (es ! i) \<Longrightarrow> u (es ! j) \<Longrightarrow> f (es ! i) = f (es ! j) \<Longrightarrow> i = j"
  shows "distinct (map f (filter u es))"
  using assms
proof (induction es)
  case (Cons e es)
  have "f e \<noteq> f (es ! k)" if "k < length es" "u e" "u (es ! k)" for k
    using Cons.prems [of 0 "Suc k"] that by auto
  then have "f e \<notin> f ` set (filter u es)" if "u e"
    using that by (auto simp: in_set_conv_nth)
  moreover have "distinct (map f (filter u es))"
    using Cons.prems [of "Suc i" "Suc j" for i j] by (intro Cons.IH) auto
  ultimately show ?case
    by auto
qed simp

text \<open>No id has two entries in use.\<close>

lemma distinct_live_entries:
  assumes "unique_keys (length (table m)) (ring m)"
  shows "distinct (map fst (live_entries m))"
proof -
  have "distinct (map ent_id (filter (\<lambda>e. Handle_valid (ent_handle e)) (table m)))"
    using unique_keysD [OF assms] by (intro distinct_map_filter_nth) (simp_all add: ring_def)
  then show ?thesis
    by (simp add: live_entries_def comp_def)
qed

text \<open>\<open>size\<close> is the number of keys.\<close>

lemma entries_eq:
  assumes "idmap_inv m"
  shows "entries m = card (dom (idm_map m))"
proof -
  have "contents (length (table m)) (ring m) = Map.graph (idm_map m)"
    using idm_map_iff [OF idmap_invD(3) [OF assms]] by (auto simp: Map.graph_def)
  moreover have "inj_on fst (Map.graph (idm_map m))"
    by (auto simp: Map.graph_def inj_on_def)
  ultimately show ?thesis
    using idmap_invD(5) [OF assms] card_image by (metis fst_graph_eq_dom)
qed

lemma idmap_empty_slot:
  assumes "idmap_inv m"
  obtains z where "z < length (table m)" "ring m z = None"
proof (rule exists_empty)
  show "unique_keys (length (table m)) (ring m)"
    using assms by (rule idmap_invD)
  have "length (table m) div 2 < length (table m)"
    using shape_pos [OF idmap_invD(1) [OF assms]] by simp
  then show "card (contents (length (table m)) (ring m)) < length (table m)"
    using assms by (simp add: idmap_inv_def)
qed (use that in blast)

lemma ring_nth:
  assumes "unat i < length (table m)"
  obtains e where "nth_opt (table m) (unat i) = Some e"
    "ring m (unat i) = (if Handle_valid (ent_handle e) then Some (ent_id e, ent_handle e) else None)"
  using assms by (simp add: ring_def)

lemma ring_update:
  assumes "j < length (table m)"
  shows "ring (m\<lparr>table := (table m)[j := e]\<rparr>) =
    (ring m)(j := (if Handle_valid (ent_handle e) then Some (ent_id e, ent_handle e) else None))"
  using assms by (auto simp: ring_def fun_eq_iff nth_list_update)

lemma hash_table_update [simp]: "hash (m\<lparr>table := t\<rparr>) = hash m" "hash (m\<lparr>entries := c\<rparr>) = hash m"
  by (simp_all add: hash_def home_def fun_eq_iff)

lemma ring_entries_update [simp]: "ring (m\<lparr>entries := c\<rparr>) = ring m"
  by (simp add: ring_def fun_eq_iff)

text \<open>
  The three probing loops have the same shape: from the home slot on, as long as the slot passes
  a test that some slot of the table fails.
\<close>

lemma probe_walk:
  assumes shape: "table_shape m" and h0: "unat i0 < length (table m)"
    and z: "z < length (table m)" "\<not> go z"
    and step: "\<And>d i. d < length (table m) \<Longrightarrow> unat i = (unat i0 + d) mod length (table m) \<Longrightarrow>
      (\<And>e. e < d \<Longrightarrow> go ((unat i0 + e) mod length (table m))) \<Longrightarrow>
      (go (unat i) \<Longrightarrow> P ((i + 1) AND table_mask m)) \<Longrightarrow> P i"
  shows "P i0"
proof -
  let ?n = "length (table m)"
  have "P i" if "unat i = (unat i0 + d) mod ?n" "\<And>e. e < d \<Longrightarrow> go ((unat i0 + e) mod ?n)" for d i
    using that
  proof (induction "?n - d" arbitrary: d i rule: less_induct)
    case less
    have "d \<le> cdist ?n (unat i0) z"
      using less.prems(2) [of "cdist ?n (unat i0) z"] z add_cdist [OF h0 z(1)] by (metis not_le)
    then have d: "d < ?n"
      using cdist_less [of ?n "unat i0" z] z by linarith
    show ?case
    proof (rule step [OF d less.prems])
      assume go: "go (unat i)"
      have i: "unat i < ?n"
        unfolding less.prems(1) using d by (intro mod_less_divisor) linarith
      show "P ((i + 1) AND table_mask m)"
      proof (rule less.hyps [of "d + 1"])
        show "?n - (d + 1) < ?n - d"
          using d by simp
        show "unat ((i + 1) AND table_mask m) = (unat i0 + (d + 1)) mod ?n"
          using less.prems(1) by (simp only: shape_next [OF shape i]) (simp add: mod_simps)
        show "go ((unat i0 + e) mod ?n)" if "e < d + 1" for e
          using less.prems go that by (cases "e = d") auto
      qed
    qed
  qed
  from this [of i0 0] show ?thesis
    using h0 by simp
qed


section \<open>The operations\<close>

lemma IdMap_find_eq:
  assumes inv: "idmap_inv m"
  shows "IdMap_find m oid = Some (idm_map m oid)"
proof -
  let ?n = "length (table m)"
  note shape = idmap_invD(1) [OF inv] and uniq = idmap_invD(3) [OF inv]
  obtain z where z: "z < ?n" "ring m z = None"
    using idmap_empty_slot [OF inv] by blast
  have h: "unat (home m oid) < ?n"
    using idmap_invD(4) [OF inv, of oid] by (simp add: hash_def)
  have "find_from m oid (home m oid) = Some (idm_map m oid)"
  proof (rule probe_walk [OF shape h z(1), where go = "\<lambda>j. \<exists>k v. ring m j = Some (k, v) \<and> k \<noteq> oid"])
    fix d i
    assume d: "d < ?n" and i: "unat i = (unat (home m oid) + d) mod ?n"
      and passed: "\<And>e. e < d \<Longrightarrow> \<exists>k v. ring m ((unat (home m oid) + e) mod ?n) = Some (k, v) \<and> k \<noteq> oid"
      and rec: "\<exists>k v. ring m (unat i) = Some (k, v) \<and> k \<noteq> oid \<Longrightarrow>
        find_from m oid ((i + 1) AND table_mask m) = Some (idm_map m oid)"
    have "unat i < ?n"
      unfolding i using d by (intro mod_less_divisor) linarith
    then obtain e where e: "nth_opt (table m) (unat i) = Some e"
        "ring m (unat i) = (if Handle_valid (ent_handle e) then Some (ent_id e, ent_handle e) else None)"
      by (rule ring_nth)
    consider (empty) "\<not> Handle_valid (ent_handle e)" | (hit) "Handle_valid (ent_handle e)" "ent_id e = oid"
      | (go) "Handle_valid (ent_handle e)" "ent_id e \<noteq> oid" by blast
    then show "find_from m oid i = Some (idm_map m oid)"
    proof cases
      case empty
      have "(oid, v) \<notin> contents ?n (ring m)" for v
        by (rule absent_at_empty [OF idmap_invD(2) [OF inv] d])
          (use passed empty e(2) i in \<open>fastforce simp: hash_def\<close>)+
      then have "idm_map m oid = None"
        using idm_map_iff [OF uniq] by (metis not_None_eq)
      with empty e(1) show ?thesis
        by (subst find_from.simps) simp
    next
      case hit
      then have "(oid, ent_handle e) \<in> contents ?n (ring m)"
        using e(2) \<open>unat i < ?n\<close> by (auto simp: contents_def)
      then have "idm_map m oid = Some (ent_handle e)"
        by (simp add: idm_map_iff [OF uniq])
      with hit e(1) show ?thesis
        by (subst find_from.simps) simp
    next
      case go
      with rec e show ?thesis
        by (subst find_from.simps) simp
    qed
  qed (use z in auto)
  then show ?thesis
    by (simp add: IdMap_find_def)
qed

lemma IdMap_contains_eq: "idmap_inv m \<Longrightarrow> IdMap_contains m oid = Some (idm_map m oid \<noteq> None)"
  by (simp add: IdMap_contains_def IdMap_find_eq)

lemma probe_empty_spec:
  assumes inv: "idmap_inv m" and h: "unat i0 < length (table m)"
  shows "\<exists>d p. probe_empty m i0 = Some p \<and> d < length (table m) \<and>
    unat p = (unat i0 + d) mod length (table m) \<and> ring m (unat p) = None \<and>
    (\<forall>e<d. ring m ((unat i0 + e) mod length (table m)) \<noteq> None)"
proof -
  let ?n = "length (table m)"
  note shape = idmap_invD(1) [OF inv]
  obtain z where z: "z < ?n" "ring m z = None"
    using idmap_empty_slot [OF inv] by blast
  let ?Q = "\<lambda>d p. d < ?n \<and> unat p = (unat i0 + d) mod ?n \<and> ring m (unat p) = None \<and>
      (\<forall>e<d. ring m ((unat i0 + e) mod ?n) \<noteq> None)"
  show ?thesis
  proof (rule probe_walk [OF shape h z(1), where go = "\<lambda>j. ring m j \<noteq> None"
        and P = "\<lambda>i. \<exists>d p. probe_empty m i = Some p \<and> ?Q d p"])
    fix d i
    assume d: "d < ?n" and i: "unat i = (unat i0 + d) mod ?n"
      and passed: "\<And>e. e < d \<Longrightarrow> ring m ((unat i0 + e) mod ?n) \<noteq> None"
      and rec: "ring m (unat i) \<noteq> None \<Longrightarrow> \<exists>d p. probe_empty m ((i + 1) AND table_mask m) = Some p \<and> ?Q d p"
    have "unat i < ?n"
      unfolding i using d by (intro mod_less_divisor) linarith
    then obtain e where e: "nth_opt (table m) (unat i) = Some e"
        "ring m (unat i) = (if Handle_valid (ent_handle e) then Some (ent_id e, ent_handle e) else None)"
      by (rule ring_nth)
    show "\<exists>d p. probe_empty m i = Some p \<and> ?Q d p"
    proof (cases "Handle_valid (ent_handle e)")
      case True
      moreover from this have "probe_empty m i = probe_empty m ((i + 1) AND table_mask m)"
        using e(1) by (subst probe_empty.simps) simp
      ultimately show ?thesis
        using rec e(2) by simp
    next
      case False
      then have "probe_empty m i = Some i"
        using e(1) by (subst probe_empty.simps) simp
      with False e(2) d i passed show ?thesis by auto
    qed
  qed (use z in auto)
qed

lemma IdMap_insert_ok:
  assumes inv: "idmap_inv m" and new: "idm_map m oid = None" and h: "Handle_valid h"
    and room: "entries m < length (table m) div 2"
  obtains m' where "IdMap_insert m oid h = Some m'" "idmap_inv m'"
    "idm_map m' = (idm_map m)(oid \<mapsto> h)" "entries m' = entries m + 1"
    "length (table m') = length (table m)"
proof -
  let ?n = "length (table m)"
  note shape = idmap_invD(1) [OF inv] and uniq = idmap_invD(3) [OF inv]
  obtain d p where p: "probe_empty m (home m oid) = Some p" "d < ?n" "unat p = (hash m oid + d) mod ?n"
      "ring m (unat p) = None" "\<And>e. e < d \<Longrightarrow> ring m ((hash m oid + e) mod ?n) \<noteq> None"
    using probe_empty_spec [OF inv, of "home m oid"] idmap_invD(4) [OF inv, of oid]
    by (auto simp: hash_def)
  have pn: "unat p < ?n"
    unfolding p(3) using p(2) by (intro mod_less_divisor) linarith
  define m' where "m' = m\<lparr>table := (table m)[unat p := \<lparr>ent_id = oid, ent_handle = h\<rparr>], entries := entries m + 1\<rparr>"
  have ring': "ring m' = (ring m)((hash m oid + d) mod ?n \<mapsto> (oid, h))"
    using ring_update [OF pn, of "\<lparr>ent_id = oid, ent_handle = h\<rparr>"] h p(3) by (simp add: m'_def)
  have absent: "(oid, v) \<notin> contents ?n (ring m)" for v
    using new idm_map_iff [OF uniq, of oid v] by simp
  note ins = insert_probe_inv [OF idmap_invD(2) [OF inv] absent p(2) p(4) [unfolded p(3)] p(5), where v = h,
      folded ring']
  have len: "length (table m') = ?n" "hash m' = hash m" "table_shape m'"
    using shape by (simp_all add: m'_def table_shape_def)
  have inv': "idmap_inv m'"
    using ins absent len idmap_invD(5) [OF inv] room by (simp add: idmap_inv_def) (simp add: m'_def)
  have "idm_map m' k = ((idm_map m)(oid \<mapsto> h)) k" for k
    using idm_map_iff [OF idmap_invD(3) [OF inv'], of k] idm_map_iff [OF uniq, of k] ins(2) len(1) absent
    by (cases "idm_map m' k"; cases "idm_map m k") auto
  then have "idm_map m' = (idm_map m)(oid \<mapsto> h)" by (rule ext)
  moreover have "IdMap_insert m oid h = Some m'"
    using h room p(1) pn by (simp add: IdMap_insert_def m'_def)
  ultimately show ?thesis
    using that inv' len by (simp add: m'_def)
qed


lemma erase_probe_spec:
  assumes inv: "idmap_inv m"
  obtains (absent) "erase_probe m oid (home m oid) = Some None" "idm_map m oid = None"
    | (found) hole h where "erase_probe m oid (home m oid) = Some (Some hole)" "unat hole < length (table m)"
      "ring m (unat hole) = Some (oid, h)" "idm_map m oid = Some h"
proof -
  let ?n = "length (table m)"
  note shape = idmap_invD(1) [OF inv] and uniq = idmap_invD(3) [OF inv]
  obtain z where z: "z < ?n" "ring m z = None"
    using idmap_empty_slot [OF inv] by blast
  have h: "unat (home m oid) < ?n"
    using idmap_invD(4) [OF inv, of oid] by (simp add: hash_def)
  let ?P = "\<lambda>i. erase_probe m oid i = Some None \<and> idm_map m oid = None \<or>
    (\<exists>hole h. erase_probe m oid i = Some (Some hole) \<and> unat hole < ?n \<and> ring m (unat hole) = Some (oid, h))"
  have "?P (home m oid)"
  proof (rule probe_walk [OF shape h z(1), where go = "\<lambda>j. \<exists>k v. ring m j = Some (k, v) \<and> k \<noteq> oid" and P = ?P])
    fix d i
    assume d: "d < ?n" and i: "unat i = (unat (home m oid) + d) mod ?n"
      and passed: "\<And>e. e < d \<Longrightarrow> \<exists>k v. ring m ((unat (home m oid) + e) mod ?n) = Some (k, v) \<and> k \<noteq> oid"
      and rec: "\<exists>k v. ring m (unat i) = Some (k, v) \<and> k \<noteq> oid \<Longrightarrow> ?P ((i + 1) AND table_mask m)"
    have "unat i < ?n"
      unfolding i using d by (intro mod_less_divisor) linarith
    then obtain e where e: "nth_opt (table m) (unat i) = Some e"
        "ring m (unat i) = (if Handle_valid (ent_handle e) then Some (ent_id e, ent_handle e) else None)"
      by (rule ring_nth)
    consider (empty) "\<not> Handle_valid (ent_handle e)" | (hit) "Handle_valid (ent_handle e)" "ent_id e = oid"
      | (go) "Handle_valid (ent_handle e)" "ent_id e \<noteq> oid" by blast
    then show "?P i"
    proof cases
      case empty
      have "(oid, v) \<notin> contents ?n (ring m)" for v
        by (rule absent_at_empty [OF idmap_invD(2) [OF inv] d])
          (use passed empty e(2) i in \<open>fastforce simp: hash_def\<close>)+
      then have "idm_map m oid = None"
        using idm_map_iff [OF uniq] by (metis not_None_eq)
      moreover have "erase_probe m oid i = Some None"
        using empty e(1) by (subst erase_probe.simps) simp
      ultimately show ?thesis by blast
    next
      case hit
      then have "erase_probe m oid i = Some (Some i)"
        using e(1) by (subst erase_probe.simps) simp
      with hit e(2) \<open>unat i < ?n\<close> show ?thesis by auto
    next
      case go
      then have "erase_probe m oid i = erase_probe m oid ((i + 1) AND table_mask m)"
        using e(1) by (subst erase_probe.simps) simp
      with go rec e(2) show ?thesis by simp
    qed
  qed (use z in auto)
  then consider "erase_probe m oid (home m oid) = Some None" "idm_map m oid = None"
    | hole h where "erase_probe m oid (home m oid) = Some (Some hole)" "unat hole < ?n"
      "ring m (unat hole) = Some (oid, h)" "idm_map m oid = Some h"
    using idm_map_iff [OF uniq, of oid] by (auto simp: contents_def)
  then show ?thesis
    using that by cases
qed

lemma shift_back_spec:
  assumes "table_shape m" "unat hole < length (table m)" "unat i < length (table m)"
    and "hole_inv (length (table m)) (hash m) z ((ring m)(unat hole := None)) (unat hole) (unat i)"
  shows "\<exists>m' hole'. shift_back m hole i = Some (m', hole') \<and>
    m' = m\<lparr>table := table m'\<rparr> \<and> length (table m') = length (table m) \<and> unat hole' < length (table m) \<and>
    probe_inv (length (table m)) (hash m) ((ring m')(unat hole' := None)) \<and>
    contents (length (table m)) ((ring m')(unat hole' := None)) =
      contents (length (table m)) ((ring m)(unat hole := None))"
  using assms
proof (induction "cdist (length (table m)) (unat i) z" arbitrary: m hole i rule: less_induct)
  case less
  let ?n = "length (table m)" and ?t = "(ring m)(unat hole := None)"
  note shape = less.prems(1) and hole = less.prems(2) and i = less.prems(3) and inv = less.prems(4)
  have ne: "unat i \<noteq> unat hole"
    using inv by (simp add: hole_inv_def)
  obtain e where e: "nth_opt (table m) (unat i) = Some e"
      "ring m (unat i) = (if Handle_valid (ent_handle e) then Some (ent_id e, ent_handle e) else None)"
    using ring_nth [OF i] by blast
  have nxt: "unat ((i + 1) AND table_mask m) = (unat i + 1) mod ?n"
    by (rule shape_next [OF shape i])
  have nxt_less: "unat ((i + 1) AND table_mask m) < ?n"
    unfolding nxt using i by (intro mod_less_divisor) linarith
  show ?case
  proof (cases "Handle_valid (ent_handle e)")
    case False
    then have "shift_back m hole i = Some (m, hole)"
      using e(1) by (subst shift_back.simps) simp
    moreover have "probe_inv ?n (hash m) ?t"
      by (rule hole_inv_done [OF inv]) (use False e(2) ne in simp)
    ultimately show ?thesis
      using hole by auto
  next
    case True
    then have ti: "?t (unat i) = Some (ent_id e, ent_handle e)"
      using e(2) ne by simp
    have h: "unat (home m (ent_id e)) < ?n"
      using inv by (simp add: hole_inv_def hash_def)
    have test: "((i - hole) AND table_mask m) \<le> ((i - home m (ent_id e)) AND table_mask m) \<longleftrightarrow>
        cdist ?n (unat hole) (unat i) \<le> cdist ?n (hash m (ent_id e)) (unat i)"
      using shape_dist [OF shape i hole] shape_dist [OF shape i h] by (simp add: word_le_nat_alt hash_def)
    show ?thesis
    proof (cases "cdist ?n (unat hole) (unat i) \<le> cdist ?n (hash m (ent_id e)) (unat i)")
      case move: True
      define m1 where "m1 = m\<lparr>table := (table m)[unat hole := e]\<rparr>"
      have ring1: "(ring m1)(unat i := None) = ?t(unat hole \<mapsto> (ent_id e, ent_handle e), unat i := None)"
        using ring_update [OF hole, of e] True by (simp add: m1_def)
      note mv = hole_inv_move [OF inv ti move, folded ring1]
      have m1: "table_shape m1" "length (table m1) = ?n" "hash m1 = hash m" "table_mask m1 = table_mask m"
        using shape by (simp_all add: m1_def table_shape_def)
      have "shift_back m hole i = shift_back m1 i ((i + 1) AND table_mask m)"
        using e(1) True test move hole by (subst shift_back.simps) (simp add: m1_def)
      moreover have "\<exists>m' hole'. shift_back m1 i ((i + 1) AND table_mask m) = Some (m', hole') \<and>
          m' = m1\<lparr>table := table m'\<rparr> \<and> length (table m') = length (table m1) \<and> unat hole' < length (table m1) \<and>
          probe_inv (length (table m1)) (hash m1) ((ring m')(unat hole' := None)) \<and>
          contents (length (table m1)) ((ring m')(unat hole' := None)) =
            contents (length (table m1)) ((ring m1)(unat i := None))"
        by (rule less.hyps) (use mv m1 i nxt nxt_less in simp_all)
      ultimately obtain m' hole' where "shift_back m hole i = Some (m', hole')"
          "m' = m1\<lparr>table := table m'\<rparr>" "length (table m') = ?n" "unat hole' < ?n"
          "probe_inv ?n (hash m) ((ring m')(unat hole' := None))"
          "contents ?n ((ring m')(unat hole' := None)) = contents ?n ((ring m1)(unat i := None))"
        unfolding m1(2,3) by auto
      moreover from this(2) have "m' = m\<lparr>table := table m'\<rparr>"
        by (simp add: m1_def)
      ultimately show ?thesis
        using mv(2) by metis
    next
      case skip: False
      note sk = hole_inv_skip [OF inv ti skip]
      have eq: "shift_back m hole i = shift_back m hole ((i + 1) AND table_mask m)"
        using e(1) True test skip by (subst shift_back.simps) simp
      show ?thesis
        unfolding eq by (rule less.hyps [OF _ shape hole nxt_less]) (use sk nxt in \<open>simp_all only:\<close>)
    qed
  qed
qed

lemma IdMap_erase_ok:
  assumes inv: "idmap_inv m"
  obtains m' where "IdMap_erase m oid = Some (idm_map m oid \<noteq> None, m')" "idmap_inv m'"
    "idm_map m' = (idm_map m)(oid := None)" "length (table m') = length (table m)"
    "entries m' = (if idm_map m oid = None then entries m else entries m - 1)"
  using inv
proof (cases rule: erase_probe_spec [where oid = oid])
  case absent
  then show ?thesis
    using that [of m] inv by (simp add: IdMap_erase_def fun_upd_idem)
next
  case (found hole h)
  let ?n = "length (table m)"
  note shape = idmap_invD(1) [OF inv] and uniq = idmap_invD(3) [OF inv]
  obtain z where z: "z < ?n" "ring m z = None"
    using idmap_empty_slot [OF inv] by blast
  note st = hole_inv_start [OF idmap_invD(2) [OF inv] found(2,3) z]
  have nxt: "unat ((hole + 1) AND table_mask m) = (unat hole + 1) mod ?n"
    by (rule shape_next [OF shape found(2)])
  have nxt_less: "unat ((hole + 1) AND table_mask m) < ?n"
    unfolding nxt using found(2) by (intro mod_less_divisor) linarith
  obtain m1 hole1 where m1: "shift_back m hole ((hole + 1) AND table_mask m) = Some (m1, hole1)"
      "m1 = m\<lparr>table := table m1\<rparr>" "length (table m1) = ?n" "unat hole1 < ?n"
      "probe_inv ?n (hash m) ((ring m1)(unat hole1 := None))"
      "contents ?n ((ring m1)(unat hole1 := None)) = contents ?n ((ring m)(unat hole := None))"
    using shift_back_spec [OF shape found(2) nxt_less st(1) [folded nxt]] by blast
  define e where "e = (table m1 ! unat hole1)\<lparr>ent_handle := Handle_nil\<rparr>"
  define m' where "m' = m1\<lparr>table := (table m1)[unat hole1 := e], entries := entries m1 - 1\<rparr>"
  have ring': "ring m' = (ring m1)(unat hole1 := None)"
    using ring_update [of "unat hole1" m1 e] m1(3,4) by (simp add: m'_def e_def)
  have cont: "contents ?n (ring m') = contents ?n (ring m) - {(oid, h)}"
    using m1(6) st(2) ring' by simp
  have same: "table_mask m1 = table_mask m" "entries m1 = entries m"
    by (subst m1(2), simp)+
  then have "hash m1 = hash m"
    by (simp add: hash_def home_def fun_eq_iff)
  then have m'_facts: "length (table m') = ?n" "hash m' = hash m" "table_shape m'"
    using shape m1(3) same by (simp_all add: m'_def table_shape_def)
  have in_m: "(oid, h) \<in> contents ?n (ring m)"
    using found(2,3) by (auto simp: contents_def)
  then have ent: "entries m' = entries m - 1" "entries m' = card (contents ?n (ring m'))"
    using cont idmap_invD(5) [OF inv] same by (simp_all add: m'_def)
  have inv': "idmap_inv m'"
    using m'_facts ent m1(5) ring' inv by (auto simp: idmap_inv_def)
  have "idm_map m' k = ((idm_map m)(oid := None)) k" for k
  proof (cases "k = oid")
    case True
    have "idm_map m' oid \<noteq> Some v" for v
      using idm_map_iff [OF idmap_invD(3) [OF inv'], of oid v] cont m'_facts(1)
        contents_functional [OF uniq in_m, of v] by auto
    with True show ?thesis by (metis fun_upd_same not_None_eq)
  next
    case False
    with idm_map_iff [OF idmap_invD(3) [OF inv'], of k] idm_map_iff [OF uniq, of k] cont m'_facts(1)
    show ?thesis by (cases "idm_map m' k"; cases "idm_map m k") auto
  qed
  then have "idm_map m' = (idm_map m)(oid := None)" by (rule ext)
  moreover have "IdMap_erase m oid = Some (True, m')"
    using found(1) m1(1,3,4) same by (simp add: IdMap_erase_def m'_def e_def)
  ultimately show ?thesis
    using that inv' m'_facts ent found(4) by simp
qed

section \<open>The constructor\<close>

lemma grow_slots_pow2:
  assumes "1 \<le> k" "k \<le> 33" "max_entries < 2 ^ 32"
  shows "\<exists>j. 1 \<le> j \<and> j \<le> 33 \<and> grow_slots max_entries (2 ^ k) = 2 ^ j \<and> 2 * max_entries \<le> 2 ^ j"
  using assms(1,2)
proof (induction "33 - k" arbitrary: k)
  case 0
  then have k: "k = 33" by simp
  then have "grow_slots max_entries (2 ^ k) = 2 ^ k"
    using assms(3) by (simp add: grow_slots.simps)
  with k assms(3) show ?case
    by (intro exI [of _ 33]) auto
next
  case (Suc x)
  show ?case
  proof (cases "2 ^ k < 2 * max_entries")
    case True
    then have "grow_slots max_entries (2 ^ k) = grow_slots max_entries (2 ^ (k + 1))"
      by (subst grow_slots.simps) (simp add: mult.commute)
    with Suc.hyps(1) [of "k + 1"] Suc.hyps(2) Suc.prems show ?thesis by simp
  next
    case False
    then show ?thesis
      using Suc.prems by (intro exI [of _ k]) (simp add: grow_slots.simps)
  qed
qed

lemma IdMap_new_inv [engine_inv]:
  shows "idmap_inv (IdMap_new c)" and "idm_map (IdMap_new c) = Map.empty"
    and "2 * unat c \<le> length (table (IdMap_new c))" and "entries (IdMap_new c) = 0"
proof -
  obtain j where j: "1 \<le> j" "j \<le> 33" "grow_slots (unat c) 2 = 2 ^ j" "2 * unat c \<le> 2 ^ j"
    using grow_slots_pow2 [of 1 "unat c"] unat_bound32 [of c] by auto
  have len: "length (table (IdMap_new c)) = 2 ^ j" and tm: "table_mask (IdMap_new c) = of_nat (2 ^ j) - 1"
    by (simp_all add: IdMap_new_def Let_def j)
  have shape: "table_shape (IdMap_new c)"
    unfolding table_shape_def using j len tm by (intro exI [of _ j]) (simp add: mask_eq_exp_minus_1)
  have ring: "ring (IdMap_new c) = (\<lambda>_. None)"
    by (auto simp: ring_def IdMap_new_def Let_def default_Entry_def fun_eq_iff)
  have "hash (IdMap_new c) k < length (table (IdMap_new c))" for k
    unfolding hash_def home_def shape_slot [OF shape] using shape_pos [OF shape] by (rule mod_less_divisor)
  then show "idmap_inv (IdMap_new c)"
    using shape ring by (simp add: idmap_inv_def probe_inv_def unique_keys_def contents_def IdMap_new_def Let_def)
  show "idm_map (IdMap_new c) = Map.empty"
    by (simp add: idm_map_def live_entries_def IdMap_new_def Let_def default_Entry_def)
  show "2 * unat c \<le> length (table (IdMap_new c))" "entries (IdMap_new c) = 0"
    using j(4) len by (simp_all add: IdMap_new_def Let_def)
qed


section \<open>The contract of the id map\<close>

locale id_index =
  fixes invar :: "'m \<Rightarrow> bool"
    and look :: "'m \<Rightarrow> 'k \<Rightarrow> 'v option"
    and storable :: "'v \<Rightarrow> bool"
    and room :: "'m \<Rightarrow> bool"
    and find :: "'m \<Rightarrow> 'k \<Rightarrow> 'v option option"
    and ins :: "'m \<Rightarrow> 'k \<Rightarrow> 'v \<Rightarrow> 'm option"
    and del :: "'m \<Rightarrow> 'k \<Rightarrow> (bool \<times> 'm) option"
  assumes find: "invar m \<Longrightarrow> find m k = Some (look m k)"
    and ins: "invar m \<Longrightarrow> look m k = None \<Longrightarrow> storable v \<Longrightarrow> room m \<Longrightarrow>
      \<exists>m'. ins m k v = Some m' \<and> invar m' \<and> look m' = (look m)(k \<mapsto> v)"
    and del: "invar m \<Longrightarrow>
      \<exists>m'. del m k = Some (look m k \<noteq> None, m') \<and> invar m' \<and> look m' = (look m)(k := None)"
begin

lemma find_after_ins:
  assumes "invar m" "look m k = None" "storable v" "room m" "ins m k v = Some m'"
  shows "find m' j = Some (if j = k then Some v else look m j)"
  using ins [OF assms(1-4)] assms(5) find by auto

lemma find_after_del:
  assumes "invar m" "del m k = Some (b, m')"
  shows "find m' j = Some (if j = k then None else look m j)"
  using del [OF assms(1), of k] assms(2) find by auto

lemma ins_del_restores:
  assumes "invar m" "look m k = None" "storable v" "room m"
  shows "\<exists>m' m''. ins m k v = Some m' \<and> del m' k = Some (True, m'') \<and> invar m'' \<and> look m'' = look m"
proof -
  obtain m' where m': "ins m k v = Some m'" "invar m'" "look m' = (look m)(k \<mapsto> v)"
    using ins [OF assms] by blast
  then obtain m'' where "del m' k = Some (True, m'')" "invar m''" "look m'' = (look m')(k := None)"
    using del [OF m'(2), of k] by auto
  with m' assms(2) show ?thesis
    by (auto simp: fun_upd_idem)
qed

end

interpretation id_table: id_index idmap_inv idm_map Handle_valid
  "\<lambda>m. entries m < length (table m) div 2" IdMap_find IdMap_insert IdMap_erase
proof
  fix m oid and h :: Handle
  assume inv: "idmap_inv m"
  show "IdMap_find m oid = Some (idm_map m oid)"
    using inv by (rule IdMap_find_eq)
  show "\<exists>m'. IdMap_erase m oid = Some (idm_map m oid \<noteq> None, m') \<and> idmap_inv m' \<and>
      idm_map m' = (idm_map m)(oid := None)"
    using IdMap_erase_ok [OF inv, of oid] by metis
  assume "idm_map m oid = None" "Handle_valid h" "entries m < length (table m) div 2"
  then show "\<exists>m'. IdMap_insert m oid h = Some m' \<and> idmap_inv m' \<and> idm_map m' = (idm_map m)(oid \<mapsto> h)"
    using IdMap_insert_ok [OF inv] by metis
qed

section \<open>Properties\<close>

text \<open>
  An insert of an absent id below the load bound returns, and afterwards \<open>find\<close>
  answers every id, the new one and all others, as a map would.
\<close>

theorem insert_then_find:
  assumes "idmap_inv m" "idm_map m oid = None" "Handle_valid h" "entries m < length (table m) div 2"
  shows "\<exists>m'. IdMap_insert m oid h = Some m' \<and> idmap_inv m' \<and> entries m' = entries m + 1 \<and>
    (\<forall>j. IdMap_find m' j = (if j = oid then Some (Some h) else IdMap_find m j))"
proof -
  obtain m' where m': "IdMap_insert m oid h = Some m'" "idmap_inv m'" "entries m' = entries m + 1"
    using IdMap_insert_ok [OF assms] by blast
  then show ?thesis
    using id_table.find_after_ins [OF assms m'(1)] IdMap_find_eq [OF assms(1)] by auto
qed

theorem insert_then_find_witness:
  "\<exists>m'. IdMap_insert (IdMap_new 4) 42 (make_handle 1 7) = Some m' \<and> idmap_inv m' \<and>
    IdMap_find m' 42 = Some (Some (make_handle 1 7))"
proof -
  have h: "Handle_valid (make_handle 1 7)" and new: "idm_map (IdMap_new 4) 42 = None"
    using IdMap_new_inv(2) [of 4] by (simp_all add: kNilIndex_def)
  have room: "entries (IdMap_new 4) < length (table (IdMap_new 4)) div 2"
    using IdMap_new_inv(3) [of 4] IdMap_new_inv(4) [of 4] by simp
  show ?thesis
    using insert_then_find [OF IdMap_new_inv(1) new h room] by auto
qed

text \<open>
  C40. Erasing an id returns, reports whether the id was there, and removes exactly that
  id: the entries shifted back into the hole all stay findable.
\<close>

theorem erase_then_find:
  assumes "idmap_inv m"
  shows "\<exists>m'. IdMap_erase m oid = Some (idm_map m oid \<noteq> None, m') \<and> idmap_inv m' \<and>
    (\<forall>j. IdMap_find m' j = (if j = oid then Some None else IdMap_find m j))"
proof -
  obtain m' where m': "IdMap_erase m oid = Some (idm_map m oid \<noteq> None, m')" "idmap_inv m'"
    using IdMap_erase_ok [OF assms] by blast
  then show ?thesis
    using id_table.find_after_del [OF assms m'(1)] IdMap_find_eq [OF assms] by auto
qed

theorem erase_then_find_witness:
  "\<exists>m'. IdMap_erase (IdMap_new 4) 9 = Some (False, m') \<and> idmap_inv m' \<and> IdMap_find m' 9 = Some None"
  using erase_then_find [OF IdMap_new_inv(1), of 4 9] IdMap_new_inv(2) [of 4] by auto

end
