(* ===== verification/Book.thy ===== *)
theory Book
  imports Price_Levels Id_Map
begin

text \<open>
  \<open>include/engine/book.hpp\<close>: the order book. The state is the order pool, the two sides, the id
  map and the two counters. Every operation of the class is one definition here; loops over the
  linked lists are partial functions, so that a corrupted book shows as \<open>None\<close>.
\<close>

section \<open>State and results\<close>

record Trade =
  maker_order_id :: OrderId
  taker_order_id :: OrderId
  tr_price :: Price
  tr_qty :: Qty
  trade_id :: TradeId
  tr_seq_no :: SeqNo

record Book =
  pool :: order_pool
  bids :: PriceLevels
  asks :: PriceLevels
  id_map :: IdMap
  next_seq :: SeqNo
  next_trade_id :: TradeId

definition Book_new :: "Index \<Rightarrow> Book" where
  "Book_new cap =
     \<lparr>pool = FixedPool_new cap, bids = PriceLevels_new (unat cap + 1), asks = PriceLevels_new (unat cap + 1),
      id_map = IdMap_new cap, next_seq = 0, next_trade_id = 0\<rparr>"

record AddResult =
  accepted :: bool
  trades :: "Trade list"
  resting_qty :: Qty
  stp_rejected :: bool
  pool_exhausted :: bool

definition AddResult_reset :: "AddResult \<Rightarrow> AddResult" where
  "AddResult_reset r =
     r\<lparr>accepted := False, trades := [], resting_qty := 0, stp_rejected := False, pool_exhausted := False\<rparr>"

text \<open>The two sides are two instances of one template; \<open>levels_of\<close> selects the member.\<close>

definition best_of :: "Side \<Rightarrow> Best" where
  "best_of s = (case s of Buy \<Rightarrow> High | Sell \<Rightarrow> Low)"

definition levels_of :: "Book \<Rightarrow> Side \<Rightarrow> PriceLevels" where
  "levels_of b s = (case s of Buy \<Rightarrow> bids b | Sell \<Rightarrow> asks b)"

definition set_levels_of :: "Book \<Rightarrow> Side \<Rightarrow> PriceLevels \<Rightarrow> Book" where
  "set_levels_of b s pl = (case s of Buy \<Rightarrow> b\<lparr>bids := pl\<rparr> | Sell \<Rightarrow> b\<lparr>asks := pl\<rparr>)"

definition level_for_insert :: "Book \<Rightarrow> Side \<Rightarrow> Price \<Rightarrow> (nat \<times> Book) option" where
  "level_for_insert b s p =
     do { (pos, pl) \<leftarrow> PriceLevels_get_or_insert (best_of s) (levels_of b s) p;
          Some (pos, set_levels_of b s pl) }"

definition level_for :: "Book \<Rightarrow> Side \<Rightarrow> Price \<Rightarrow> nat option" where
  "level_for b s p = PriceLevels_at (best_of s) (levels_of b s) p"

definition erase_level :: "Book \<Rightarrow> Side \<Rightarrow> Price \<Rightarrow> Book option" where
  "erase_level b s p =
     do { pl \<leftarrow> PriceLevels_erase (best_of s) (levels_of b s) p; Some (set_levels_of b s pl) }"

text \<open>A write of a level through the reference into its side.\<close>

definition store_level :: "Book \<Rightarrow> Side \<Rightarrow> nat \<Rightarrow> Level \<Rightarrow> Book option" where
  "store_level b s pos lv =
     do { pl \<leftarrow> set_level_at (levels_of b s) pos lv; Some (set_levels_of b s pl) }"

section \<open>Matching\<close>

text \<open>
  The inner loop of \<open>cross\<close>, over the orders of one level. The result says whether a self-match
  stopped it.
\<close>

partial_function (option) cross_level ::
  "Book \<Rightarrow> Level \<Rightarrow> Order \<Rightarrow> SeqNo \<Rightarrow> Trade list \<Rightarrow> (bool \<times> Book \<times> Level \<times> Order \<times> Trade list) option" where
  "cross_level b level incoming seq ts =
     (if qty incoming > 0 \<and> head level \<noteq> kNilIndex then
        do {
          let maker_idx = head level;
          maker \<leftarrow> unchecked_at (pool b) maker_idx;
          if account maker = account incoming then Some (True, b, level, incoming, ts)
          else do {
            let fill = min (qty incoming) (qty maker);
            let ts' = ts @ [\<lparr>maker_order_id = order_id maker, taker_order_id = order_id incoming,
                             tr_price = price maker, tr_qty = fill,
                             trade_id = next_trade_id b, tr_seq_no = seq\<rparr>];
            let b1 = b\<lparr>next_trade_id := next_trade_id b + 1\<rparr>;
            let incoming' = incoming\<lparr>qty := qty incoming - fill\<rparr>;
            p1 \<leftarrow> update_at (pool b1) maker_idx (\<lambda>x. x\<lparr>qty := qty x - fill\<rparr>);
            if qty maker - fill = 0 then
              do {
                (level', p2) \<leftarrow> level_unlink level p1 maker_idx;
                (_, idm) \<leftarrow> IdMap_erase (id_map b1) (order_id maker);
                cross_level (b1\<lparr>pool := pool_free p2 (handle_of p2 maker_idx), id_map := idm\<rparr>)
                  level' incoming' seq ts'
              }
            else cross_level (b1\<lparr>pool := p1\<rparr>) level incoming' seq ts'
          }
        }
      else Some (False, b, level, incoming, ts))"

declare cross_level.simps [code]

text \<open>The outer loop, over the levels of the resting side from the best one on.\<close>

partial_function (option) cross ::
  "Book \<Rightarrow> Side \<Rightarrow> (Price \<Rightarrow> Price \<Rightarrow> bool) \<Rightarrow> Order \<Rightarrow> SeqNo \<Rightarrow> Trade list \<Rightarrow>
   (bool \<times> Book \<times> Order \<times> Trade list) option" where
  "cross b s crosses incoming seq ts =
     (if qty incoming > 0 \<and> \<not> PriceLevels_empty (levels_of b s) then
        do {
          pos \<leftarrow> PriceLevels_best (levels_of b s);
          level \<leftarrow> level_at (levels_of b s) pos;
          if \<not> crosses (lv_price level) (price incoming) then Some (False, b, incoming, ts)
          else do {
            (stp, b1, level', incoming', ts') \<leftarrow> cross_level b level incoming seq ts;
            b2 \<leftarrow> store_level b1 s pos level';
            if stp then Some (True, b2, incoming', ts')
            else if head level' = kNilIndex then
              do { pl \<leftarrow> PriceLevels_pop_best (levels_of b2 s);
                   cross (set_levels_of b2 s pl) s crosses incoming' seq ts' }
            else cross b2 s crosses incoming' seq ts'
          }
        }
      else Some (False, b, incoming, ts))"

declare cross.simps [code]

text \<open>The \<open>crosses\<close> lambdas: a limit order against the opposite side, and a market order.\<close>

definition limit_crosses :: "Side \<Rightarrow> Price \<Rightarrow> Price \<Rightarrow> bool" where
  "limit_crosses taker resting limit = (case taker of Buy \<Rightarrow> resting \<le> limit | Sell \<Rightarrow> resting \<ge> limit)"

definition market_crosses :: "Price \<Rightarrow> Price \<Rightarrow> bool" where
  "market_crosses resting limit = True"

definition opposite :: "Side \<Rightarrow> Side" where
  "opposite s = (case s of Buy \<Rightarrow> Sell | Sell \<Rightarrow> Buy)"

text \<open>
  The fill-or-kill check. The walk of one level returns the running total and whether it met an
  order of the taker's own account. The total is a 32-bit \<open>Qty\<close>, as in the source.
\<close>

partial_function (option) available_in_level ::
  "order_pool \<Rightarrow> Account \<Rightarrow> Qty \<Rightarrow> Index \<Rightarrow> (bool \<times> Qty) option" where
  "available_in_level p acct acc idx =
     (if idx = kNilIndex then Some (False, acc)
      else do {
        order \<leftarrow> unchecked_at p idx;
        if account order = acct then Some (True, acc)
        else available_in_level p acct (acc + qty order) (next_idx order)
      })"

declare available_in_level.simps [code]

partial_function (option) available_from_rank ::
  "order_pool \<Rightarrow> PriceLevels \<Rightarrow> Price \<Rightarrow> Account \<Rightarrow> (Price \<Rightarrow> Price \<Rightarrow> bool) \<Rightarrow> nat \<Rightarrow> Qty \<Rightarrow> Qty option" where
  "available_from_rank p pl limit acct crosses rank acc =
     (if rank < PriceLevels_size pl then
        do {
          level \<leftarrow> PriceLevels_by_rank pl rank;
          if \<not> crosses (lv_price level) limit then Some acc
          else do {
            (stop, acc') \<leftarrow> available_in_level p acct acc (head level);
            if stop then Some acc' else available_from_rank p pl limit acct crosses (rank + 1) acc'
          }
        }
      else Some acc)"

declare available_from_rank.simps [code]

definition available_before_self_trade ::
  "Book \<Rightarrow> Side \<Rightarrow> Price \<Rightarrow> Account \<Rightarrow> (Price \<Rightarrow> Price \<Rightarrow> bool) \<Rightarrow> Qty option" where
  "available_before_self_trade b s limit acct crosses =
     available_from_rank (pool b) (levels_of b s) limit acct crosses 0 0"

section \<open>Commands\<close>

definition rest :: "Book \<Rightarrow> Side \<Rightarrow> Price \<Rightarrow> Order \<Rightarrow> SeqNo \<Rightarrow> (bool \<times> Book) option" where
  "rest b s p incoming seq =
     do {
       (pos, b1) \<leftarrow> level_for_insert b s p;
       (h, p1) \<leftarrow> allocate (pool b1) incoming;
       let b2 = b1\<lparr>pool := p1\<rparr>;
       level \<leftarrow> level_at (levels_of b2 s) pos;
       if \<not> Handle_valid h then
         (if head level = kNilIndex
          then do { b3 \<leftarrow> erase_level b2 s p; Some (False, b3) }
          else Some (False, b2))
       else do {
         ptr \<leftarrow> pool_get p1 h;
         _ \<leftarrow> ptr;
         p2 \<leftarrow> update_at p1 (Handle_index h) (\<lambda>x. x\<lparr>seq_no := seq\<rparr>);
         (level', p3) \<leftarrow> level_append level p2 (Handle_index h);
         b3 \<leftarrow> store_level (b2\<lparr>pool := p3\<rparr>) s pos level';
         idm \<leftarrow> IdMap_insert (id_map b3) (order_id incoming) h;
         Some (True, b3\<lparr>id_map := idm\<rparr>)
       }
     }"

definition would_cross :: "Book \<Rightarrow> Side \<Rightarrow> Price \<Rightarrow> bool option" where
  "would_cross b s p =
     (let opp = levels_of b (opposite s)
      in if PriceLevels_empty opp then Some False
         else do { pos \<leftarrow> PriceLevels_best opp; l \<leftarrow> level_at opp pos;
                   Some (case s of Buy \<Rightarrow> p \<ge> lv_price l | Sell \<Rightarrow> p \<le> lv_price l) })"

definition add_limit_order ::
  "AddResult \<Rightarrow> Book \<Rightarrow> OrderId \<Rightarrow> Side \<Rightarrow> Price \<Rightarrow> Qty \<Rightarrow> Account \<Rightarrow> TimeInForce \<Rightarrow> (AddResult \<times> Book) option" where
  "add_limit_order result b oid s p q acct tif =
     do {
       let result = AddResult_reset result;
       let seq = next_seq b;
       let b = b\<lparr>next_seq := seq + 1\<rparr>;
       dup \<leftarrow> (if q = 0 then Some True else IdMap_contains (id_map b) oid);
       if dup then Some (result, b)
       else do {
         enough \<leftarrow> (if tif = FOK
                     then do { avail \<leftarrow> available_before_self_trade b (opposite s) p acct (limit_crosses s);
                               Some (\<not> avail < q) }
                     else Some True);
         if \<not> enough then Some (result\<lparr>accepted := True\<rparr>, b)
         else do {
           let incoming = default_Order\<lparr>order_id := oid, side := s, price := p, qty := q, account := acct\<rparr>;
           (stp, b1, incoming, ts) \<leftarrow> cross b (opposite s) (limit_crosses s) incoming seq (trades result);
           let result = result\<lparr>trades := ts, stp_rejected := stp, accepted := True\<rparr>;
           if tif = GTC \<and> \<not> stp \<and> qty incoming > 0 then
             do {
               (rested, b2) \<leftarrow> rest b1 s p incoming seq;
               Some (if rested then result\<lparr>resting_qty := qty incoming\<rparr>
                     else result\<lparr>pool_exhausted := True\<rparr>, b2)
             }
           else Some (result, b1)
         }
       }
     }"

definition add_market_order ::
  "AddResult \<Rightarrow> Book \<Rightarrow> OrderId \<Rightarrow> Side \<Rightarrow> Qty \<Rightarrow> Account \<Rightarrow> (AddResult \<times> Book) option" where
  "add_market_order result b oid s q acct =
     do {
       let result = AddResult_reset result;
       let seq = next_seq b;
       let b = b\<lparr>next_seq := seq + 1\<rparr>;
       dup \<leftarrow> (if q = 0 then Some True else IdMap_contains (id_map b) oid);
       if dup then Some (result, b)
       else do {
         let incoming = default_Order\<lparr>order_id := oid, side := s, qty := q, account := acct\<rparr>;
         (stp, b1, _, ts) \<leftarrow> cross b (opposite s) market_crosses incoming seq (trades result);
         Some (result\<lparr>trades := ts, stp_rejected := stp, accepted := True, resting_qty := 0\<rparr>, b1)
       }
     }"

definition modify_order :: "Book \<Rightarrow> OrderId \<Rightarrow> Price \<Rightarrow> Qty \<Rightarrow> (bool \<times> Book) option" where
  "modify_order b oid new_price new_qty =
     do {
       let seq = next_seq b;
       let b = b\<lparr>next_seq := seq + 1\<rparr>;
       if new_qty = 0 then Some (False, b)
       else do {
         found \<leftarrow> IdMap_find (id_map b) oid;
         case found of
           None \<Rightarrow> Some (False, b)
         | Some h \<Rightarrow> do {
             ptr \<leftarrow> pool_get (pool b) h;
             case ptr of
               None \<Rightarrow> do { (_, idm) \<leftarrow> IdMap_erase (id_map b) oid; Some (False, b\<lparr>id_map := idm\<rparr>) }
             | Some order \<Rightarrow>
                 if new_price = price order \<and> new_qty \<le> qty order then
                   do { p \<leftarrow> update_at (pool b) (Handle_index h) (\<lambda>x. x\<lparr>qty := new_qty\<rparr>);
                        Some (True, b\<lparr>pool := p\<rparr>) }
                 else do {
                   bad \<leftarrow> would_cross b (side order) new_price;
                   if bad then Some (False, b)
                   else do {
                     pos \<leftarrow> level_for b (side order) (price order);
                     old_level \<leftarrow> level_at (levels_of b (side order)) pos;
                     (old_level, p) \<leftarrow> level_unlink old_level (pool b) (Handle_index h);
                     b1 \<leftarrow> store_level (b\<lparr>pool := p\<rparr>) (side order) pos old_level;
                     b2 \<leftarrow> (if head old_level = kNilIndex then erase_level b1 (side order) (price order)
                            else Some b1);
                     p \<leftarrow> update_at (pool b2) (Handle_index h)
                            (\<lambda>x. x\<lparr>price := new_price, qty := new_qty, seq_no := seq\<rparr>);
                     (pos', b3) \<leftarrow> level_for_insert (b2\<lparr>pool := p\<rparr>) (side order) new_price;
                     new_level \<leftarrow> level_at (levels_of b3 (side order)) pos';
                     (new_level, p) \<leftarrow> level_append new_level (pool b3) (Handle_index h);
                     b4 \<leftarrow> store_level (b3\<lparr>pool := p\<rparr>) (side order) pos' new_level;
                     Some (True, b4)
                   }
                 }
           }
       }
     }"

definition cancel_order :: "Book \<Rightarrow> OrderId \<Rightarrow> (bool \<times> Book) option" where
  "cancel_order b oid =
     do {
       let b = b\<lparr>next_seq := next_seq b + 1\<rparr>;
       found \<leftarrow> IdMap_find (id_map b) oid;
       case found of
         None \<Rightarrow> Some (False, b)
       | Some h \<Rightarrow> do {
           ptr \<leftarrow> pool_get (pool b) h;
           case ptr of
             None \<Rightarrow> do { (_, idm) \<leftarrow> IdMap_erase (id_map b) oid; Some (False, b\<lparr>id_map := idm\<rparr>) }
           | Some order \<Rightarrow> do {
               pos \<leftarrow> level_for b (side order) (price order);
               level \<leftarrow> level_at (levels_of b (side order)) pos;
               (level, p) \<leftarrow> level_unlink level (pool b) (Handle_index h);
               b1 \<leftarrow> store_level (b\<lparr>pool := p\<rparr>) (side order) pos level;
               b2 \<leftarrow> (if head level = kNilIndex then erase_level b1 (side order) (price order) else Some b1);
               let b3 = b2\<lparr>pool := pool_free (pool b2) h\<rparr>;
               (_, idm) \<leftarrow> IdMap_erase (id_map b3) oid;
               Some (True, b3\<lparr>id_map := idm\<rparr>)
             }
         }
     }"


section \<open>Observers\<close>

definition has_bid :: "Book \<Rightarrow> bool" where
  "has_bid b \<longleftrightarrow> \<not> PriceLevels_empty (bids b)"

definition has_ask :: "Book \<Rightarrow> bool" where
  "has_ask b \<longleftrightarrow> \<not> PriceLevels_empty (asks b)"

definition best_bid :: "Book \<Rightarrow> Price option" where
  "best_bid b = do { pos \<leftarrow> PriceLevels_best (bids b); l \<leftarrow> level_at (bids b) pos; Some (lv_price l) }"

definition best_ask :: "Book \<Rightarrow> Price option" where
  "best_ask b = do { pos \<leftarrow> PriceLevels_best (asks b); l \<leftarrow> level_at (asks b) pos; Some (lv_price l) }"

definition order_at :: "Book \<Rightarrow> Index \<Rightarrow> Order option" where
  "order_at b idx = unchecked_at (pool b) idx"

definition head_at :: "Book \<Rightarrow> Side \<Rightarrow> Price \<Rightarrow> Index option" where
  "head_at b s p =
     do { pos \<leftarrow> PriceLevels_at (best_of s) (levels_of b s) p; l \<leftarrow> level_at (levels_of b s) pos; Some (head l) }"

record RestingOrder =
  r_side :: Side
  r_price :: Price
  r_order_id :: OrderId
  r_qty :: Qty
  r_account :: Account
  r_seq_no :: SeqNo

definition resting_of :: "Order \<Rightarrow> RestingOrder" where
  "resting_of x = \<lparr>r_side = side x, r_price = price x, r_order_id = order_id x, r_qty = qty x,
     r_account = account x, r_seq_no = seq_no x\<rparr>"

partial_function (option) append_level :: "order_pool \<Rightarrow> Index \<Rightarrow> RestingOrder list \<Rightarrow> RestingOrder list option" where
  "append_level p idx out =
     (if idx = kNilIndex then Some out
      else do { x \<leftarrow> unchecked_at p idx; append_level p (next_idx x) (out @ [resting_of x]) })"

declare append_level.simps [code]

partial_function (option) append_side ::
  "order_pool \<Rightarrow> PriceLevels \<Rightarrow> nat \<Rightarrow> RestingOrder list \<Rightarrow> RestingOrder list option" where
  "append_side p pl rank out =
     (if rank < PriceLevels_size pl
      then do { level \<leftarrow> PriceLevels_by_rank pl rank;
                out \<leftarrow> append_level p (head level) out;
                append_side p pl (rank + 1) out }
      else Some out)"

declare append_side.simps [code]

definition snapshot :: "Book \<Rightarrow> RestingOrder list option" where
  "snapshot b =
     do { out \<leftarrow> append_side (pool b) (bids b) 0 []; append_side (pool b) (asks b) 0 out }"

section \<open>The self-check\<close>

text \<open>
  \<open>check_side\<close> and \<open>invariant_violation\<close>. The outer \<open>None\<close> is undefined behaviour as everywhere;
  a check returns \<open>Inl\<close> with the message of the first violation, or \<open>Inr\<close> with the number of
  orders linked so far, which the source threads through a reference.
\<close>

partial_function (option) check_level ::
  "Book \<Rightarrow> Side \<Rightarrow> Price \<Rightarrow> Index \<Rightarrow> Index \<Rightarrow> SeqNo \<Rightarrow> nat \<Rightarrow> (string + (Index \<times> nat)) option" where
  "check_level b s p idx prev last_seq linked =
     (if idx = kNilIndex then Some (Inr (prev, linked))
      else if idx \<ge> capacity (pool b) then Some (Inl ''next_idx out of range'')
      else do {
        x \<leftarrow> unchecked_at (pool b) idx;
        if prev_idx x \<noteq> prev then Some (Inl ''prev_idx does not match traversal'')
        else if side x \<noteq> s then Some (Inl ''order on the wrong side'')
        else if price x \<noteq> p then Some (Inl ''order price != level price'')
        else if qty x = 0 then Some (Inl ''resting order with qty 0'')
        else if prev \<noteq> kNilIndex \<and> seq_no x \<le> last_seq then Some (Inl ''seq_no not increasing within level'')
        else do {
          mapped \<leftarrow> IdMap_find (id_map b) (order_id x);
          if (case mapped of None \<Rightarrow> True | Some h \<Rightarrow> Handle_index h \<noteq> idx \<or> \<not> validate (pool b) h)
          then Some (Inl ''id_map_ entry missing or pointing at another slot'')
          else if linked + 1 > unat (capacity (pool b)) then Some (Inl ''cycle in level list'')
          else check_level b s p (next_idx x) idx (seq_no x) (linked + 1)
        }
      })"

declare check_level.simps [code]

partial_function (option) check_ranks :: "Book \<Rightarrow> Side \<Rightarrow> nat \<Rightarrow> nat \<Rightarrow> (string + nat) option" where
  "check_ranks b s rank linked =
     (if rank < PriceLevels_size (levels_of b s) then
        do {
          level \<leftarrow> PriceLevels_by_rank (levels_of b s) rank;
          disordered \<leftarrow> (if rank > 0
             then do { above \<leftarrow> PriceLevels_by_rank (levels_of b s) (rank - 1);
                       Some (\<not> better (best_of s) (lv_price above) (lv_price level)) }
             else Some False);
          if disordered then Some (Inl ''price levels not strictly ordered best first'')
          else if head level = kNilIndex then Some (Inl ''empty level left in price levels'')
          else do {
            res \<leftarrow> check_level b s (lv_price level) (head level) kNilIndex 0 linked;
            case res of
              Inl v \<Rightarrow> Some (Inl v)
            | Inr r \<Rightarrow> if tail level \<noteq> fst r then Some (Inl ''level.tail is not the last linked order'')
                       else check_ranks b s (rank + 1) (snd r)
          }
        }
      else Some (Inr linked))"

declare check_ranks.simps [code]

definition check_side :: "Book \<Rightarrow> Side \<Rightarrow> nat \<Rightarrow> (string + nat) option" where
  "check_side b s linked = check_ranks b s 0 linked"

definition invariant_violation :: "Book \<Rightarrow> string option option" where
  "invariant_violation b =
     do {
       crossed \<leftarrow> (if has_bid b \<and> has_ask b
                   then do { bb \<leftarrow> best_bid b; ba \<leftarrow> best_ask b; Some (bb \<ge> ba) } else Some False);
       if crossed then Some (Some ''book is crossed'')
       else do {
         r1 \<leftarrow> check_side b Buy 0;
         case r1 of
           Inl v \<Rightarrow> Some (Some v)
         | Inr linked1 \<Rightarrow> do {
             r2 \<leftarrow> check_side b Sell linked1;
             case r2 of
               Inl v \<Rightarrow> Some (Some v)
             | Inr linked \<Rightarrow>
                 if linked \<noteq> IdMap_size (id_map b) then Some (Some ''id_map_ size != orders linked into levels'')
                 else do {
                   n \<leftarrow> free_slots (pool b);
                   let in_use = (ucast (capacity (pool b)) - ucast n :: 64 word);
                   Some (if in_use \<noteq> of_nat linked then Some ''pool slots in use != orders linked into levels''
                         else None)
                 }
           }
       }
     }"

end
