(* ===== verification/Command.thy ===== *)
theory Command
  imports Book
begin

text \<open>
  \<open>include/engine/command.hpp\<close>: an input to the book in the form the journal stores it, with the
  four functions that build one.
\<close>

datatype CommandKind = Limit | Market | Cancel | Modify

record Command =
  kind :: CommandKind
  c_id :: OrderId
  c_side :: Side
  c_tif :: TimeInForce
  c_price :: Price
  c_qty :: Qty
  c_account :: Account

definition default_Command :: Command where
  "default_Command =
     \<lparr>kind = Limit, c_id = 0, c_side = Buy, c_tif = GTC, c_price = Price 0, c_qty = 0, c_account = 0\<rparr>"

definition limit_command :: "OrderId \<Rightarrow> Side \<Rightarrow> Price \<Rightarrow> Qty \<Rightarrow> Account \<Rightarrow> TimeInForce \<Rightarrow> Command" where
  "limit_command oid s p q acct tif =
     default_Command\<lparr>kind := Limit, c_id := oid, c_side := s, c_tif := tif, c_price := p, c_qty := q, c_account := acct\<rparr>"

definition market_command :: "OrderId \<Rightarrow> Side \<Rightarrow> Qty \<Rightarrow> Account \<Rightarrow> Command" where
  "market_command oid s q acct =
     default_Command\<lparr>kind := Market, c_id := oid, c_side := s, c_qty := q, c_account := acct\<rparr>"

definition cancel_command :: "OrderId \<Rightarrow> Command" where
  "cancel_command oid = default_Command\<lparr>kind := Cancel, c_id := oid\<rparr>"

definition modify_command :: "OrderId \<Rightarrow> Price \<Rightarrow> Qty \<Rightarrow> Command" where
  "modify_command oid p q = default_Command\<lparr>kind := Modify, c_id := oid, c_price := p, c_qty := q\<rparr>"

text \<open>The commands these functions build: fields the kind does not use stay at their defaults.\<close>

definition canonical :: "Command \<Rightarrow> bool" where
  "canonical c \<longleftrightarrow>
     (case kind c of
        Limit \<Rightarrow> True
      | Market \<Rightarrow> c_tif c = GTC \<and> c_price c = Price 0
      | Cancel \<Rightarrow> c_side c = Buy \<and> c_tif c = GTC \<and> c_price c = Price 0 \<and> c_qty c = 0 \<and> c_account c = 0
      | Modify \<Rightarrow> c_side c = Buy \<and> c_tif c = GTC \<and> c_account c = 0)"

lemma built_canonical [simp]:
  "canonical (limit_command oid s p q acct tif)" "canonical (market_command oid s q acct)"
  "canonical (cancel_command oid)" "canonical (modify_command oid p q)"
  by (simp_all add: canonical_def limit_command_def market_command_def cancel_command_def modify_command_def
      default_Command_def)

lemma canonical_cases:
  assumes "canonical c"
  obtains (limit) oid s p q acct tif where "c = limit_command oid s p q acct tif"
  | (market) oid s q acct where "c = market_command oid s q acct"
  | (cancel) oid where "c = cancel_command oid"
  | (modify) oid p q where "c = modify_command oid p q"
  using assms
  by (cases c; cases "kind c")
    (auto simp: canonical_def limit_command_def market_command_def cancel_command_def modify_command_def
      default_Command_def)

end
