(* ===== verification/Matching_Spec.thy ===== *)
theory Matching_Spec
  imports Book
begin

text \<open>
  What the book promises (\<open>docs/spec.md\<close>, S1 to S6), without pool, links, arrays or hash table:
  each side is one list of resting orders in priority order, best price first and oldest first
  within a price. Theory \<open>Book_Refinement\<close> shows that the class implements this, theory
  \<open>Oracle_Refinement\<close> that the reference implementation of the tests does.
\<close>

type_synonym queue = "RestingOrder list"

record SpecBook =
  s_bids :: queue
  s_asks :: queue
  s_cap :: nat
  s_seq :: SeqNo
  s_tid :: TradeId

definition s_queue :: "SpecBook \<Rightarrow> Side \<Rightarrow> queue" where
  "s_queue sb s = (case s of Buy \<Rightarrow> s_bids sb | Sell \<Rightarrow> s_asks sb)"

definition set_queue :: "SpecBook \<Rightarrow> Side \<Rightarrow> queue \<Rightarrow> SpecBook" where
  "set_queue sb s xs = (case s of Buy \<Rightarrow> sb\<lparr>s_bids := xs\<rparr> | Sell \<Rightarrow> sb\<lparr>s_asks := xs\<rparr>)"

definition s_orders :: "SpecBook \<Rightarrow> queue" where
  "s_orders sb = s_bids sb @ s_asks sb"

definition spec_new :: "nat \<Rightarrow> SpecBook" where
  "spec_new cap = \<lparr>s_bids = [], s_asks = [], s_cap = cap, s_seq = 0, s_tid = 0\<rparr>"

section \<open>Matching\<close>

definition fill_trade :: "RestingOrder \<Rightarrow> OrderId \<Rightarrow> Qty \<Rightarrow> TradeId \<Rightarrow> SeqNo \<Rightarrow> Trade" where
  "fill_trade maker taker q tid seq =
     \<lparr>maker_order_id = r_order_id maker, taker_order_id = taker, tr_price = r_price maker, tr_qty = q,
      trade_id = tid, tr_seq_no = seq\<rparr>"

text \<open>
  Match a quantity against a queue: stop when it is used up, at the first price that is not
  acceptable, or at the first order of the taker's own account. The result is whether the latter
  happened, the trades, the queue and the quantity left, and the next trade id.
\<close>

fun match_queue ::
  "(Price \<Rightarrow> bool) \<Rightarrow> Account \<Rightarrow> OrderId \<Rightarrow> SeqNo \<Rightarrow> TradeId \<Rightarrow> Qty \<Rightarrow> queue \<Rightarrow>
   bool \<times> Trade list \<times> queue \<times> Qty \<times> TradeId" where
  "match_queue ok acct taker seq tid q [] = (False, [], [], q, tid)"
| "match_queue ok acct taker seq tid q (x # xs) =
     (if q = 0 \<or> \<not> ok (r_price x) then (False, [], x # xs, q, tid)
      else if r_account x = acct then (True, [], x # xs, q, tid)
      else if r_qty x \<le> q then
        (case match_queue ok acct taker seq (tid + 1) (q - r_qty x) xs of
           (stp, ts, ys, q', tid') \<Rightarrow> (stp, fill_trade x taker (r_qty x) tid seq # ts, ys, q', tid'))
      else (False, [fill_trade x taker q tid seq], x\<lparr>r_qty := r_qty x - q\<rparr> # xs, 0, tid + 1))"

text \<open>What a fill-or-kill order could take, as a number that cannot wrap.\<close>

definition fillable :: "(Price \<Rightarrow> bool) \<Rightarrow> Account \<Rightarrow> queue \<Rightarrow> nat" where
  "fillable ok acct xs =
     (\<Sum>x \<leftarrow> takeWhile (\<lambda>x. ok (r_price x) \<and> r_account x \<noteq> acct) xs. unat (r_qty x))"

text \<open>A new order goes behind every order that its price does not beat.\<close>

definition enqueue :: "Side \<Rightarrow> RestingOrder \<Rightarrow> queue \<Rightarrow> queue" where
  "enqueue s x xs =
     takeWhile (\<lambda>y. \<not> better (best_of s) (r_price x) (r_price y)) xs @ [x] @
     dropWhile (\<lambda>y. \<not> better (best_of s) (r_price x) (r_price y)) xs"

section \<open>Commands\<close>

definition empty_result :: AddResult where
  "empty_result = \<lparr>accepted = False, trades = [], resting_qty = 0, stp_rejected = False, pool_exhausted = False\<rparr>"

text \<open>
  \<open>fok_total\<close> is the quantity the fill-or-kill check compares with. The engine keeps it in 32
  bits, the reference implementation in 64.
\<close>

definition spec_submit ::
  "(nat \<Rightarrow> nat) \<Rightarrow> SpecBook \<Rightarrow> OrderId \<Rightarrow> Side \<Rightarrow> (Price \<Rightarrow> bool) \<Rightarrow> Price \<Rightarrow> Qty \<Rightarrow> Account \<Rightarrow> TimeInForce \<Rightarrow>
   AddResult \<times> SpecBook" where
  "spec_submit fok_total sb oid s ok p q acct tif =
     (let seq = s_seq sb; sb = sb\<lparr>s_seq := seq + 1\<rparr>
      in if q = 0 \<or> oid \<in> r_order_id ` set (s_orders sb) then (empty_result, sb)
         else if tif = FOK \<and> fok_total (fillable ok acct (s_queue sb (opposite s))) < unat q
         then (empty_result\<lparr>accepted := True\<rparr>, sb)
         else case match_queue ok acct oid seq (s_tid sb) q (s_queue sb (opposite s)) of
           (stp, ts, ys, q', tid') \<Rightarrow>
             let sb = (set_queue sb (opposite s) ys)\<lparr>s_tid := tid'\<rparr>;
                 r = empty_result\<lparr>accepted := True, trades := ts, stp_rejected := stp\<rparr>
             in if tif = GTC \<and> \<not> stp \<and> q' > 0
                then if length (s_orders sb) < s_cap sb
                     then (r\<lparr>resting_qty := q'\<rparr>,
                           set_queue sb s (enqueue s \<lparr>r_side = s, r_price = p, r_order_id = oid, r_qty = q',
                             r_account = acct, r_seq_no = seq\<rparr> (s_queue sb s)))
                     else (r\<lparr>pool_exhausted := True\<rparr>, sb)
                else (r, sb))"

definition wrap32 :: "nat \<Rightarrow> nat" where
  "wrap32 n = n mod 2 ^ 32"

definition spec_add_limit ::
  "SpecBook \<Rightarrow> OrderId \<Rightarrow> Side \<Rightarrow> Price \<Rightarrow> Qty \<Rightarrow> Account \<Rightarrow> TimeInForce \<Rightarrow> AddResult \<times> SpecBook" where
  "spec_add_limit sb oid s p q acct tif =
     spec_submit wrap32 sb oid s (\<lambda>r. limit_crosses s r p) p q acct tif"

definition spec_add_market :: "SpecBook \<Rightarrow> OrderId \<Rightarrow> Side \<Rightarrow> Qty \<Rightarrow> Account \<Rightarrow> AddResult \<times> SpecBook" where
  "spec_add_market sb oid s q acct = spec_submit wrap32 sb oid s (\<lambda>_. True) (Price 0) q acct IOC"

definition remove_id :: "OrderId \<Rightarrow> queue \<Rightarrow> queue" where
  "remove_id oid xs = filter (\<lambda>x. r_order_id x \<noteq> oid) xs"

definition lookup_id :: "SpecBook \<Rightarrow> OrderId \<Rightarrow> RestingOrder option" where
  "lookup_id sb oid = List.find (\<lambda>x. r_order_id x = oid) (s_orders sb)"

definition set_qty :: "OrderId \<Rightarrow> Qty \<Rightarrow> queue \<Rightarrow> queue" where
  "set_qty oid q xs = map (\<lambda>x. if r_order_id x = oid then x\<lparr>r_qty := q\<rparr> else x) xs"

definition spec_cancel :: "SpecBook \<Rightarrow> OrderId \<Rightarrow> bool \<times> SpecBook" where
  "spec_cancel sb oid =
     (let sb = sb\<lparr>s_seq := s_seq sb + 1\<rparr>
      in case lookup_id sb oid of
           None \<Rightarrow> (False, sb)
         | Some x \<Rightarrow> (True, set_queue sb (r_side x) (remove_id oid (s_queue sb (r_side x)))))"

definition spec_would_cross :: "SpecBook \<Rightarrow> Side \<Rightarrow> Price \<Rightarrow> bool" where
  "spec_would_cross sb s p =
     (case s_queue sb (opposite s) of [] \<Rightarrow> False | y # _ \<Rightarrow> limit_crosses s (r_price y) p)"

definition spec_modify :: "SpecBook \<Rightarrow> OrderId \<Rightarrow> Price \<Rightarrow> Qty \<Rightarrow> bool \<times> SpecBook" where
  "spec_modify sb oid p q =
     (let seq = s_seq sb; sb = sb\<lparr>s_seq := seq + 1\<rparr>
      in if q = 0 then (False, sb)
         else case lookup_id sb oid of
           None \<Rightarrow> (False, sb)
         | Some x \<Rightarrow>
             let s = r_side x
             in if p = r_price x \<and> q \<le> r_qty x
                then (True, set_queue sb s (set_qty oid q (s_queue sb s)))
                else if spec_would_cross sb s p then (False, sb)
                else (True, set_queue sb s (enqueue s (x\<lparr>r_price := p, r_qty := q, r_seq_no := seq\<rparr>)
                       (remove_id oid (s_queue sb s)))))"

section \<open>Accessor lemmas\<close>

lemma queue_simps [simp]:
  "s_queue (set_queue sb s xs) s' = (if s' = s then xs else s_queue sb s')"
  "s_cap (set_queue sb s xs) = s_cap sb" "s_seq (set_queue sb s xs) = s_seq sb"
  "s_tid (set_queue sb s xs) = s_tid sb"
  "s_queue (sb\<lparr>s_seq := n\<rparr>) s = s_queue sb s" "s_queue (sb\<lparr>s_tid := n'\<rparr>) s = s_queue sb s"
  "s_orders (sb\<lparr>s_seq := n\<rparr>) = s_orders sb" "s_orders (sb\<lparr>s_tid := n'\<rparr>) = s_orders sb"
  by (cases s; cases s'; simp add: s_queue_def set_queue_def s_orders_def)+

lemma opposite_simps [simp]: "opposite Buy = Sell" "opposite Sell = Buy" "opposite (opposite s) = s"
  "opposite s \<noteq> s" "s \<noteq> opposite s"
  by (cases s; simp add: opposite_def)+

lemma s_orders_sides: "set (s_orders sb) = set (s_queue sb s) \<union> set (s_queue sb (opposite s))"
  by (cases s) (auto simp: s_orders_def s_queue_def)

lemma length_s_orders: "length (s_orders sb) = length (s_queue sb s) + length (s_queue sb (opposite s))"
  by (cases s) (auto simp: s_orders_def s_queue_def)

lemma fillable_Nil [simp]: "fillable ok acct [] = 0"
  by (simp add: fillable_def)

lemma fillable_Cons [simp]:
  "fillable ok acct (x # xs) =
     (if ok (r_price x) \<and> r_account x \<noteq> acct then unat (r_qty x) + fillable ok acct xs else 0)"
proof -
  let ?P = "\<lambda>x. ok (r_price x) \<and> r_account x \<noteq> acct"
  have "takeWhile ?P (x # xs) = (if ?P x then x # takeWhile ?P xs else [])"
    by simp
  then show ?thesis
    by (cases "?P x") (simp_all only: fillable_def if_True if_False list.map sum_list.Cons sum_list.Nil simp_thms)
qed

lemma fillable_append:
  "fillable ok acct (xs @ ys) = fillable ok acct xs +
     (if \<forall>x \<in> set xs. ok (r_price x) \<and> r_account x \<noteq> acct then fillable ok acct ys else 0)"
  by (induction xs) auto

end
