(* ===== verification/Book_Repr.thy ===== *)
theory Book_Repr
  imports Matching_Spec
begin

text \<open>
  The representation relation of the book. \<open>L s\<close> lists, for each level of side \<open>s\<close> from worst to
  best, the pool indices linked into it. The relation is split in two: how the levels are laid
  out in the pool, and how the id map agrees with the pool. \<open>D\<close> is the set of live orders that
  are not linked anywhere, which is empty between commands.
\<close>

section \<open>One side\<close>

definition level_ok :: "order_map \<Rightarrow> Side \<Rightarrow> Level \<Rightarrow> Index list \<Rightarrow> bool" where
  "level_ok m s lv xs \<longleftrightarrow> level_repr m lv xs \<and>
     (\<forall>i \<in> set xs. \<exists>x. m i = Some x \<and> side x = s \<and> price x = lv_price lv \<and> qty x > 0)"

text \<open>\<open>side_repr\<close> allows empty levels, which exist while a command runs.\<close>

definition side_repr :: "order_map \<Rightarrow> Side \<Rightarrow> PriceLevels \<Rightarrow> Index list list \<Rightarrow> bool" where
  "side_repr m s pl xss \<longleftrightarrow> levels_inv (best_of s) pl \<and> list_all2 (level_ok m s) (active pl) xss"

definition queue_of :: "order_map \<Rightarrow> Index list list \<Rightarrow> queue" where
  "queue_of m xss = map (\<lambda>i. resting_of (the (m i))) (concat (rev xss))"

lemma queue_of_append [simp]: "queue_of m (xss @ yss) = queue_of m yss @ queue_of m xss"
  by (simp add: queue_of_def)

lemma queue_of_single [simp]: "queue_of m (xs # yss) = queue_of m yss @ map (\<lambda>i. resting_of (the (m i))) xs"
  "queue_of m [] = []"
  by (simp_all add: queue_of_def)

lemma queue_of_frame: "(\<And>i. i \<in> set (concat xss) \<Longrightarrow> m' i = m i) \<Longrightarrow> queue_of m' xss = queue_of m xss"
  by (auto simp: queue_of_def)

lemma level_ok_frame:
  "level_ok m s lv xs \<Longrightarrow> (\<And>i. i \<in> set xs \<Longrightarrow> m' i = m i) \<Longrightarrow> level_ok m' s lv xs"
  by (auto simp: level_ok_def intro: level_repr_frame)

lemma level_oks_frame:
  assumes "list_all2 (level_ok m s) lvs xss" "\<And>i. i \<in> set (concat xss) \<Longrightarrow> m' i = m i"
  shows "list_all2 (level_ok m' s) lvs xss"
  using assms by (induction rule: list_all2_induct) (auto intro: level_ok_frame)

lemma side_repr_frame:
  "side_repr m s pl xss \<Longrightarrow> (\<And>i. i \<in> set (concat xss) \<Longrightarrow> m' i = m i) \<Longrightarrow> side_repr m' s pl xss"
  by (auto simp: side_repr_def intro: level_oks_frame)

lemma side_repr_length: "side_repr m s pl xss \<Longrightarrow> count pl = length xss"
  using levels_inv_length list_all2_lengthD by (fastforce simp: side_repr_def)

lemma side_repr_member:
  assumes "side_repr m s pl xss" "i \<in> set (concat xss)"
  obtains x where "m i = Some x" "side x = s" "qty x > 0"
proof -
  have "list_all2 (level_ok m s) (active pl) xss"
    using assms(1) by (simp add: side_repr_def)
  then have "\<exists>x. m i = Some x \<and> side x = s \<and> qty x > 0"
    using assms(2) by (induction rule: list_all2_induct) (auto simp: level_ok_def)
  then show ?thesis using that by blast
qed

text \<open>The level that holds a given position of the list of lists.\<close>

lemma side_repr_split:
  assumes "side_repr m s pl (As @ xs # Bs)"
  obtains as lv bs where "active pl = as @ lv # bs" "length as = length As" "level_ok m s lv xs"
    "level_at pl (length As) = Some lv" "list_all2 (level_ok m s) as As" "list_all2 (level_ok m s) bs Bs"
    "levels_inv (best_of s) pl"
proof -
  have inv: "levels_inv (best_of s) pl" and all: "list_all2 (level_ok m s) (active pl) (As @ xs # Bs)"
    using assms by (auto simp: side_repr_def)
  from all obtain as lv bs where ab: "active pl = as @ lv # bs" "list_all2 (level_ok m s) as As"
      "level_ok m s lv xs" "list_all2 (level_ok m s) bs Bs"
    by (auto simp: list_all2_append2 list_all2_Cons2)
  moreover have "length as = length As"
    using ab(2) by (rule list_all2_lengthD)
  ultimately show ?thesis
    using that inv level_at_active [OF inv ab(1)] by simp
qed

text \<open>Replace the level at a position by one with another list of orders.\<close>

lemma side_repr_set:
  assumes rep: "side_repr m s pl (As @ xs # Bs)"
    and lv: "level_at pl (length As) = Some lv" "lv_price lv' = lv_price lv" "level_ok m' s lv' xs'"
    and frame: "\<And>i. i \<in> set (concat As) \<union> set (concat Bs) \<Longrightarrow> m' i = m i"
  obtains pl' where "set_level_at pl (length As) lv' = Some pl'" "side_repr m' s pl' (As @ xs' # Bs)"
    "length (levels pl') = length (levels pl)"
proof -
  obtain as lv0 bs where ab: "active pl = as @ lv0 # bs" "length as = length As"
      "level_at pl (length As) = Some lv0" "list_all2 (level_ok m s) as As" "list_all2 (level_ok m s) bs Bs"
      "levels_inv (best_of s) pl"
    using rep by (rule side_repr_split)
  then have "lv_price lv' = lv_price lv0"
    using lv by simp
  then obtain pl' where pl': "set_level_at pl (length as) lv' = Some pl'" "active pl' = as @ lv' # bs"
      "levels_inv (best_of s) pl'" "length (levels pl') = length (levels pl)"
    using set_level_at_active [OF ab(6) ab(1)] by blast
  have "list_all2 (level_ok m' s) as As" "list_all2 (level_ok m' s) bs Bs"
    using ab(4,5) frame by (auto intro: level_oks_frame)
  then have "side_repr m' s pl' (As @ xs' # Bs)"
    using pl' lv(3) by (simp add: side_repr_def list_all2_appendI)
  then show ?thesis
    using that pl' ab(2) by simp
qed

lemma side_repr_erase:
  assumes rep: "side_repr m s pl (As @ xs # Bs)" and lv: "level_at pl (length As) = Some lv" "lv_price lv = p"
  obtains pl' where "PriceLevels_erase (best_of s) pl p = Some pl'" "side_repr m s pl' (As @ Bs)"
    "length (levels pl') = length (levels pl)"
proof -
  obtain as lv0 bs where ab: "active pl = as @ lv0 # bs" "level_at pl (length As) = Some lv0"
      "list_all2 (level_ok m s) as As" "list_all2 (level_ok m s) bs Bs" "levels_inv (best_of s) pl"
    using rep by (rule side_repr_split)
  then have "lv_price lv0 = p"
    using lv by simp
  then obtain pl' where "PriceLevels_erase (best_of s) pl p = Some pl'" "active pl' = as @ bs"
      "levels_inv (best_of s) pl'" "length (levels pl') = length (levels pl)"
    using erase_present [OF ab(5) ab(1)] by blast
  with ab that show ?thesis
    by (simp add: side_repr_def list_all2_appendI)
qed

lemma side_repr_pop:
  assumes rep: "side_repr m s pl (As @ [xs])"
  obtains pl' where "PriceLevels_pop_best pl = Some pl'" "side_repr m s pl' As"
    "length (levels pl') = length (levels pl)"
proof -
  obtain as lv bs where ab: "active pl = as @ lv # bs" "list_all2 (level_ok m s) as As"
      "list_all2 (level_ok m s) bs []" "levels_inv (best_of s) pl"
    using rep by (rule side_repr_split)
  then have "active pl = as @ [lv]" by simp
  with ab(4) obtain pl' where "PriceLevels_pop_best pl = Some pl'" "active pl' = as"
      "levels_inv (best_of s) pl'" "length (levels pl') = length (levels pl)"
    by (rule pop_best_active)
  with ab that show ?thesis
    by (simp add: side_repr_def)
qed

text \<open>Prices of the orders of a side, level by level.\<close>

lemma level_ok_price:
  "level_ok m s lv xs \<Longrightarrow> i \<in> set xs \<Longrightarrow> r_price (resting_of (the (m i))) = lv_price lv"
  by (auto simp: level_ok_def resting_of_def)

lemma queue_of_price:
  assumes "list_all2 (level_ok m s) lvs xss" "y \<in> set (queue_of m xss)"
  shows "\<exists>lv \<in> set lvs. r_price y = lv_price lv"
  using assms by (induction rule: list_all2_induct) (auto dest: level_ok_price)

text \<open>\<open>get_or_insert\<close>: the level for a price, among worse ones before it and better ones behind it.\<close>

lemma level_ok_new: "level_ok m s (new_level p) []"
  by (simp add: level_ok_def level_repr_def new_level_def)

lemma side_repr_goi:
  assumes rep: "side_repr m s pl xss" and room: "count pl < length (levels pl)"
  obtains pl' As xs Bs lv where
    "PriceLevels_get_or_insert (best_of s) pl p = Some (length As, pl')" "side_repr m s pl' (As @ xs # Bs)"
    "level_at pl' (length As) = Some lv" "lv_price lv = p" "length (levels pl') = length (levels pl)"
    "xss = As @ xs # Bs \<or> xs = [] \<and> xss = As @ Bs"
    "\<And>y. y \<in> set (queue_of m As) \<Longrightarrow> better (best_of s) p (r_price y)"
    "\<And>y. y \<in> set (queue_of m Bs) \<Longrightarrow> better (best_of s) (r_price y) p"
proof -
  let ?B = "best_of s"
  have inv: "levels_inv ?B pl" and all: "list_all2 (level_ok m s) (active pl) xss"
    using rep by (auto simp: side_repr_def)
  show ?thesis
  proof (cases "p \<in> lv_price ` set (active pl)")
    case True
    then obtain as lv bs where ab: "active pl = as @ lv # bs" "lv_price lv = p"
      by (auto dest: split_list)
    from all obtain As xs Bs where AB: "xss = As @ xs # Bs" "list_all2 (level_ok m s) as As"
        "list_all2 (level_ok m s) bs Bs" "length as = length As"
      unfolding ab(1) by (auto simp: list_all2_append1 list_all2_Cons1)
    have sorted: "\<And>l. l \<in> set as \<Longrightarrow> better ?B p (lv_price l)" "\<And>l. l \<in> set bs \<Longrightarrow> better ?B (lv_price l) p"
      using inv ab by (auto simp: levels_inv_def sorted_wrt_append)
    have "better ?B p (r_price y)" if "y \<in> set (queue_of m As)" for y
      using queue_of_price [OF AB(2) that] sorted(1) by auto
    moreover have "better ?B (r_price y) p" if "y \<in> set (queue_of m Bs)" for y
      using queue_of_price [OF AB(3) that] sorted(2) by auto
    ultimately show ?thesis
      using that [of As pl xs Bs lv] get_or_insert_present [OF inv ab] level_at_active [OF inv ab(1)] AB rep ab
      by simp
  next
    case False
    obtain as bs pl' where ab: "active pl = as @ bs"
        "PriceLevels_get_or_insert ?B pl p = Some (length as, pl')" "active pl' = as @ new_level p # bs"
        "levels_inv ?B pl'" "length (levels pl') = length (levels pl)"
        "\<And>l. l \<in> set as \<Longrightarrow> better ?B p (lv_price l)" "\<And>l. l \<in> set bs \<Longrightarrow> better ?B (lv_price l) p"
      using get_or_insert_absent [OF inv False room] by blast
    from all obtain As Bs where AB: "xss = As @ Bs" "list_all2 (level_ok m s) as As"
        "list_all2 (level_ok m s) bs Bs" "length as = length As"
      unfolding ab(1) by (auto simp: list_all2_append1)
    have "better ?B p (r_price y)" if "y \<in> set (queue_of m As)" for y
      using queue_of_price [OF AB(2) that] ab(6) by auto
    moreover have "better ?B (r_price y) p" if "y \<in> set (queue_of m Bs)" for y
      using queue_of_price [OF AB(3) that] ab(7) by auto
    moreover have "side_repr m s pl' (As @ [] # Bs)"
      using ab AB level_ok_new by (simp add: side_repr_def list_all2_appendI)
    moreover have "level_at pl' (length As) = Some (new_level p)" "lv_price (new_level p) = p"
      using level_at_active [OF ab(4) ab(3)] AB(4) by (simp_all add: new_level_def)
    ultimately show ?thesis
      using that [of As pl' "[]" Bs "new_level p"] ab(2,5) AB(1,4) by simp
  qed
qed

text \<open>Appending an order to the level for its price is \<open>enqueue\<close> on the queue of the side.\<close>

lemma enqueue_split:
  assumes "\<And>y. y \<in> set hi \<Longrightarrow> better (best_of s) (r_price y) (r_price x)"
    and "\<And>y. y \<in> set eq \<Longrightarrow> r_price y = r_price x"
    and "\<And>y. y \<in> set lo \<Longrightarrow> better (best_of s) (r_price x) (r_price y)"
  shows "enqueue s x (hi @ eq @ lo) = hi @ eq @ [x] @ lo"
proof -
  let ?P = "\<lambda>y. \<not> better (best_of s) (r_price x) (r_price y)"
  have pre: "\<And>y. y \<in> set (hi @ eq) \<Longrightarrow> ?P y"
    using assms side_order.asym side_order.irrefl by (metis Un_iff set_append)
  have "takeWhile ?P lo = []" "dropWhile ?P lo = lo"
    using assms(3) by (cases lo; simp)+
  then have "takeWhile ?P (hi @ eq @ lo) = hi @ eq" "dropWhile ?P (hi @ eq @ lo) = lo"
    using pre takeWhile_append2 [of "hi @ eq" ?P lo] dropWhile_append2 [of "hi @ eq" ?P lo] by simp_all
  then show ?thesis
    by (simp add: enqueue_def)
qed


section \<open>The whole book\<close>

type_synonym layout = "Side \<Rightarrow> Index list list"

definition linked :: "layout \<Rightarrow> Index set" where
  "linked L = set (concat (L Buy)) \<union> set (concat (L Sell))"

definition layout_ok :: "layout \<Rightarrow> Index set \<Rightarrow> order_map \<Rightarrow> bool" where
  "layout_ok L D m \<longleftrightarrow> distinct (concat (L Buy)) \<and> distinct (concat (L Sell)) \<and>
     set (concat (L Buy)) \<inter> set (concat (L Sell)) = {} \<and> linked L \<inter> D = {} \<and> linked L \<union> D = dom m"

abbreviation orders :: "Book \<Rightarrow> order_map" where
  "orders b \<equiv> unchecked_at (pool b)"

definition book_repr :: "Book \<Rightarrow> layout \<Rightarrow> Index set \<Rightarrow> bool" where
  "book_repr b L D \<longleftrightarrow> pool_inv (pool b) \<and> (\<forall>s. side_repr (orders b) s (levels_of b s) (L s)) \<and>
     layout_ok L D (orders b) \<and>
     (\<forall>s. length (levels (levels_of b s)) = length (slots (pool b)) + 1)"

text \<open>The id map holds exactly the live orders, each under the handle of its slot, in the table it was built with.\<close>

definition ids_ok :: "order_pool \<Rightarrow> IdMap \<Rightarrow> bool" where
  "ids_ok p idm \<longleftrightarrow> idmap_inv idm \<and> 2 * length (slots p) \<le> length (table idm) \<and>
     length (table idm) = length (table (IdMap_new (of_nat (length (slots p))))) \<and>
     (\<forall>oid h. idm_map idm oid = Some h \<longleftrightarrow>
        (\<exists>i x. unchecked_at p i = Some x \<and> order_id x = oid \<and> h = handle_of p i))"

definition settled :: "layout \<Rightarrow> bool" where
  "settled L \<longleftrightarrow> [] \<notin> set (L Buy) \<and> [] \<notin> set (L Sell)"

definition book_ok :: "Book \<Rightarrow> layout \<Rightarrow> bool" where
  "book_ok b L \<longleftrightarrow> book_repr b L {} \<and> ids_ok (pool b) (id_map b) \<and> settled L"

lemma levels_of_simps [simp]:
  "levels_of (set_levels_of b s pl) s' = (if s' = s then pl else levels_of b s')"
  "pool (set_levels_of b s pl) = pool b" "id_map (set_levels_of b s pl) = id_map b"
  "next_seq (set_levels_of b s pl) = next_seq b" "next_trade_id (set_levels_of b s pl) = next_trade_id b"
  "levels_of (b\<lparr>pool := p\<rparr>) s = levels_of b s" "levels_of (b\<lparr>id_map := idm\<rparr>) s = levels_of b s"
  "levels_of (b\<lparr>next_seq := n\<rparr>) s = levels_of b s" "levels_of (b\<lparr>next_trade_id := t\<rparr>) s = levels_of b s"
  by (cases s; cases s'; simp add: levels_of_def set_levels_of_def)+

lemma linked_side: "linked L = set (concat (L s)) \<union> set (concat (L (opposite s)))"
  by (cases s) (auto simp: linked_def)

lemma layout_ok_side:
  "layout_ok L D m \<longleftrightarrow> distinct (concat (L s)) \<and> distinct (concat (L (opposite s))) \<and>
     set (concat (L s)) \<inter> set (concat (L (opposite s))) = {} \<and>
     (set (concat (L s)) \<union> set (concat (L (opposite s)))) \<inter> D = {} \<and>
     set (concat (L s)) \<union> set (concat (L (opposite s))) \<union> D = dom m"
  by (cases s) (auto simp: layout_ok_def linked_def)

lemma settled_side: "settled L \<longleftrightarrow> [] \<notin> set (L s) \<and> [] \<notin> set (L (opposite s))"
  by (cases s) (auto simp: settled_def)

lemma book_reprD:
  assumes "book_repr b L D"
  shows "pool_inv (pool b)" "side_repr (orders b) s (levels_of b s) (L s)" "layout_ok L D (orders b)"
    "length (levels (levels_of b s)) = length (slots (pool b)) + 1"
  using assms by (auto simp: book_repr_def)

lemma card_orders_le: "pool_inv p \<Longrightarrow> card (dom (unchecked_at p)) \<le> length (slots p)"
  using free_repr_share by (fastforce simp: pool_inv_def)

text \<open>Between commands there is always room for one more level.\<close>

lemma length_le_concat: "[] \<notin> set xss \<Longrightarrow> length xss \<le> length (concat xss)"
proof (induction xss)
  case (Cons xs xss)
  then show ?case by (cases xs) auto
qed simp

lemma room_for_level:
  assumes "book_repr b L D" "settled L"
  shows "count (levels_of b s) < length (levels (levels_of b s))"
proof -
  have "length (L s) \<le> length (concat (L s))"
    using assms(2) by (intro length_le_concat) (simp add: settled_side [of L s])
  also have "\<dots> = card (set (concat (L s)))"
    using book_reprD(3) [OF assms(1)] by (simp add: layout_ok_side [of L D _ s] distinct_card del: set_concat)
  also have "\<dots> \<le> card (dom (orders b))"
    using book_reprD(3) [OF assms(1)] by (intro card_mono) (auto simp: layout_ok_side [of L D _ s])
  also have "\<dots> \<le> length (slots (pool b))"
    using book_reprD(1) [OF assms(1)] by (rule card_orders_le)
  finally show ?thesis
    using book_reprD(4) [OF assms(1), of s] side_repr_length [OF book_reprD(2) [OF assms(1), of s]] by simp
qed

text \<open>The id map only sees the ids and the generations of the live orders.\<close>

lemma ids_ok_cong:
  assumes ids: "ids_ok p idm" and len: "length (slots p') = length (slots p)"
    and gen: "generation p' = generation p"
    and same: "\<And>i. map_option order_id (unchecked_at p' i) = map_option order_id (unchecked_at p i)"
  shows "ids_ok p' idm"
proof -
  have "(\<exists>x. unchecked_at p' i = Some x \<and> order_id x = oid) \<longleftrightarrow>
      (\<exists>x. unchecked_at p i = Some x \<and> order_id x = oid)" for i oid
    using same [of i] by (cases "unchecked_at p' i"; cases "unchecked_at p i") auto
  then have "(\<exists>i x. unchecked_at p' i = Some x \<and> order_id x = oid \<and> h = handle_of p' i) \<longleftrightarrow>
      (\<exists>i x. unchecked_at p i = Some x \<and> order_id x = oid \<and> h = handle_of p i)" for oid h
    unfolding handle_of_def gen by (metis (no_types))
  then show ?thesis
    using ids by (simp add: ids_ok_def len)
qed

lemma ids_ok_links:
  assumes "ids_ok p idm" "links_frame p p' S"
  shows "ids_ok p' idm"
proof (rule ids_ok_cong [OF assms(1)])
  fix i
  have "map_option payload (unchecked_at p' i) = map_option payload (unchecked_at p i)"
    using assms(2) by (simp add: links_frame_def same_payload_def)
  then show "map_option order_id (unchecked_at p' i) = map_option order_id (unchecked_at p i)"
    by (cases "unchecked_at p' i"; cases "unchecked_at p i") (auto dest: arg_cong [where f = order_id])
qed (use assms in \<open>auto simp: links_frame_def\<close>)

lemma ids_ok_find:
  assumes "ids_ok p idm" "unchecked_at p i = Some x"
  shows "idm_map idm (order_id x) = Some (handle_of p i)"
  using assms by (auto simp: ids_ok_def)

lemma ids_ok_unique:
  assumes "ids_ok p idm" "unchecked_at p i = Some x" "unchecked_at p j = Some y" "order_id x = order_id y"
  shows "i = j"
proof -
  have "handle_of p i = handle_of p j"
    using ids_ok_find [OF assms(1,2)] ids_ok_find [OF assms(1,3)] assms(4) by simp
  then show ?thesis
    by (simp add: handle_of_def)
qed

text \<open>Freeing a live order and erasing its id, in either order.\<close>

lemma ids_ok_remove:
  assumes ids: "ids_ok p idm" and inv: "pool_inv p" and x: "unchecked_at p i = Some x"
  obtains idm' where "IdMap_erase idm (order_id x) = Some (True, idm')"
    "ids_ok (pool_free p (handle_of p i)) idm'"
proof -
  let ?p' = "pool_free p (handle_of p i)"
  note fr = pool_free_occupied [OF inv x]
  have inv_m: "idmap_inv idm"
    using ids by (simp add: ids_ok_def)
  obtain idm' where e: "IdMap_erase idm (order_id x) = Some (True, idm')" "idmap_inv idm'"
      "idm_map idm' = (idm_map idm)(order_id x := None)" "length (table idm') = length (table idm)"
    using IdMap_erase_ok [OF inv_m, of "order_id x"] ids_ok_find [OF ids x] by auto
  have "idm_map idm' oid = Some h \<longleftrightarrow>
      (\<exists>j y. unchecked_at ?p' j = Some y \<and> order_id y = oid \<and> h = handle_of ?p' j)" for oid h
  proof -
    have "(\<exists>j y. unchecked_at ?p' j = Some y \<and> order_id y = oid \<and> h = handle_of ?p' j) \<longleftrightarrow>
        (\<exists>j y. j \<noteq> i \<and> unchecked_at p j = Some y \<and> order_id y = oid \<and> h = handle_of p j)"
      unfolding fr(2) using handle_of_after_free [OF inv x] by (metis fun_upd_apply option.distinct(1))
    also have "\<dots> \<longleftrightarrow> oid \<noteq> order_id x \<and> idm_map idm oid = Some h"
    proof
      assume "\<exists>j y. j \<noteq> i \<and> unchecked_at p j = Some y \<and> order_id y = oid \<and> h = handle_of p j"
      then show "oid \<noteq> order_id x \<and> idm_map idm oid = Some h"
        using ids_ok_unique [OF ids x] ids_ok_find [OF ids] by metis
    next
      assume r: "oid \<noteq> order_id x \<and> idm_map idm oid = Some h"
      then obtain j y where j: "unchecked_at p j = Some y" "order_id y = oid" "h = handle_of p j"
        using ids by (auto simp: ids_ok_def)
      moreover have "j \<noteq> i"
        using r j x by auto
      ultimately show "\<exists>j y. j \<noteq> i \<and> unchecked_at p j = Some y \<and> order_id y = oid \<and> h = handle_of p j"
        by blast
    qed
    finally show ?thesis
      using e(3) by auto
  qed
  then have "ids_ok ?p' idm'"
    using e ids fr(4) by (simp add: ids_ok_def)
  with e(1) that show ?thesis by blast
qed

text \<open>The size of the id map is the number of live orders.\<close>

lemma ids_ok_entries:
  assumes ids: "ids_ok p idm"
  shows "entries idm = card (dom (unchecked_at p))"
proof -
  let ?f = "\<lambda>i. order_id (the (unchecked_at p i))"
  have "inj_on ?f (dom (unchecked_at p))"
    by (rule inj_onI) (use ids_ok_unique [OF ids] in force)
  moreover have "dom (idm_map idm) = ?f ` dom (unchecked_at p)"
  proof (intro set_eqI iffI)
    fix oid
    assume "oid \<in> dom (idm_map idm)"
    then obtain i x where "unchecked_at p i = Some x" "order_id x = oid"
      using ids by (auto simp: ids_ok_def)
    then show "oid \<in> ?f ` dom (unchecked_at p)"
      by (intro image_eqI [where x = i]) auto
  next
    fix oid
    assume "oid \<in> ?f ` dom (unchecked_at p)"
    then show "oid \<in> dom (idm_map idm)"
      using ids_ok_find [OF ids] by force
  qed
  ultimately show ?thesis
    using entries_eq [of idm] ids card_image [of ?f] by (simp add: ids_ok_def)
qed

text \<open>Entering the id of a freshly allocated order.\<close>

lemma ids_ok_insert:
  assumes ids: "ids_ok p idm" and inv: "pool_inv p'" and new: "unchecked_at p i = None"
    and p': "unchecked_at p' = (unchecked_at p)(i \<mapsto> x)" "generation p' = generation p"
      "length (slots p') = length (slots p)"
    and fresh: "idm_map idm (order_id x) = None" and valid: "Handle_valid (handle_of p' i)"
  obtains idm' where "IdMap_insert idm (order_id x) (handle_of p' i) = Some idm'" "ids_ok p' idm'"
proof -
  have "card (dom (unchecked_at p')) = Suc (card (dom (unchecked_at p)))"
    using new p'(1) by (simp add: domIff)
  then have "entries idm < length (slots p)"
    using card_orders_le [OF inv] ids_ok_entries [OF ids] p'(3) by simp
  moreover have "2 * length (slots p) \<le> length (table idm)"
    using ids by (simp add: ids_ok_def)
  ultimately have room: "entries idm < length (table idm) div 2"
    by linarith
  have inv_m: "idmap_inv idm"
    using ids by (simp add: ids_ok_def)
  obtain idm' where e: "IdMap_insert idm (order_id x) (handle_of p' i) = Some idm'" "idmap_inv idm'"
      "idm_map idm' = (idm_map idm)(order_id x \<mapsto> handle_of p' i)" "entries idm' = entries idm + 1"
      "length (table idm') = length (table idm)"
    by (rule IdMap_insert_ok [OF inv_m fresh valid room])
  have hnd: "handle_of p' j = handle_of p j" for j
    using p'(2) by (simp add: handle_of_def)
  have "idm_map idm' oid = Some h \<longleftrightarrow>
      (\<exists>j y. unchecked_at p' j = Some y \<and> order_id y = oid \<and> h = handle_of p' j)" for oid h
  proof (cases "oid = order_id x")
    case True
    have only: "j = i" if "unchecked_at p' j = Some y" "order_id y = oid" for j y
      using that ids_ok_find [OF ids, of j y] fresh p'(1) True by (auto split: if_splits)
    have "unchecked_at p' i = Some x"
      using p'(1) by simp
    moreover have "idm_map idm' oid = Some h \<longleftrightarrow> h = handle_of p' i"
      using True e(3) by auto
    ultimately show ?thesis
      using only True by metis
  next
    case False
    have "idm_map idm' oid = Some h \<longleftrightarrow>
        (\<exists>j y. unchecked_at p j = Some y \<and> order_id y = oid \<and> h = handle_of p j)"
      using False e(3) ids by (simp add: ids_ok_def)
    also have "\<dots> \<longleftrightarrow> (\<exists>j y. unchecked_at p' j = Some y \<and> order_id y = oid \<and> h = handle_of p' j)"
    proof -
      have "unchecked_at p j = Some y \<longleftrightarrow> unchecked_at p' j = Some y" if "order_id y = oid" for j y
        using that False new p'(1) by auto
      then show ?thesis
        unfolding hnd by metis
    qed
    finally show ?thesis .
  qed
  then have "ids_ok p' idm'"
    using e ids p'(3) by (simp add: ids_ok_def)
  with e(1) that show ?thesis by blast
qed

lemma Book_new_ok: "book_ok (Book_new c) (\<lambda>_. [])"
proof -
  have "side_repr (orders (Book_new c)) s (levels_of (Book_new c) s) []" for s
    using levels_inv_new by (cases s) (simp_all add: side_repr_def Book_new_def levels_of_def)
  moreover have "length (levels (levels_of (Book_new c) s)) = length (slots (pool (Book_new c))) + 1" for s
    by (cases s) (simp_all add: Book_new_def levels_of_def PriceLevels_new_def)
  ultimately have "book_repr (Book_new c) (\<lambda>_. []) {}"
    using FixedPool_new_inv [of c] by (simp add: book_repr_def layout_ok_def linked_def Book_new_def dom_def)
  moreover have "ids_ok (pool (Book_new c)) (id_map (Book_new c))"
    using IdMap_new_inv [of c] by (simp add: ids_ok_def Book_new_def)
  ultimately show ?thesis
    by (simp add: book_ok_def settled_def)
qed

end
