(* ===== verification/Book_Steps.thy ===== *)
theory Book_Steps
  imports Book_Repr
begin

text \<open>
  What each small step of a command does to the representation of the book: unlinking and
  appending an order, creating and erasing a level, allocating and freeing a slot, and writing the
  fields of an order. The commands are sequences of these.
\<close>

section \<open>The queue only sees payloads\<close>

lemma resting_of_payload [simp]: "resting_of (payload x) = resting_of x"
  by (simp add: resting_of_def)

lemma resting_of_eqI: "payload x = payload y \<Longrightarrow> resting_of x = resting_of y"
  by (metis resting_of_payload)

lemma same_payload_resting:
  assumes "same_payload m m'" "i \<in> dom m"
  shows "resting_of (the (m' i)) = resting_of (the (m i))"
  using assms same_payload_get [OF assms(1)] by (auto simp: domIff intro: resting_of_eqI) (metis option.sel resting_of_eqI)

lemma queue_of_payload:
  assumes "same_payload m m'" "set (concat xss) \<subseteq> dom m"
  shows "queue_of m' xss = queue_of m xss"
  using assms by (auto simp: queue_of_def intro!: same_payload_resting)

lemma payload_fields:
  assumes "payload y = payload x"
  shows "side y = side x" "price y = price x" "qty y = qty x" "order_id y = order_id x"
    "account y = account x" "seq_no y = seq_no x"
proof -
  have "side (payload y) = side (payload x)" "price (payload y) = price (payload x)"
    "qty (payload y) = qty (payload x)" "order_id (payload y) = order_id (payload x)"
    "account (payload y) = account (payload x)" "seq_no (payload y) = seq_no (payload x)"
    by (simp_all only: assms)
  then show "side y = side x" "price y = price x" "qty y = qty x" "order_id y = order_id x"
    "account y = account x" "seq_no y = seq_no x"
    by simp_all
qed

lemma level_ok_links:
  assumes "\<forall>i \<in> set xs. \<exists>x. m i = Some x \<and> side x = s \<and> price x = p \<and> qty x > 0" "same_payload m m'"
    and "level_repr m' lv xs" "lv_price lv = p"
  shows "level_ok m' s lv xs"
proof -
  have "\<exists>y. m' i = Some y \<and> side y = s \<and> price y = p \<and> qty y > 0" if i: "i \<in> set xs" for i
  proof -
    obtain x where x: "m i = Some x" "side x = s" "price x = p" "qty x > 0"
      using assms(1) i by blast
    then obtain y where "m' i = Some y" "payload y = payload x"
      using same_payload_get [OF assms(2)] by blast
    then show ?thesis
      using x payload_fields [of y x] by auto
  qed
  with assms(3,4) show ?thesis
    by (simp add: level_ok_def)
qed

lemma level_ok_repr: "level_ok m s lv xs \<Longrightarrow> level_repr m lv xs"
  by (simp add: level_ok_def)

section \<open>Steps on the layout\<close>

lemma book_repr_side:
  "book_repr b L D \<longleftrightarrow> pool_inv (pool b) \<and> side_repr (orders b) s (levels_of b s) (L s) \<and>
     side_repr (orders b) (opposite s) (levels_of b (opposite s)) (L (opposite s)) \<and> layout_ok L D (orders b) \<and>
     length (levels (levels_of b s)) = length (slots (pool b)) + 1 \<and>
     length (levels (levels_of b (opposite s))) = length (slots (pool b)) + 1"
proof -
  have all: "(\<forall>t. P t) \<longleftrightarrow> P s \<and> P (opposite s)" for P
    by (cases s) (auto, (metis Side.exhaust)+)
  show ?thesis
    unfolding book_repr_def all [of "\<lambda>s. side_repr (orders b) s (levels_of b s) (L s)"]
      all [of "\<lambda>s. length (levels (levels_of b s)) = length (slots (pool b)) + 1"]
    by blast
qed

lemma book_repr_dom: "book_repr b L D \<Longrightarrow> set (concat (L s)) \<subseteq> dom (orders b)"
  using book_reprD(3) [of b L D] by (auto simp: layout_ok_side [of _ _ _ s])

text \<open>Where a linked order sits, and how \<open>level_for\<close> finds its level.\<close>

lemma linked_position:
  assumes rep: "book_repr b L D" and i: "i \<in> set (concat (L s))"
  obtains As xs ys Bs lv x where "L s = As @ (xs @ i # ys) # Bs"
    "level_at (levels_of b s) (length As) = Some lv" "orders b i = Some x" "side x = s"
    "price x = lv_price lv" "qty x > 0" "level_for b s (price x) = Some (length As)"
proof -
  have sr: "side_repr (orders b) s (levels_of b s) (L s)"
    using rep by (rule book_reprD)
  obtain xs0 where "xs0 \<in> set (L s)" "i \<in> set xs0"
    using i by auto
  then obtain As Bs xs ys where L: "L s = As @ (xs @ i # ys) # Bs"
    by (metis split_list)
  obtain as lv bs where lv: "active (levels_of b s) = as @ lv # bs" "length as = length As"
      "level_ok (orders b) s lv (xs @ i # ys)" "level_at (levels_of b s) (length As) = Some lv"
      "levels_inv (best_of s) (levels_of b s)"
    using sr unfolding L by (rule side_repr_split)
  obtain x where x: "orders b i = Some x" "side x = s" "price x = lv_price lv" "qty x > 0"
    using lv(3) by (auto simp: level_ok_def)
  have "level_for b s (price x) = Some (length As)"
    using PriceLevels_at_present [OF lv(5,1)] x(3) lv(2) by (simp add: level_for_def)
  with that L lv(4) x show ?thesis by blast
qed

lemma unlink_step:
  assumes rep: "book_repr b L D" and L: "L s = As @ (xs @ i # ys) # Bs"
    and lv: "level_at (levels_of b s) (length As) = Some lv"
  obtains lv' p' b' where "level_unlink lv (pool b) i = Some (lv', p')"
    "store_level (b\<lparr>pool := p'\<rparr>) s (length As) lv' = Some b'"
    "book_repr b' (L(s := As @ (xs @ ys) # Bs)) (insert i D)" "links_frame (pool b) (pool b') (set (xs @ i # ys))"
    "lv_price lv' = lv_price lv" "level_at (levels_of b' s) (length As) = Some lv'"
    "head lv' = kNilIndex \<longleftrightarrow> xs @ ys = []" "pool b' = p'" "id_map b' = id_map b"
    "next_seq b' = next_seq b" "next_trade_id b' = next_trade_id b"
proof -
  have sr: "side_repr (orders b) s (levels_of b s) (As @ (xs @ i # ys) # Bs)"
    using book_reprD(2) [OF rep, of s] L by simp
  have ok: "level_ok (orders b) s lv (xs @ i # ys)"
    using sr lv by (elim side_repr_split) simp
  have lay: "layout_ok L D (orders b)"
    using rep by (rule book_reprD)
  obtain lv' p' where u: "level_unlink lv (pool b) i = Some (lv', p')" "links_frame (pool b) p' (set (xs @ i # ys))"
      "level_repr (unchecked_at p') lv' (xs @ ys)" "lv_price lv' = lv_price lv"
      "unchecked_at p' i = map_option payload (orders b i)"
    by (rule level_unlink_repr [OF book_reprD(1) [OF rep] level_ok_repr [OF ok]])
  have ok': "level_ok (unchecked_at p') s lv' (xs @ ys)"
    using ok u by (intro level_ok_links [where m = "orders b"]) (auto simp: level_ok_def links_frame_def)
  have away: "unchecked_at p' j = orders b j"
    if "j \<in> set (concat As) \<union> set (concat Bs) \<union> set (concat (L (opposite s)))" for j
  proof -
    have "j \<notin> set (xs @ i # ys)"
      using that lay unfolding layout_ok_side [of L D _ s] L by auto
    then show ?thesis
      using u(2) by (auto simp: links_frame_def)
  qed
  obtain pl' where pl': "set_level_at (levels_of b s) (length As) lv' = Some pl'"
      "side_repr (unchecked_at p') s pl' (As @ (xs @ ys) # Bs)" "length (levels pl') = length (levels (levels_of b s))"
    using side_repr_set [OF sr lv u(4) ok'] away by auto
  define b' where "b' = set_levels_of (b\<lparr>pool := p'\<rparr>) s pl'"
  have "side_repr (unchecked_at p') (opposite s) (levels_of b (opposite s)) (L (opposite s))"
    by (rule side_repr_frame [OF book_reprD(2) [OF rep]]) (simp add: away)
  moreover have "dom (unchecked_at p') = dom (orders b)"
    using u(2) by (simp add: links_frame_def same_payload_dom)
  then have "layout_ok (L(s := As @ (xs @ ys) # Bs)) (insert i D) (unchecked_at p')"
    using lay unfolding layout_ok_side [of _ _ _ s] by (auto simp: L)
  ultimately have rep': "book_repr b' (L(s := As @ (xs @ ys) # Bs)) (insert i D)"
    using pl' u(2) book_reprD(4) [OF rep] unfolding book_repr_side [of _ _ _ s] b'_def by (simp add: links_frame_def)
  have "level_at pl' (length As) = Some lv'"
    using pl'(1) by (auto simp: set_level_at_def level_at_def upd_opt_def nth_opt_def split: if_splits)
  moreover have "head lv' = kNilIndex \<longleftrightarrow> xs @ ys = []"
    using u(3) by (rule level_repr_empty_iff)
  ultimately show ?thesis
    using that [of lv' p' b'] u rep' pl'(1) by (simp add: b'_def store_level_def)
qed

lemma append_step:
  assumes rep: "book_repr b L D" and L: "L s = As @ xs # Bs"
    and lv: "level_at (levels_of b s) (length As) = Some lv"
    and i: "i \<in> D" "orders b i = Some x" "side x = s" "price x = lv_price lv" "qty x > 0"
  obtains lv' p' b' where "level_append lv (pool b) i = Some (lv', p')"
    "store_level (b\<lparr>pool := p'\<rparr>) s (length As) lv' = Some b'"
    "book_repr b' (L(s := As @ (xs @ [i]) # Bs)) (D - {i})" "links_frame (pool b) (pool b') (insert i (set xs))"
    "pool b' = p'" "id_map b' = id_map b" "next_seq b' = next_seq b" "next_trade_id b' = next_trade_id b"
proof -
  have sr: "side_repr (orders b) s (levels_of b s) (As @ xs # Bs)"
    using book_reprD(2) [OF rep, of s] L by simp
  have ok: "level_ok (orders b) s lv xs"
    using sr lv by (elim side_repr_split) simp
  have lay: "layout_ok L D (orders b)"
    using rep by (rule book_reprD)
  have i_notin: "i \<notin> set xs"
    using lay i(1) unfolding layout_ok_side [of L D _ s] L by auto
  obtain lv' p' where u: "level_append lv (pool b) i = Some (lv', p')" "links_frame (pool b) p' (insert i (set xs))"
      "level_repr (unchecked_at p') lv' (xs @ [i])" "lv_price lv' = lv_price lv"
    by (rule level_append_repr [OF book_reprD(1) [OF rep] level_ok_repr [OF ok] i(2) i_notin])
  have ok': "level_ok (unchecked_at p') s lv' (xs @ [i])"
    using ok u i by (intro level_ok_links [where m = "orders b"]) (auto simp: level_ok_def links_frame_def)
  have away: "unchecked_at p' j = orders b j"
    if "j \<in> set (concat As) \<union> set (concat Bs) \<union> set (concat (L (opposite s)))" for j
  proof -
    have "j \<notin> insert i (set xs)"
      using that lay i(1) unfolding layout_ok_side [of L D _ s] L by auto
    then show ?thesis
      using u(2) by (auto simp: links_frame_def)
  qed
  obtain pl' where pl': "set_level_at (levels_of b s) (length As) lv' = Some pl'"
      "side_repr (unchecked_at p') s pl' (As @ (xs @ [i]) # Bs)" "length (levels pl') = length (levels (levels_of b s))"
    using side_repr_set [OF sr lv u(4) ok'] away by auto
  define b' where "b' = set_levels_of (b\<lparr>pool := p'\<rparr>) s pl'"
  have "side_repr (unchecked_at p') (opposite s) (levels_of b (opposite s)) (L (opposite s))"
    by (rule side_repr_frame [OF book_reprD(2) [OF rep]]) (simp add: away)
  moreover have "dom (unchecked_at p') = dom (orders b)"
    using u(2) by (simp add: links_frame_def same_payload_dom)
  then have "layout_ok (L(s := As @ (xs @ [i]) # Bs)) (D - {i}) (unchecked_at p')"
    using lay i(1) unfolding layout_ok_side [of _ _ _ s] by (auto simp: L)
  ultimately have "book_repr b' (L(s := As @ (xs @ [i]) # Bs)) (D - {i})"
    using pl' u(2) book_reprD(4) [OF rep] unfolding book_repr_side [of _ _ _ s] b'_def by (simp add: links_frame_def)
  then show ?thesis
    using that [of lv' p' b'] u pl'(1) by (simp add: b'_def store_level_def)
qed

lemma layout_ok_concat: "concat xss = concat (L s) \<Longrightarrow> layout_ok L D m \<Longrightarrow> layout_ok (L(s := xss)) D m"
  unfolding layout_ok_side [of _ _ _ s] by (simp del: set_concat)

text \<open>Creating the level for a price, or finding it.\<close>

lemma insert_level_step:
  assumes rep: "book_repr b L D" and room: "count (levels_of b s) < length (levels (levels_of b s))"
  obtains b' As xs Bs lv where "level_for_insert b s p = Some (length As, b')"
    "book_repr b' (L(s := As @ xs # Bs)) D" "level_at (levels_of b' s) (length As) = Some lv" "lv_price lv = p"
    "L s = As @ xs # Bs \<or> xs = [] \<and> L s = As @ Bs"
    "\<And>y. y \<in> set (queue_of (orders b) As) \<Longrightarrow> better (best_of s) p (r_price y)"
    "\<And>y. y \<in> set (queue_of (orders b) Bs) \<Longrightarrow> better (best_of s) (r_price y) p"
    "pool b' = pool b" "id_map b' = id_map b" "next_seq b' = next_seq b" "next_trade_id b' = next_trade_id b"
proof -
  obtain pl' As xs Bs lv where goi:
    "PriceLevels_get_or_insert (best_of s) (levels_of b s) p = Some (length As, pl')"
    "side_repr (orders b) s pl' (As @ xs # Bs)"
    "level_at pl' (length As) = Some lv" "lv_price lv = p" "length (levels pl') = length (levels (levels_of b s))"
    "L s = As @ xs # Bs \<or> xs = [] \<and> L s = As @ Bs"
    "\<And>y. y \<in> set (queue_of (orders b) As) \<Longrightarrow> better (best_of s) p (r_price y)"
    "\<And>y. y \<in> set (queue_of (orders b) Bs) \<Longrightarrow> better (best_of s) (r_price y) p"
    using side_repr_goi [OF book_reprD(2) [OF rep] room] by metis
  have "concat (As @ xs # Bs) = concat (L s)"
    using goi(6) by auto
  then have "layout_ok (L(s := As @ xs # Bs)) D (orders b)"
    using book_reprD(3) [OF rep] by (rule layout_ok_concat)
  then have "book_repr (set_levels_of b s pl') (L(s := As @ xs # Bs)) D"
    using rep goi(2,5) unfolding book_repr_side [of _ _ _ s] by simp
  with that [of As "set_levels_of b s pl'" xs Bs lv] goi show ?thesis
    by (simp add: level_for_insert_def)
qed

lemma erase_level_step:
  assumes rep: "book_repr b L D" and L: "L s = As @ [] # Bs"
    and lv: "level_at (levels_of b s) (length As) = Some lv" "lv_price lv = p"
  obtains b' where "erase_level b s p = Some b'" "book_repr b' (L(s := As @ Bs)) D"
    "pool b' = pool b" "id_map b' = id_map b" "next_seq b' = next_seq b" "next_trade_id b' = next_trade_id b"
proof -
  have "side_repr (orders b) s (levels_of b s) (As @ [] # Bs)"
    using book_reprD(2) [OF rep, of s] L by simp
  from this lv obtain pl' where pl': "PriceLevels_erase (best_of s) (levels_of b s) p = Some pl'"
      "side_repr (orders b) s pl' (As @ Bs)" "length (levels pl') = length (levels (levels_of b s))"
    by (rule side_repr_erase)
  have "layout_ok (L(s := As @ Bs)) D (orders b)"
    using book_reprD(3) [OF rep] by (intro layout_ok_concat) (simp_all add: L)
  then have "book_repr (set_levels_of b s pl') (L(s := As @ Bs)) D"
    using rep pl' unfolding book_repr_side [of _ _ _ s] by simp
  with that [of "set_levels_of b s pl'"] pl'(1) show ?thesis
    by (simp add: erase_level_def)
qed

section \<open>Steps on the pool\<close>

lemma book_repr_pool:
  assumes rep: "book_repr b L D" and inv: "pool_inv p'" "length (slots p') = length (slots (pool b))"
    and same: "\<And>j. j \<in> linked L \<Longrightarrow> unchecked_at p' j = orders b j"
    and D: "linked L \<inter> D' = {}" "linked L \<union> D' = dom (unchecked_at p')"
  shows "book_repr (b\<lparr>pool := p'\<rparr>) L D'"
proof -
  have "side_repr (unchecked_at p') s (levels_of b s) (L s)" for s
    by (rule side_repr_frame [OF book_reprD(2) [OF rep]]) (simp add: same linked_side [of L s])
  then show ?thesis
    using rep inv D by (simp add: book_repr_def layout_ok_def)
qed

lemma alloc_step:
  assumes rep: "book_repr b L D" and nonfull: "free_head (pool b) \<noteq> kNilIndex"
  obtains i p' where "allocate (pool b) x = Some (handle_of p' i, p')" "book_repr (b\<lparr>pool := p'\<rparr>) L (insert i D)"
    "orders b i = None" "unchecked_at p' = (orders b)(i \<mapsto> x)" "generation p' = generation (pool b)"
    "length (slots p') = length (slots (pool b))" "Handle_valid (handle_of p' i)"
proof -
  let ?i = "free_head (pool b)"
  obtain p' where p': "allocate (pool b) x = Some (handle_of (pool b) ?i, p')" "pool_inv p'" "orders b ?i = None"
      "unchecked_at p' = (orders b)(?i \<mapsto> x)" "generation p' = generation (pool b)"
      "length (slots p') = length (slots (pool b))" "Handle_valid (handle_of (pool b) ?i)"
    by (rule allocate_fresh [OF book_reprD(1) [OF rep] nonfull])
  have "linked L \<inter> D = {}" "linked L \<union> D = dom (orders b)"
    using book_reprD(3) [OF rep] by (auto simp: layout_ok_def)
  then have "book_repr (b\<lparr>pool := p'\<rparr>) L (insert ?i D)"
    using p' by (intro book_repr_pool [OF rep]) auto
  moreover have "handle_of p' ?i = handle_of (pool b) ?i"
    using p'(5) by (simp add: handle_of_def)
  ultimately show ?thesis
    using that [of p' ?i] p' by simp
qed

lemma free_step:
  assumes rep: "book_repr b L D" and i: "i \<in> D"
  shows "book_repr (b\<lparr>pool := pool_free (pool b) (handle_of (pool b) i)\<rparr>) L (D - {i})"
proof -
  have lay: "linked L \<inter> D = {}" "linked L \<union> D = dom (orders b)"
    using book_reprD(3) [OF rep] by (auto simp: layout_ok_def)
  then obtain x where "orders b i = Some x"
    using i by blast
  note fr = pool_free_occupied [OF book_reprD(1) [OF rep] this]
  show ?thesis
    using fr lay i by (intro book_repr_pool [OF rep]) auto
qed

text \<open>Writing fields of an order that is not linked.\<close>

lemma write_step:
  assumes rep: "book_repr b L D" and i: "i \<in> D" "orders b i = Some x"
  obtains p' where "update_at (pool b) i f = Some p'" "book_repr (b\<lparr>pool := p'\<rparr>) L D"
    "unchecked_at p' = (orders b)(i \<mapsto> f x)" "generation p' = generation (pool b)"
    "length (slots p') = length (slots (pool b))"
proof -
  obtain p' where p': "set_unchecked_at (pool b) i (f x) = Some p'" "pool_inv p'"
      "unchecked_at p' = (orders b)(i \<mapsto> f x)" "generation p' = generation (pool b)"
      "length (slots p') = length (slots (pool b))"
    by (rule set_unchecked_at_occupied [OF book_reprD(1) [OF rep] i(2)])
  have "linked L \<inter> D = {}" "linked L \<union> D = dom (orders b)"
    using book_reprD(3) [OF rep] by (auto simp: layout_ok_def)
  then have "book_repr (b\<lparr>pool := p'\<rparr>) L D"
    using p' i by (intro book_repr_pool [OF rep]) auto
  with that p' i(2) show ?thesis
    by (simp add: update_at_def)
qed

text \<open>Writing the quantity of a linked order.\<close>

lemma dll_upd:
  "dll m p xs n \<Longrightarrow> m i = Some x \<Longrightarrow> prev_idx x' = prev_idx x \<Longrightarrow> next_idx x' = next_idx x \<Longrightarrow>
   dll (m(i \<mapsto> x')) p xs n"
  by (induction xs arbitrary: p) auto

lemma level_repr_upd:
  "level_repr m lv xs \<Longrightarrow> m i = Some x \<Longrightarrow> prev_idx x' = prev_idx x \<Longrightarrow> next_idx x' = next_idx x \<Longrightarrow>
   level_repr (m(i \<mapsto> x')) lv xs"
  by (auto simp: level_repr_def intro: dll_upd)

lemma level_ok_qty:
  "level_ok m s lv xs \<Longrightarrow> m i = Some x \<Longrightarrow> q > 0 \<Longrightarrow> level_ok (m(i \<mapsto> x\<lparr>qty := q\<rparr>)) s lv xs"
  by (auto simp: level_ok_def intro: level_repr_upd)

lemma side_repr_qty:
  assumes "side_repr m s pl xss" "m i = Some x" "q > 0"
  shows "side_repr (m(i \<mapsto> x\<lparr>qty := q\<rparr>)) s pl xss"
proof -
  have "list_all2 (level_ok m s) (active pl) xss" "levels_inv (best_of s) pl"
    using assms by (auto simp: side_repr_def)
  moreover from this(1) have "list_all2 (level_ok (m(i \<mapsto> x\<lparr>qty := q\<rparr>)) s) (active pl) xss"
    by (rule list_all2_mono) (use assms in \<open>auto intro: level_ok_qty\<close>)
  ultimately show ?thesis
    by (simp add: side_repr_def)
qed

lemma qty_step:
  assumes rep: "book_repr b L D" and i: "orders b i = Some x" and q: "q > 0"
  obtains p' where "update_at (pool b) i (\<lambda>x. x\<lparr>qty := q\<rparr>) = Some p'" "book_repr (b\<lparr>pool := p'\<rparr>) L D"
    "unchecked_at p' = (orders b)(i \<mapsto> x\<lparr>qty := q\<rparr>)" "generation p' = generation (pool b)"
    "length (slots p') = length (slots (pool b))"
proof -
  obtain p' where p': "set_unchecked_at (pool b) i (x\<lparr>qty := q\<rparr>) = Some p'" "pool_inv p'"
      "unchecked_at p' = (orders b)(i \<mapsto> x\<lparr>qty := q\<rparr>)" "generation p' = generation (pool b)"
      "length (slots p') = length (slots (pool b))"
    by (rule set_unchecked_at_occupied [OF book_reprD(1) [OF rep] i])
  have "side_repr (unchecked_at p') s (levels_of b s) (L s)" for s
    unfolding p'(3) using book_reprD(2) [OF rep] i q by (rule side_repr_qty)
  moreover have "dom (unchecked_at p') = dom (orders b)"
    using p'(3) i by auto
  ultimately have "book_repr (b\<lparr>pool := p'\<rparr>) L D"
    using rep p'(2,5) by (simp add: book_repr_def layout_ok_def)
  with that p' i show ?thesis
    by (simp add: update_at_def)
qed

end
