(* ===== verification/Book_Matching.thy ===== *)
theory Book_Matching
  imports Book_Steps
begin

text \<open>
  The matching loops refine \<open>match_queue\<close>: the inner loop of \<open>cross\<close> on the queue of one level, the
  outer loop on the queue of one side. The fill-or-kill walk returns \<open>fillable\<close> modulo \<open>2 ^ 32\<close>.
  All of them return on every well-formed book.
\<close>

abbreviation rq :: "order_map \<Rightarrow> Index list \<Rightarrow> queue" where
  "rq m zs \<equiv> map (\<lambda>i. resting_of (the (m i))) zs"

section \<open>Matching a queue in two parts\<close>

lemma match_queue_zero [simp]: "match_queue ok acct taker seq tid 0 xs = (False, [], xs, 0, tid)"
  by (cases xs) simp_all

lemma match_queue_append_done:
  assumes "match_queue ok acct taker seq tid q xs = (False, ts, [], q', tid')"
    and "match_queue ok acct taker seq tid' q' ys = (stp, ts2, zs, q2, tid2)"
  shows "match_queue ok acct taker seq tid q (xs @ ys) = (stp, ts @ ts2, zs, q2, tid2)"
  using assms
  by (induction ok acct taker seq tid q xs arbitrary: ts rule: match_queue.induct)
    (auto split: if_splits prod.splits)

lemma match_queue_append_stopped:
  assumes "match_queue ok acct taker seq tid q xs = (stp, ts, zs, q', tid')" "stp \<or> q' = 0"
  shows "match_queue ok acct taker seq tid q (xs @ ys) = (stp, ts, zs @ ys, q', tid')"
  using assms
  by (induction ok acct taker seq tid q xs arbitrary: ts rule: match_queue.induct)
    (auto split: if_splits prod.splits)

lemma match_queue_blocked:
  "xs \<noteq> [] \<Longrightarrow> \<not> ok (r_price (hd xs)) \<Longrightarrow> match_queue ok acct taker seq tid q xs = (False, [], xs, q, tid)"
  by (cases xs) simp_all

section \<open>The inner loop\<close>

lemma rq_frame: "(\<And>i. i \<in> set zs \<Longrightarrow> m' i = m i) \<Longrightarrow> rq m' zs = rq m zs"
  by simp

lemma rq_payload: "same_payload m m' \<Longrightarrow> set zs \<subseteq> dom m \<Longrightarrow> rq m' zs = rq m zs"
  using same_payload_resting by (fastforce simp: map_eq_conv)

text \<open>A maker that is filled completely leaves the level, the id map and the pool.\<close>

lemma maker_filled:
  assumes inv: "pool_inv p" and ids: "ids_ok p idm" and ok: "level_ok (unchecked_at p) s lv (i # zs)"
    and x: "unchecked_at p i = Some x"
  obtains p1 lv' p2 idm' p3 where "update_at p i (\<lambda>x. x\<lparr>qty := qty x - f\<rparr>) = Some p1"
    "level_unlink lv p1 i = Some (lv', p2)" "IdMap_erase idm (order_id x) = Some (True, idm')"
    "p3 = pool_free p2 (handle_of p2 i)" "pool_inv p3" "ids_ok p3 idm'" "level_ok (unchecked_at p3) s lv' zs"
    "lv_price lv' = lv_price lv" "length (slots p3) = length (slots p)"
    "\<forall>j. j \<notin> set (i # zs) \<longrightarrow> unchecked_at p3 j = unchecked_at p j"
    "dom (unchecked_at p3) = dom (unchecked_at p) - {i}" "rq (unchecked_at p3) zs = rq (unchecked_at p) zs"
proof -
  let ?x = "x\<lparr>qty := qty x - f\<rparr>"
  have d: "i \<notin> set zs" "set zs \<subseteq> dom (unchecked_at p)"
    using ok level_repr_dom [OF level_ok_repr [OF ok]] by (auto simp: level_ok_def level_repr_def)
  obtain p1 where p1: "set_unchecked_at p i ?x = Some p1" "pool_inv p1" "unchecked_at p1 = (unchecked_at p)(i \<mapsto> ?x)"
      "generation p1 = generation p" "length (slots p1) = length (slots p)"
    by (rule set_unchecked_at_occupied [OF inv x])
  have "level_repr (unchecked_at p1) lv ([] @ i # zs)"
    unfolding p1(3) using level_ok_repr [OF ok] x by (auto intro: level_repr_upd)
  with p1(2) obtain lv' p2 where u: "level_unlink lv p1 i = Some (lv', p2)" "links_frame p1 p2 (set ([] @ i # zs))"
      "level_repr (unchecked_at p2) lv' ([] @ zs)" "lv_price lv' = lv_price lv"
      "unchecked_at p2 i = map_option payload (unchecked_at p1 i)"
    by (rule level_unlink_repr)
  have i2: "unchecked_at p2 i = Some (payload ?x)" and inv2: "pool_inv p2"
    using u p1(3) by (auto simp: links_frame_def)
  have sp: "same_payload (unchecked_at p1) (unchecked_at p2)"
    using u(2) by (simp add: links_frame_def)
  have dom2: "dom (unchecked_at p2) = dom (unchecked_at p)"
    using same_payload_dom [OF sp] p1(3) x by auto
  have "ids_ok p1 idm"
    by (rule ids_ok_cong [OF ids p1(5,4)]) (simp add: p1(3) x)
  then have "ids_ok p2 idm"
    using u(2) by (rule ids_ok_links)
  from this inv2 i2 obtain idm' where e: "IdMap_erase idm (order_id (payload ?x)) = Some (True, idm')"
      "ids_ok (pool_free p2 (handle_of p2 i)) idm'"
    by (rule ids_ok_remove)
  define p3 where "p3 = pool_free p2 (handle_of p2 i)"
  note fr = pool_free_occupied [OF inv2 i2, folded p3_def]
  have zs3: "unchecked_at p3 j = unchecked_at p2 j" if "j \<in> set zs" for j
    using that d fr(2) by auto
  have "\<forall>j \<in> set zs. \<exists>y. unchecked_at p1 j = Some y \<and> side y = s \<and> price y = lv_price lv \<and> qty y > 0"
    using ok d(1) p1(3) by (auto simp: level_ok_def)
  then have "level_ok (unchecked_at p2) s lv' zs"
    using sp u(3,4) by (intro level_ok_links) auto
  then have "level_ok (unchecked_at p3) s lv' zs"
    using zs3 by (rule level_ok_frame)
  moreover have "rq (unchecked_at p3) zs = rq (unchecked_at p) zs"
  proof -
    have "rq (unchecked_at p3) zs = rq (unchecked_at p2) zs"
      using zs3 by (rule rq_frame)
    also have "\<dots> = rq (unchecked_at p1) zs"
      by (rule rq_payload [OF sp]) (use d(2) p1(3) in auto)
    also have "\<dots> = rq (unchecked_at p) zs"
      using d(1) p1(3) by (intro rq_frame) auto
    finally show ?thesis .
  qed
  moreover have "\<forall>j. j \<notin> set (i # zs) \<longrightarrow> unchecked_at p3 j = unchecked_at p j"
    using fr(2) u(2) p1(3) by (auto simp: links_frame_def)
  moreover have "dom (unchecked_at p3) = dom (unchecked_at p) - {i}"
    using fr(2) dom2 by auto
  moreover have "length (slots p3) = length (slots p)"
    using fr(4) u(2) p1(5) by (simp add: links_frame_def)
  moreover have "update_at p i (\<lambda>x. x\<lparr>qty := qty x - f\<rparr>) = Some p1"
    using p1(1) x by (simp add: update_at_def)
  ultimately show ?thesis
    using that [of p1 lv' p2 idm' p3] u(1,4) e fr(1) p3_def by simp
qed

text \<open>What one run of the inner loop establishes. \<open>ks\<close> are the makers it filled completely.\<close>

definition level_crossed ::
  "(Price \<Rightarrow> bool) \<Rightarrow> Side \<Rightarrow> SeqNo \<Rightarrow> Book \<Rightarrow> Level \<Rightarrow> Order \<Rightarrow> Index list \<Rightarrow>
   bool \<Rightarrow> Book \<Rightarrow> Level \<Rightarrow> Order \<Rightarrow> Trade list \<Rightarrow> Index list \<Rightarrow> Index list \<Rightarrow> bool" where
  "level_crossed ok s seq b lv inc zs stp b' lv' inc' ts ks zs' \<longleftrightarrow>
     zs = ks @ zs' \<and> inc' = inc\<lparr>qty := qty inc'\<rparr> \<and>
     match_queue ok (account inc) (order_id inc) seq (next_trade_id b) (qty inc) (rq (orders b) zs) =
       (stp, ts, rq (orders b') zs', qty inc', next_trade_id b') \<and>
     pool_inv (pool b') \<and> ids_ok (pool b') (id_map b') \<and> level_ok (orders b') s lv' zs' \<and>
     lv_price lv' = lv_price lv \<and> length (slots (pool b')) = length (slots (pool b)) \<and>
     (\<forall>i. i \<notin> set zs \<longrightarrow> orders b' i = orders b i) \<and> dom (orders b') = dom (orders b) - set ks \<and>
     bids b' = bids b \<and> asks b' = asks b \<and> next_seq b' = next_seq b \<and>
     (zs' = [] \<or> stp \<or> qty inc' = 0) \<and> (stp \<longrightarrow> zs' \<noteq> [])"

lemma level_crossed_idle:
  assumes "pool_inv (pool b)" "ids_ok (pool b) (id_map b)" "level_ok (orders b) s lv zs"
    and "match_queue ok (account inc) (order_id inc) seq (next_trade_id b) (qty inc) (rq (orders b) zs) =
      (stp, [], rq (orders b) zs, qty inc, next_trade_id b)"
    and "zs = [] \<or> stp \<or> qty inc = 0" "stp \<longrightarrow> zs \<noteq> []"
  shows "level_crossed ok s seq b lv inc zs stp b lv inc [] [] zs"
  using assms by (simp add: level_crossed_def)

text \<open>The inner loop always returns and refines \<open>match_queue\<close> on the queue of its level.\<close>

lemma cross_level_refines:
  assumes "pool_inv (pool b)" "ids_ok (pool b) (id_map b)" "level_ok (orders b) s lv zs" "ok (lv_price lv)"
  shows "\<exists>stp b' lv' inc' ts' ks zs'. cross_level b lv inc seq ts = Some (stp, b', lv', inc', ts @ ts') \<and>
    level_crossed ok s seq b lv inc zs stp b' lv' inc' ts' ks zs'"
  using assms
proof (induction zs arbitrary: b lv inc ts)
  case Nil
  then have "head lv = kNilIndex"
    by (auto dest: level_ok_repr level_repr_empty_iff)
  then have "cross_level b lv inc seq ts = Some (False, b, lv, inc, ts @ [])"
    by (simp add: cross_level.simps)
  then show ?case
    using level_crossed_idle [OF Nil.prems(1-3), of ok inc seq False] by fastforce
next
  case (Cons i zs)
  note lok = Cons.prems(3)
  obtain x where x: "orders b i = Some x" "side x = s" "price x = lv_price lv" "qty x > 0"
    using lok by (auto simp: level_ok_def)
  have hd: "head lv = i" "i \<noteq> kNilIndex"
    using level_ok_repr [OF lok] by (auto simp: level_repr_def)
  have rx: "r_price (resting_of x) = lv_price lv" "r_account (resting_of x) = account x"
      "r_qty (resting_of x) = qty x" "r_order_id (resting_of x) = order_id x"
    using x(3) by (simp_all add: resting_of_def)
  consider "qty inc = 0" | "qty inc > 0" "account x = account inc"
    | "qty inc > 0" "account x \<noteq> account inc" "qty x \<le> qty inc"
    | "qty inc > 0" "account x \<noteq> account inc" "qty inc < qty x"
    by (metis linorder_not_le word_neq_0_conv)
  then show ?case
  proof cases
    case 1
    then have "cross_level b lv inc seq ts = Some (False, b, lv, inc, ts @ [])"
      by (simp add: cross_level.simps)
    then show ?thesis
      using level_crossed_idle [OF Cons.prems(1,2) lok, of ok inc seq False] 1 by fastforce
  next
    case 2
    then have "cross_level b lv inc seq ts = Some (True, b, lv, inc, ts @ [])"
      using hd x by (simp add: cross_level.simps)
    moreover have "level_crossed ok s seq b lv inc (i # zs) True b lv inc [] [] (i # zs)"
      using 2 x rx Cons.prems(4) by (intro level_crossed_idle [OF Cons.prems(1,2) lok]) auto
    ultimately show ?thesis by blast
  next
    case 3
    define inc1 where "inc1 = inc\<lparr>qty := qty inc - qty x\<rparr>"
    define t where "t = fill_trade (resting_of x) (order_id inc) (qty x) (next_trade_id b) seq"
    obtain p1 lv1 p2 idm1 p3 where m: "update_at (pool b) i (\<lambda>y. y\<lparr>qty := qty y - qty x\<rparr>) = Some p1"
      "level_unlink lv p1 i = Some (lv1, p2)" "IdMap_erase (id_map b) (order_id x) = Some (True, idm1)"
      "p3 = pool_free p2 (handle_of p2 i)" "pool_inv p3" "ids_ok p3 idm1" "level_ok (unchecked_at p3) s lv1 zs"
      "lv_price lv1 = lv_price lv" "length (slots p3) = length (slots (pool b))"
      "\<forall>j. j \<notin> set (i # zs) \<longrightarrow> unchecked_at p3 j = orders b j"
      "dom (unchecked_at p3) = dom (orders b) - {i}" "rq (unchecked_at p3) zs = rq (orders b) zs"
      by (rule maker_filled [OF Cons.prems(1,2) lok x(1), where f = "qty x"])
    define b1 where "b1 = b\<lparr>next_trade_id := next_trade_id b + 1, pool := p3, id_map := idm1\<rparr>"
    have step: "cross_level b lv inc seq ts = cross_level b1 lv1 inc1 seq (ts @ [t])"
      using 3 hd x(1) m(1-4) rx x(3)
      by (subst cross_level.simps) (simp add: Let_def b1_def inc1_def t_def fill_trade_def min_absorb2)
    obtain stp b' lv' inc' ts' ks zs' where ih: "cross_level b1 lv1 inc1 seq (ts @ [t]) = Some (stp, b', lv', inc', (ts @ [t]) @ ts')"
        "level_crossed ok s seq b1 lv1 inc1 zs stp b' lv' inc' ts' ks zs'"
      using Cons.IH [of b1 lv1 inc1 "ts @ [t]"] m Cons.prems(4) by (auto simp: b1_def)
    note lc = ih(2) [unfolded level_crossed_def]
    have fields: "account inc1 = account inc" "order_id inc1 = order_id inc" "next_trade_id b1 = next_trade_id b + 1"
        "qty inc1 = qty inc - qty x" "orders b1 = unchecked_at p3"
      by (simp_all add: b1_def inc1_def)
    have "match_queue ok (account inc) (order_id inc) seq (next_trade_id b + 1) (qty inc - qty x) (rq (orders b) zs) =
        (stp, ts', rq (orders b') zs', qty inc', next_trade_id b')"
      using lc unfolding fields m(12) by blast
    then have "match_queue ok (account inc) (order_id inc) seq (next_trade_id b) (qty inc) (rq (orders b) (i # zs)) =
        (stp, t # ts', rq (orders b') zs', qty inc', next_trade_id b')"
      using 3 x(1) rx Cons.prems(4) by (auto simp: t_def)
    moreover have "dom (orders b') = dom (orders b) - set (i # ks)"
      using lc m(11) by (auto simp: b1_def)
    moreover have "\<forall>j. j \<notin> set (i # zs) \<longrightarrow> orders b' j = orders b j"
      using lc m(10) by (simp add: b1_def)
    moreover have "inc' = inc\<lparr>qty := qty inc'\<rparr>"
      using lc by (simp add: inc1_def)
    ultimately have "level_crossed ok s seq b lv inc (i # zs) stp b' lv' inc' (t # ts') (i # ks) zs'"
      using lc m(8,9) unfolding level_crossed_def by (simp add: b1_def)
    with ih(1) step show ?thesis
      by (metis append.assoc append_Cons append_Nil)
  next
    case 4
    define q where "q = qty x - qty inc"
    have ne: "qty x \<noteq> qty inc"
      using 4(3) by auto
    have q: "q > 0"
      using 4(3) by (simp add: q_def word_neq_0_conv [symmetric])
    define t where "t = fill_trade (resting_of x) (order_id inc) (qty inc) (next_trade_id b) seq"
    obtain p1 where p1: "set_unchecked_at (pool b) i (x\<lparr>qty := q\<rparr>) = Some p1" "pool_inv p1"
        "unchecked_at p1 = (orders b)(i \<mapsto> x\<lparr>qty := q\<rparr>)" "generation p1 = generation (pool b)"
        "length (slots p1) = length (slots (pool b))"
      by (rule set_unchecked_at_occupied [OF Cons.prems(1) x(1)])
    define b1 where "b1 = b\<lparr>next_trade_id := next_trade_id b + 1, pool := p1\<rparr>"
    have "update_at (pool b) i (\<lambda>y. y\<lparr>qty := qty y - qty inc\<rparr>) = Some p1"
      using p1(1) x(1) by (simp add: update_at_def q_def)
    then have run: "cross_level b lv inc seq ts = Some (False, b1, lv, inc\<lparr>qty := 0\<rparr>, ts @ [t])"
      using 4 hd x(1) rx x(3) q ne
      by (subst cross_level.simps)
        (simp add: Let_def b1_def t_def fill_trade_def min_absorb1 less_imp_le q_def cross_level.simps)
    have "i \<notin> set zs"
      using level_ok_repr [OF lok] by (simp add: level_repr_def)
    then have "rq (unchecked_at p1) (i # zs) = (resting_of x)\<lparr>r_qty := q\<rparr> # rq (orders b) zs"
      using p1(3) by (auto simp: resting_of_def)
    moreover have "level_ok (unchecked_at p1) s lv (i # zs)"
      unfolding p1(3) using lok x(1) q by (rule level_ok_qty)
    moreover have "ids_ok p1 (id_map b)"
      by (rule ids_ok_cong [OF Cons.prems(2) p1(5,4)]) (simp add: p1(3) x(1))
    moreover have "dom (unchecked_at p1) = dom (orders b)" "\<forall>j. j \<notin> set (i # zs) \<longrightarrow> unchecked_at p1 j = orders b j"
      using p1(3) x(1) by auto
    ultimately have "level_crossed ok s seq b lv inc (i # zs) False b1 lv (inc\<lparr>qty := 0\<rparr>) [t] [] (i # zs)"
      using 4 x rx p1(2,5) Cons.prems(4) unfolding level_crossed_def b1_def t_def q_def by (auto simp: not_le)
    with run show ?thesis by blast
  qed
qed

section \<open>The outer loop\<close>

lemma level_crossed_store:
  assumes rep: "book_repr b L {}" and L: "L s = As @ [xs]"
    and lv: "level_at (levels_of b s) (length As) = Some lv"
    and lc: "level_crossed ok s seq b lv inc xs stp b' lv' inc' ts ks zs"
  obtains b2 where "store_level b' s (length As) lv' = Some b2" "book_repr b2 (L(s := As @ [zs])) {}"
    "pool b2 = pool b'" "id_map b2 = id_map b'" "next_seq b2 = next_seq b'" "next_trade_id b2 = next_trade_id b'"
proof -
  note lcD = lc [unfolded level_crossed_def]
  have lvs: "levels_of b' t = levels_of b t" for t
    using lcD by (cases t) (simp_all add: levels_of_def)
  have lay: "layout_ok L {} (orders b)"
    using rep by (rule book_reprD)
  have away: "orders b' j = orders b j" if "j \<in> set (concat As) \<union> set (concat (L (opposite s)))" for j
  proof -
    have "j \<notin> set xs"
      using that lay unfolding layout_ok_side [of L _ _ s] L by auto
    then show ?thesis
      using lcD by simp
  qed
  have sr: "side_repr (orders b) s (levels_of b s) (As @ xs # [])"
    using book_reprD(2) [OF rep, of s] L by simp
  have "lv_price lv' = lv_price lv" "level_ok (orders b') s lv' zs"
    using lcD by blast+
  then obtain pl' where pl': "set_level_at (levels_of b s) (length As) lv' = Some pl'"
      "side_repr (orders b') s pl' (As @ zs # [])" "length (levels pl') = length (levels (levels_of b s))"
    using side_repr_set [OF sr lv, of lv' "orders b'" zs] away by auto
  have "side_repr (orders b') (opposite s) (levels_of b (opposite s)) (L (opposite s))"
    by (rule side_repr_frame [OF book_reprD(2) [OF rep]]) (simp add: away)
  moreover have "xs = ks @ zs" "dom (orders b') = dom (orders b) - set ks"
    using lcD by blast+
  then have "layout_ok (L(s := As @ [zs])) {} (orders b')"
    using lay unfolding layout_ok_side [of _ _ _ s] by (auto simp: L)
  ultimately have "book_repr (set_levels_of b' s pl') (L(s := As @ [zs])) {}"
    using pl' lcD book_reprD(4) [OF rep] unfolding book_repr_side [of _ _ _ s] by (simp add: lvs)
  with that [of "set_levels_of b' s pl'"] pl'(1) show ?thesis
    by (simp add: store_level_def lvs)
qed

lemma pop_best_step:
  assumes rep: "book_repr b L D" and L: "L s = As @ [[]]"
  obtains pl' where "PriceLevels_pop_best (levels_of b s) = Some pl'"
    "book_repr (set_levels_of b s pl') (L(s := As)) D"
proof -
  have "side_repr (orders b) s (levels_of b s) (As @ [[]])"
    using book_reprD(2) [OF rep, of s] L by simp
  then obtain pl' where pl': "PriceLevels_pop_best (levels_of b s) = Some pl'" "side_repr (orders b) s pl' As"
      "length (levels pl') = length (levels (levels_of b s))"
    by (rule side_repr_pop)
  have "layout_ok (L(s := As)) D (orders b)"
    using book_reprD(3) [OF rep] by (intro layout_ok_concat) (simp_all add: L)
  then have "book_repr (set_levels_of b s pl') (L(s := As)) D"
    using rep pl' unfolding book_repr_side [of _ _ _ s] by simp
  with that pl'(1) show ?thesis by blast
qed

lemma best_level:
  assumes rep: "book_repr b L D" and L: "L s = As @ [xs]"
  obtains lv where "PriceLevels_best (levels_of b s) = Some (length As)" "\<not> PriceLevels_empty (levels_of b s)"
    "level_at (levels_of b s) (length As) = Some lv" "level_ok (orders b) s lv xs"
proof -
  have "side_repr (orders b) s (levels_of b s) (As @ xs # [])"
    using book_reprD(2) [OF rep, of s] L by simp
  then obtain as lv bs where lv: "active (levels_of b s) = as @ lv # bs" "length as = length As"
      "level_ok (orders b) s lv xs" "level_at (levels_of b s) (length As) = Some lv"
      "list_all2 (level_ok (orders b) s) as As" "list_all2 (level_ok (orders b) s) bs []"
      "levels_inv (best_of s) (levels_of b s)"
    by (rule side_repr_split)
  then have "active (levels_of b s) = as @ [lv]" by simp
  with that lv best_active [OF lv(7)] empty_active [OF lv(7)] show ?thesis by simp
qed

definition side_crossed ::
  "(Price \<Rightarrow> bool) \<Rightarrow> Side \<Rightarrow> SeqNo \<Rightarrow> Book \<Rightarrow> layout \<Rightarrow> Order \<Rightarrow> bool \<Rightarrow> Book \<Rightarrow> Order \<Rightarrow> Trade list \<Rightarrow>
   Index list list \<Rightarrow> bool" where
  "side_crossed ok s seq b L inc stp b' inc' ts xss \<longleftrightarrow>
     book_ok b' (L(s := xss)) \<and> inc' = inc\<lparr>qty := qty inc'\<rparr> \<and>
     match_queue ok (account inc) (order_id inc) seq (next_trade_id b) (qty inc) (queue_of (orders b) (L s)) =
       (stp, ts, queue_of (orders b') xss, qty inc', next_trade_id b') \<and>
     queue_of (orders b') (L (opposite s)) = queue_of (orders b) (L (opposite s)) \<and>
     length (slots (pool b')) = length (slots (pool b)) \<and> next_seq b' = next_seq b"

lemma side_crossed_idle:
  assumes "book_ok b L"
    and "match_queue ok (account inc) (order_id inc) seq (next_trade_id b) (qty inc) (queue_of (orders b) (L s)) =
      (False, [], queue_of (orders b) (L s), qty inc, next_trade_id b)"
  shows "side_crossed ok s seq b L inc False b inc [] (L s)"
  using assms by (simp add: side_crossed_def)

text \<open>The parts of a sweep: one level that is used up or stops the sweep, then the rest.\<close>

lemma queue_of_last: "queue_of m (As @ [xs]) = rq m xs @ queue_of m As"
  by simp

lemma level_crossed_frame:
  assumes lc: "level_crossed ok s seq b lv inc xs stp b' lv' inc' ts ks zs" and rep: "book_repr b L {}"
    and L: "L s = As @ [xs]"
  shows "queue_of (orders b') As = queue_of (orders b) As"
    "queue_of (orders b') (L (opposite s)) = queue_of (orders b) (L (opposite s))"
proof -
  have frame: "\<forall>i. i \<notin> set xs \<longrightarrow> orders b' i = orders b i"
    using lc by (simp add: level_crossed_def)
  have lay: "layout_ok L {} (orders b)"
    using rep by (rule book_reprD)
  show "queue_of (orders b') As = queue_of (orders b) As"
    using lay frame unfolding layout_ok_side [of L _ _ s] L by (intro queue_of_frame) auto
  show "queue_of (orders b') (L (opposite s)) = queue_of (orders b) (L (opposite s))"
    using lay frame unfolding layout_ok_side [of L _ _ s] L by (intro queue_of_frame) auto
qed

lemma cross_idle:
  assumes "qty inc = 0 \<or> PriceLevels_empty (levels_of b s)"
  shows "cross b s crosses inc seq ts = Some (False, b, inc, ts)"
  using assms by (subst cross.simps) auto

lemma qty_update_fields:
  "y = x\<lparr>qty := q\<rparr> \<Longrightarrow> account y = account x" "y = x\<lparr>qty := q\<rparr> \<Longrightarrow> order_id y = order_id x"
  "y = x\<lparr>qty := q\<rparr> \<Longrightarrow> price y = price x" "y = x\<lparr>qty := q\<rparr> \<Longrightarrow> side y = side x"
  by simp_all

lemma qty_update_trans: "y = x\<lparr>qty := a\<rparr> \<Longrightarrow> z = y\<lparr>qty := c\<rparr> \<Longrightarrow> z = x\<lparr>qty := c\<rparr>"
  by simp

lemma level_crossed_head: "level_crossed ok s seq b lv inc xs stp b' lv' inc' ts ks zs \<Longrightarrow> head lv' = kNilIndex \<longleftrightarrow> zs = []"
  by (auto simp: level_crossed_def dest: level_ok_repr level_repr_empty_iff)

lemma level_crossed_stopped:
  assumes lc: "level_crossed ok s seq b lv inc xs stp b1 lv' inc' ts ks zs" and ok: "book_ok b L" "L s = As @ [xs]"
    and zs: "zs \<noteq> []"
    and b2: "book_repr b2 (L(s := As @ [zs])) {}" "pool b2 = pool b1" "id_map b2 = id_map b1"
      "next_seq b2 = next_seq b1" "next_trade_id b2 = next_trade_id b1"
  shows "side_crossed ok s seq b L inc stp b2 inc' ts (As @ [zs])"
proof -
  note lcD = lc [unfolded level_crossed_def]
  have rep: "book_repr b L {}" and st: "settled L"
    using ok by (auto simp: book_ok_def)
  have "settled (L(s := As @ [zs]))"
    using st zs ok(2) by (auto simp: settled_side [of _ s])
  then have "book_ok b2 (L(s := As @ [zs]))"
    using b2 lcD by (simp add: book_ok_def)
  moreover have "match_queue ok (account inc) (order_id inc) seq (next_trade_id b) (qty inc) (queue_of (orders b) (L s)) =
      (stp, ts, queue_of (orders b2) (As @ [zs]), qty inc', next_trade_id b2)"
    unfolding ok(2) queue_of_last b2(2,5) level_crossed_frame(1) [OF lc rep ok(2)]
    using lcD zs by (intro match_queue_append_stopped) blast+
  ultimately show ?thesis
    using lcD b2 level_crossed_frame(2) [OF lc rep ok(2)] unfolding side_crossed_def by simp
qed

lemma level_crossed_popped:
  assumes lc: "level_crossed ok s seq b lv inc xs stp b1 lv' inc' ts ks zs" and ok: "book_ok b L" "L s = As @ [xs]"
    and b3: "book_repr b3 (L(s := As)) {}" "pool b3 = pool b1" "id_map b3 = id_map b1"
  shows "book_ok b3 (L(s := As))"
proof -
  have "settled (L(s := As))"
    using ok by (auto simp: book_ok_def settled_side [of _ s])
  then show ?thesis
    using b3 lc by (simp add: book_ok_def level_crossed_def)
qed

lemma level_crossed_continue:
  assumes lc: "level_crossed ok s seq b lv inc xs stp b1 lv' inc1 ts1 ks zs" and zs: "zs = []"
    and L: "L s = As @ [xs]" and rep: "book_repr b L {}"
    and b3: "book_repr b3 (L(s := As)) {}" "pool b3 = pool b1" "id_map b3 = id_map b1"
      "next_seq b3 = next_seq b1" "next_trade_id b3 = next_trade_id b1"
    and rest: "side_crossed ok s seq b3 (L(s := As)) inc1 stp' b' inc' ts' xss"
  shows "side_crossed ok s seq b L inc stp' b' inc' (ts1 @ ts') xss"
proof -
  note lcD = lc [unfolded level_crossed_def] and restD = rest [unfolded side_crossed_def]
  have inc1: "inc1 = inc\<lparr>qty := qty inc1\<rparr>" and nstp: "\<not> stp"
    using lcD zs by auto
  note acc = qty_update_fields [OF inc1]
  have first: "match_queue ok (account inc) (order_id inc) seq (next_trade_id b) (qty inc) (rq (orders b) xs) =
      (False, ts1, [], qty inc1, next_trade_id b1)"
    using conjunct1 [OF conjunct2 [OF conjunct2 [OF lcD]]] zs nstp by simp
  have "match_queue ok (account inc) (order_id inc) seq (next_trade_id b1) (qty inc1) (queue_of (orders b) As) =
      (stp', ts', queue_of (orders b') xss, qty inc', next_trade_id b')"
    using restD level_crossed_frame(1) [OF lc rep L] by (simp add: b3 acc)
  with first have "match_queue ok (account inc) (order_id inc) seq (next_trade_id b) (qty inc) (queue_of (orders b) (L s)) =
      (stp', ts1 @ ts', queue_of (orders b') xss, qty inc', next_trade_id b')"
    unfolding L queue_of_last by (rule match_queue_append_done)
  moreover have "queue_of (orders b') (L (opposite s)) = queue_of (orders b) (L (opposite s))"
    using restD level_crossed_frame(2) [OF lc rep L] by (simp add: b3)
  moreover have "inc' = inc\<lparr>qty := qty inc'\<rparr>"
    by (rule qty_update_trans [OF inc1]) (rule conjunct1 [OF conjunct2 [OF restD]])
  ultimately show ?thesis
    using restD lcD unfolding side_crossed_def by (simp add: b3)
qed

text \<open>The sweep always returns and refines \<open>match_queue\<close> on the queue of the resting side.\<close>

lemma cross_refines:
  assumes "book_ok b L"
  shows "\<exists>stp b' inc' ts' xss. cross b s crosses inc seq ts = Some (stp, b', inc', ts @ ts') \<and>
    side_crossed (\<lambda>r. crosses r (price inc)) s seq b L inc stp b' inc' ts' xss"
proof -
  have "\<exists>stp b' inc' ts' xss. cross b s crosses inc seq ts = Some (stp, b', inc', ts @ ts') \<and>
      side_crossed (\<lambda>r. crosses r (price inc)) s seq b L inc stp b' inc' ts' xss"
    if "book_ok b L" "L s = yss" for yss
    using that
  proof (induction yss arbitrary: b L inc ts rule: rev_induct)
    case Nil
    have "side_repr (orders b) s (levels_of b s) []"
      using Nil book_reprD(2) [of b L "{}" s] by (simp add: book_ok_def)
    then have "PriceLevels_empty (levels_of b s)"
      using side_repr_length by (fastforce simp: PriceLevels_empty_def)
    then have "cross b s crosses inc seq ts = Some (False, b, inc, ts @ [])"
      by (simp add: cross_idle)
    with side_crossed_idle [OF Nil.prems(1)] Nil.prems(2) show ?case
      by (metis match_queue.simps(1) queue_of_single(2))
  next
    case (snoc xs As)
    let ?ok = "\<lambda>r. crosses r (price inc)"
    have rep: "book_repr b L {}" and ids: "ids_ok (pool b) (id_map b)" and xs: "xs \<noteq> []"
      using snoc.prems by (auto simp: book_ok_def settled_side [of L s])
    obtain lv where lv: "PriceLevels_best (levels_of b s) = Some (length As)" "\<not> PriceLevels_empty (levels_of b s)"
        "level_at (levels_of b s) (length As) = Some lv" "level_ok (orders b) s lv xs"
      by (rule best_level [OF rep snoc.prems(2)])
    consider "qty inc = 0" | "qty inc > 0" "\<not> ?ok (lv_price lv)" | "qty inc > 0" "?ok (lv_price lv)"
      using word_neq_0_conv by auto
    then show ?case
    proof cases
      case 1
      then have "cross b s crosses inc seq ts = Some (False, b, inc, ts @ [])"
        by (simp add: cross_idle)
      with side_crossed_idle [OF snoc.prems(1)] 1 show ?thesis
        by (metis match_queue_zero)
    next
      case 2
      then have "cross b s crosses inc seq ts = Some (False, b, inc, ts @ [])"
        using lv by (simp add: cross.simps)
      moreover have "r_price (hd (queue_of (orders b) (L s))) = lv_price lv" "queue_of (orders b) (L s) \<noteq> []"
        using xs level_ok_price [OF lv(4)] unfolding snoc.prems(2) queue_of_last by (cases xs; simp)+
      then have "side_crossed ?ok s seq b L inc False b inc [] (L s)"
        using 2 by (intro side_crossed_idle [OF snoc.prems(1)] match_queue_blocked) simp_all
      ultimately show ?thesis by blast
    next
      case 3
      obtain stp b1 lv' inc1 ts1 ks zs where run: "cross_level b lv inc seq ts = Some (stp, b1, lv', inc1, ts @ ts1)"
          and lc: "level_crossed ?ok s seq b lv inc xs stp b1 lv' inc1 ts1 ks zs"
        using cross_level_refines [OF book_reprD(1) [OF rep] ids lv(4), of ?ok] 3(2) by blast
      obtain b2 where b2: "store_level b1 s (length As) lv' = Some b2" "book_repr b2 (L(s := As @ [zs])) {}"
          "pool b2 = pool b1" "id_map b2 = id_map b1" "next_seq b2 = next_seq b1" "next_trade_id b2 = next_trade_id b1"
        by (rule level_crossed_store [OF rep snoc.prems(2) lv(3) lc])
      have step: "cross b s crosses inc seq ts =
          (if stp then Some (True, b2, inc1, ts @ ts1)
           else if zs = [] then do { pl \<leftarrow> PriceLevels_pop_best (levels_of b2 s);
                                     cross (set_levels_of b2 s pl) s crosses inc1 seq (ts @ ts1) }
           else cross b2 s crosses inc1 seq (ts @ ts1))"
        using 3 lv run b2(1) level_crossed_head [OF lc] by (subst cross.simps) simp
      show ?thesis
      proof (cases "zs = []")
        case False
        then have "cross b s crosses inc seq ts = Some (stp, b2, inc1, ts @ ts1)"
          using step lc cross_idle [of inc1 b2 s] by (auto simp: level_crossed_def)
        with level_crossed_stopped [OF lc snoc.prems False b2(2-6)] show ?thesis by blast
      next
        case True
        then obtain pl where pl: "PriceLevels_pop_best (levels_of b2 s) = Some pl"
            "book_repr (set_levels_of b2 s pl) (L(s := As)) {}"
          using pop_best_step [of b2 "L(s := As @ [zs])" "{}" s As] b2(2) by auto
        define b3 where "b3 = set_levels_of b2 s pl"
        have b3: "book_repr b3 (L(s := As)) {}" "pool b3 = pool b1" "id_map b3 = id_map b1"
            "next_seq b3 = next_seq b1" "next_trade_id b3 = next_trade_id b1"
          using pl(2) b2(3-6) by (simp_all add: b3_def)
        have inc1: "price inc1 = price inc"
          using lc by (intro qty_update_fields [where q = "qty inc1"]) (simp add: level_crossed_def)
        have "book_ok b3 (L(s := As))"
          using level_crossed_popped [OF lc snoc.prems b3(1-3)] .
        then obtain stp' b' inc' ts' xss where ih: "cross b3 s crosses inc1 seq (ts @ ts1) = Some (stp', b', inc', (ts @ ts1) @ ts')"
            "side_crossed (\<lambda>r. crosses r (price inc1)) s seq b3 (L(s := As)) inc1 stp' b' inc' ts' xss"
          using snoc.IH [of b3 "L(s := As)" inc1 "ts @ ts1"] fun_upd_same [of L s As] by blast
        have "cross b s crosses inc seq ts = Some (stp', b', inc', ts @ ts1 @ ts')"
          using step True lc pl(1) ih(1) by (auto simp: level_crossed_def b3_def)
        with level_crossed_continue [OF lc True snoc.prems(2) rep b3 ih(2) [unfolded inc1]] show ?thesis by blast
      qed
    qed
  qed
  with assms show ?thesis by blast
qed

section \<open>The fill-or-kill walk\<close>

lemma available_in_level_eq:
  assumes "dll (unchecked_at p) prev zs kNilIndex" "kNilIndex \<notin> set zs"
    and "\<And>i. i \<in> set zs \<Longrightarrow> ok (r_price (resting_of (the (unchecked_at p i))))"
  shows "available_in_level p acct acc (first_of zs kNilIndex) =
    Some (\<exists>x \<in> set (rq (unchecked_at p) zs). r_account x = acct, acc + of_nat (fillable ok acct (rq (unchecked_at p) zs)))"
  using assms
proof (induction zs arbitrary: prev acc)
  case Nil
  then show ?case by (simp add: available_in_level.simps)
next
  case (Cons i zs)
  then obtain x where x: "unchecked_at p i = Some x" "next_idx x = first_of zs kNilIndex"
      "dll (unchecked_at p) i zs kNilIndex"
    by auto
  have r: "r_account (resting_of x) = account x" "r_qty (resting_of x) = qty x"
    by (simp_all add: resting_of_def)
  show ?case
    using Cons.IH [OF x(3), of "acc + qty x"] Cons.prems Cons.prems(3) [of i] x r
    by (subst available_in_level.simps) (auto simp: add.assoc)
qed

lemma available_from_rank_eq:
  assumes sr: "side_repr (unchecked_at p) s pl xss" and st: "[] \<notin> set xss"
  shows "available_from_rank p pl limit acct crosses rank acc =
    Some (acc + of_nat (fillable (\<lambda>r. crosses r limit) acct (rq (unchecked_at p) (concat (drop rank (rev xss))))))"
proof (induction "length xss - rank" arbitrary: rank acc)
  case 0
  then show ?case
    using side_repr_length [OF sr] by (subst available_from_rank.simps) (simp add: PriceLevels_size_def)
next
  case (Suc n)
  let ?ok = "\<lambda>r. crosses r limit" and ?m = "unchecked_at p"
  have inv: "levels_inv (best_of s) pl" and all: "list_all2 (level_ok ?m s) (rev (active pl)) (rev xss)"
    using sr by (auto simp: side_repr_def)
  have len: "rank < length xss" "count pl = length xss"
    using Suc.hyps(2) side_repr_length [OF sr] by auto
  define lv zs where "lv = rev (active pl) ! rank" and "zs = rev xss ! rank"
  have "rank < length (rev (active pl))"
    using len levels_inv_length [OF inv] by simp
  with all have lok: "level_ok ?m s lv zs"
    unfolding lv_def zs_def by (rule list_all2_nthD)
  have lv: "PriceLevels_by_rank pl rank = Some lv"
    using by_rank_active [OF inv] len by (simp add: lv_def)
  have split: "drop rank (rev xss) = zs # drop (rank + 1) (rev xss)"
    using len by (simp add: zs_def Cons_nth_drop_Suc)
  have pr: "r_price (resting_of (the (?m i))) = lv_price lv" if "i \<in> set zs" for i
    using level_ok_price [OF lok that] .
  show ?case
  proof (cases "crosses (lv_price lv) limit")
    case False
    have "zs \<in> set (rev xss)"
      unfolding zs_def using len by (intro nth_mem) simp
    then have "zs \<noteq> []"
      using st by auto
    then have "fillable ?ok acct (rq ?m (zs @ ys)) = 0" for ys
      using False pr by (cases zs) auto
    then show ?thesis
      using len lv False unfolding split by (subst available_from_rank.simps) (simp add: PriceLevels_size_def)
  next
    case True
    have walk: "available_in_level p acct acc (head lv) =
        Some (\<exists>x \<in> set (rq ?m zs). r_account x = acct, acc + of_nat (fillable ?ok acct (rq ?m zs)))"
      using available_in_level_eq [of p kNilIndex zs ?ok acct acc] level_ok_repr [OF lok] pr True
      by (simp add: level_repr_def)
    show ?thesis
      using Suc.hyps(1) [of "rank + 1" "acc + of_nat (fillable ?ok acct (rq ?m zs))"] Suc.hyps(2) len lv walk True pr
      unfolding split
      by (subst available_from_rank.simps) (auto simp: PriceLevels_size_def fillable_append)
  qed
qed

end
