(* ===== verification/Book_Refinement.thy ===== *)
theory Book_Refinement
  imports Book_Matching
begin

text \<open>
  Every command of the book refines the command of \<open>Matching_Spec\<close>, from every well-formed book:
  it returns, no assertion fails and nothing undefined is read, and it leaves a well-formed book
  for the queues the specification computes.
\<close>

definition book_abs :: "Book \<Rightarrow> SpecBook \<Rightarrow> bool" where
  "book_abs b sb \<longleftrightarrow> (\<exists>L. book_ok b L \<and> (\<forall>s. s_queue sb s = queue_of (orders b) (L s))) \<and>
     s_cap sb = length (slots (pool b)) \<and> s_seq sb = next_seq b \<and> s_tid sb = next_trade_id b"

lemma book_absI:
  assumes "book_ok b L" "\<And>s. s_queue sb s = queue_of (orders b) (L s)" "s_cap sb = length (slots (pool b))"
    "s_seq sb = next_seq b" "s_tid sb = next_trade_id b"
  shows "book_abs b sb"
  using assms by (auto simp: book_abs_def)

lemma book_absE:
  assumes "book_abs b sb"
  obtains L where "book_ok b L" "\<And>s. s_queue sb s = queue_of (orders b) (L s)" "s_cap sb = length (slots (pool b))"
    "s_seq sb = next_seq b" "s_tid sb = next_trade_id b"
  using assms by (auto simp: book_abs_def)

text \<open>A command that rewrites one side.\<close>

lemma book_abs_side:
  assumes "book_ok b (L(s := xss))" "queue_of (orders b) xss = ys"
    "queue_of (orders b) (L (opposite s)) = s_queue sb (opposite s)"
    "s_cap sb = length (slots (pool b))" "s_seq sb = next_seq b" "s_tid sb = next_trade_id b"
  shows "book_abs b (set_queue sb s ys)"
proof (rule book_absI [OF assms(1)])
  show "s_queue (set_queue sb s ys) t = queue_of (orders b) ((L(s := xss)) t)" for t
    using assms(2,3) by (cases t; cases s) auto
qed (use assms in simp_all)

lemma book_okD:
  assumes "book_ok b L"
  shows "book_repr b L {}" "ids_ok (pool b) (id_map b)" "settled L" "pool_inv (pool b)" "idmap_inv (id_map b)"
  using assms by (auto simp: book_ok_def book_repr_def ids_ok_def)

lemma Book_new_abs: "book_abs (Book_new c) (spec_new (unat c))"
proof (rule book_absI [OF Book_new_ok])
  show "s_queue (spec_new (unat c)) s = queue_of (orders (Book_new c)) []" for s
    by (cases s) (simp_all add: spec_new_def s_queue_def)
qed (simp_all add: spec_new_def Book_new_def)

section \<open>Ids\<close>

lemma set_queues:
  assumes ok: "book_ok b L" and q: "\<And>s. s_queue sb s = queue_of (orders b) (L s)"
  shows "set (s_orders sb) = (\<lambda>i. resting_of (the (orders b i))) ` dom (orders b)"
proof -
  have "dom (orders b) = set (concat (L Buy)) \<union> set (concat (L (opposite Buy)))"
    using book_reprD(3) [OF book_okD(1) [OF ok]] unfolding layout_ok_side [of _ _ _ Buy] by simp
  then show ?thesis
    unfolding s_orders_sides [of sb Buy] q by (simp add: queue_of_def image_Un set_concat_rev del: set_concat)
qed

lemma live_id:
  assumes ok: "book_ok b L" and q: "\<And>s. s_queue sb s = queue_of (orders b) (L s)"
  shows "idm_map (id_map b) oid \<noteq> None \<longleftrightarrow> oid \<in> r_order_id ` set (s_orders sb)"
proof -
  have "r_order_id ` set (s_orders sb) = (\<lambda>i. order_id (the (orders b i))) ` dom (orders b)"
    unfolding set_queues [OF assms] by (simp add: image_image resting_of_def)
  moreover have "idm_map (id_map b) oid \<noteq> None \<longleftrightarrow> (\<exists>i x. orders b i = Some x \<and> order_id x = oid)"
    using book_okD(2) [OF ok] unfolding ids_ok_def by (metis not_None_eq)
  ultimately show ?thesis
    by (force simp: image_iff)
qed

lemma order_ids_inj:
  assumes "ids_ok p idm"
  shows "inj_on (\<lambda>i. r_order_id (resting_of (the (unchecked_at p i)))) (dom (unchecked_at p))"
  by (rule inj_onI) (use ids_ok_unique [OF assms] in \<open>force simp: resting_of_def\<close>)

lemma distinct_ids:
  assumes ok: "book_ok b L" and q: "\<And>s. s_queue sb s = queue_of (orders b) (L s)"
  shows "distinct (map r_order_id (s_orders sb))"
proof -
  let ?f = "\<lambda>i. r_order_id (resting_of (the (orders b i)))"
  have "s_orders sb = queue_of (orders b) (L Sell @ L Buy)"
    using q [of Buy] q [of Sell] by (simp add: s_orders_def s_queue_def)
  moreover have "distinct (concat (rev (L Sell @ L Buy)))" "set (concat (rev (L Sell @ L Buy))) = dom (orders b)"
    unfolding distinct_concat_rev set_concat_rev
    using book_reprD(3) [OF book_okD(1) [OF ok]] by (auto simp: layout_ok_def linked_def)
  ultimately show ?thesis
    using order_ids_inj [OF book_okD(2) [OF ok]]
    by (simp add: queue_of_def distinct_map comp_def del: set_concat concat_append rev_append)
qed

lemma length_orders:
  assumes ok: "book_ok b L" and q: "\<And>s. s_queue sb s = queue_of (orders b) (L s)"
  shows "length (s_orders sb) = card (dom (orders b))"
proof -
  have "card (dom (orders b)) = card (r_order_id ` set (s_orders sb))"
    unfolding set_queues [OF assms] image_image using order_ids_inj [OF book_okD(2) [OF ok]] by (simp add: card_image)
  also have "\<dots> = length (s_orders sb)"
    using distinct_card [OF distinct_ids [OF assms]] by simp
  finally show ?thesis ..
qed

lemma find_unique:
  "distinct (map f xs) \<Longrightarrow> y \<in> set xs \<Longrightarrow> List.find (\<lambda>x. f x = f y) xs = Some y"
  by (induction xs) (auto simp: image_iff)

lemma lookup_live:
  assumes ok: "book_ok b L" and q: "\<And>s. s_queue sb s = queue_of (orders b) (L s)" and x: "orders b i = Some x"
  shows "lookup_id sb (order_id x) = Some (resting_of x)"
proof -
  have "resting_of x \<in> set (s_orders sb)"
    unfolding set_queues [OF ok q] using x by (force intro: image_eqI [where x = i])
  with distinct_ids [OF ok q] show ?thesis
    using find_unique [of r_order_id "s_orders sb" "resting_of x"] by (simp add: lookup_id_def resting_of_def)
qed

lemma lookup_dead:
  assumes "book_ok b L" "\<And>s. s_queue sb s = queue_of (orders b) (L s)" "idm_map (id_map b) oid = None"
  shows "lookup_id sb oid = None"
  using live_id [OF assms(1,2), of oid] assms(3) by (auto simp: lookup_id_def find_None_iff)

text \<open>Which side an id is on.\<close>

lemma live_linked:
  assumes ok: "book_ok b L" and x: "orders b i = Some x"
  shows "i \<in> set (concat (L (side x)))"
proof -
  have "side x = s" if i: "i \<in> set (concat (L s))" for s
    by (rule side_repr_member [OF book_reprD(2) [OF book_okD(1) [OF ok]] i]) (use x in simp)
  moreover have "i \<in> set (concat (L Buy)) \<union> set (concat (L Sell))"
    using book_reprD(3) [OF book_okD(1) [OF ok]] x unfolding layout_ok_def linked_def by blast
  ultimately show ?thesis
    by (metis UnE)
qed

lemma remove_id_split:
  assumes "\<forall>y \<in> set (us @ vs). r_order_id y \<noteq> oid" "r_order_id x = oid"
  shows "remove_id oid (us @ x # vs) = us @ vs"
  using assms by (simp add: remove_id_def filter_id_conv)

lemma set_qty_split:
  assumes "\<forall>y \<in> set (us @ vs). r_order_id y \<noteq> oid" "r_order_id x = oid"
  shows "set_qty oid q (us @ x # vs) = us @ x\<lparr>r_qty := q\<rparr> # vs"
  using assms by (simp add: set_qty_def map_idI)

section \<open>Resting an order\<close>

lemma rest_full:
  assumes ok: "book_ok b L" and full: "free_head (pool b) = kNilIndex"
  obtains b' where "rest b s p x seq = Some (False, b')" "book_ok b' L" "pool b' = pool b"
    "next_seq b' = next_seq b" "next_trade_id b' = next_trade_id b"
proof -
  note rep = book_okD(1) [OF ok]
  obtain b1 As xs Bs lv where g: "level_for_insert b s p = Some (length As, b1)"
    "book_repr b1 (L(s := As @ xs # Bs)) {}" "level_at (levels_of b1 s) (length As) = Some lv" "lv_price lv = p"
    "L s = As @ xs # Bs \<or> xs = [] \<and> L s = As @ Bs"
    "pool b1 = pool b" "id_map b1 = id_map b" "next_seq b1 = next_seq b" "next_trade_id b1 = next_trade_id b"
    using insert_level_step [OF rep room_for_level [OF rep book_okD(3) [OF ok]]] by metis
  have alloc: "allocate (pool b1) x = Some (Handle_nil, pool b)"
    using allocate_full [OF full] g(6) by simp
  have b1_eq: "b1\<lparr>pool := pool b\<rparr> = b1"
    using g(6) [symmetric] by simp
  have "level_repr (orders b1) lv xs"
    using book_reprD(2) [OF g(2), of s] g(3) by (auto elim!: side_repr_split dest: level_ok_repr)
  then have hd: "head lv = kNilIndex \<longleftrightarrow> xs = []"
    by (rule level_repr_empty_iff)
  show ?thesis
  proof (cases "xs = []")
    case True
    with g(5) book_okD(3) [OF ok] have L: "L s = As @ Bs"
      by (auto simp: settled_side [of L s])
    obtain b2 where b2: "erase_level b1 s p = Some b2" "book_repr b2 ((L(s := As @ xs # Bs))(s := As @ Bs)) {}"
        "pool b2 = pool b1" "id_map b2 = id_map b1" "next_seq b2 = next_seq b1" "next_trade_id b2 = next_trade_id b1"
      by (rule erase_level_step [OF g(2) _ g(3,4)]) (simp_all add: True)
    have "book_ok b2 L"
      using b2 g(6,7) ok L by (simp add: book_ok_def fun_upd_idem)
    then show ?thesis
      using that [of b2] g b2 alloc hd True by (simp add: rest_def b1_eq)
  next
    case False
    with g(5) have "book_ok b1 L"
      using g(2,6,7) ok by (simp add: book_ok_def fun_upd_idem)
    then show ?thesis
      using that [of b1] g alloc hd False by (simp add: rest_def b1_eq)
  qed
qed

text \<open>The queues after an order was appended to the level for its price.\<close>

lemma appended_queues:
  assumes q: "\<And>y. y \<in> set (queue_of m As) \<Longrightarrow> better (best_of s) (price x) (r_price y)"
      "\<And>y. y \<in> set (queue_of m Bs) \<Longrightarrow> better (best_of s) (r_price y) (price x)"
      "\<And>i. i \<in> set xs \<Longrightarrow> r_price (resting_of (the (m i))) = price x"
    and sp: "same_payload (m(i \<mapsto> x)) m'" and new: "i \<notin> set (concat (As @ xs # Bs))"
    and sub: "set (concat (As @ xs # Bs)) \<subseteq> dom m"
  shows "queue_of m' (As @ (xs @ [i]) # Bs) = enqueue s (resting_of x) (queue_of m (As @ xs # Bs))"
proof -
  have "queue_of m' (As @ (xs @ [i]) # Bs) = queue_of (m(i \<mapsto> x)) (As @ (xs @ [i]) # Bs)"
    by (rule queue_of_payload [OF sp]) (use sub in auto)
  also have "\<dots> = queue_of m Bs @ rq m xs @ [resting_of x] @ queue_of m As"
  proof -
    have "queue_of (m(i \<mapsto> x)) As = queue_of m As" "queue_of (m(i \<mapsto> x)) Bs = queue_of m Bs"
      using new by (intro queue_of_frame; auto)+
    moreover have "rq (m(i \<mapsto> x)) xs = rq m xs"
      using new by auto
    ultimately show ?thesis by simp
  qed
  also have "\<dots> = enqueue s (resting_of x) (queue_of m Bs @ rq m xs @ queue_of m As)"
  proof (rule enqueue_split [symmetric])
    have r: "r_price (resting_of x) = price x"
      by (simp add: resting_of_def)
    show "y \<in> set (queue_of m Bs) \<Longrightarrow> better (best_of s) (r_price y) (r_price (resting_of x))" for y
      using q(2) r by simp
    show "y \<in> set (rq m xs) \<Longrightarrow> r_price y = r_price (resting_of x)" for y
      using q(3) r by auto
    show "y \<in> set (queue_of m As) \<Longrightarrow> better (best_of s) (r_price (resting_of x)) (r_price y)" for y
      using q(1) r by simp
  qed
  finally show ?thesis by simp
qed

lemma settled_append:
  "settled L \<Longrightarrow> L s = As @ xs # Bs \<or> xs = [] \<and> L s = As @ Bs \<Longrightarrow> settled (L(s := As @ (xs @ [i]) # Bs))"
  by (auto simp: settled_side [of _ s])

lemma queue_of_insert_level:
  "yss = As @ xs # Bs \<or> xs = [] \<and> yss = As @ Bs \<Longrightarrow> queue_of m (As @ xs # Bs) = queue_of m yss"
  by auto

text \<open>
  From an order \<open>i\<close> that is live but linked nowhere: create its level if need be and append it.
  \<open>rest\<close> and \<open>modify_order\<close> both end this way.
\<close>

lemma link_step:
  assumes rep: "book_repr b L {i}" and st: "settled L" and x: "orders b i = Some x" "side x = s" "qty x > 0"
  obtains As xs Bs b1 lv lv' p' b' where "level_for_insert b s (price x) = Some (length As, b1)"
    "level_at (levels_of b1 s) (length As) = Some lv" "pool b1 = pool b"
    "level_append lv (pool b) i = Some (lv', p')" "store_level (b1\<lparr>pool := p'\<rparr>) s (length As) lv' = Some b'"
    "book_repr b' (L(s := As @ (xs @ [i]) # Bs)) {}" "settled (L(s := As @ (xs @ [i]) # Bs))"
    "links_frame (pool b) (pool b') (insert i (set xs))" "id_map b' = id_map b"
    "next_seq b' = next_seq b" "next_trade_id b' = next_trade_id b"
    "queue_of (orders b') (As @ (xs @ [i]) # Bs) = enqueue s (resting_of x) (queue_of (orders b) (L s))"
    "queue_of (orders b') (L (opposite s)) = queue_of (orders b) (L (opposite s))"
proof -
  obtain b1 As xs Bs lv where g: "level_for_insert b s (price x) = Some (length As, b1)"
    "book_repr b1 (L(s := As @ xs # Bs)) {i}" "level_at (levels_of b1 s) (length As) = Some lv" "lv_price lv = price x"
    "L s = As @ xs # Bs \<or> xs = [] \<and> L s = As @ Bs"
    and q: "\<And>y. y \<in> set (queue_of (orders b) As) \<Longrightarrow> better (best_of s) (price x) (r_price y)"
    "\<And>y. y \<in> set (queue_of (orders b) Bs) \<Longrightarrow> better (best_of s) (r_price y) (price x)"
    and g': "pool b1 = pool b" "id_map b1 = id_map b" "next_seq b1 = next_seq b" "next_trade_id b1 = next_trade_id b"
    by (rule insert_level_step [OF rep room_for_level [OF rep st], where p = "price x" and s = s]) blast
  have x1: "orders b1 i = Some x" and pr: "price x = lv_price lv"
    using g' g x by simp_all
  obtain lv' p' b' where a: "level_append lv (pool b1) i = Some (lv', p')"
    "store_level (b1\<lparr>pool := p'\<rparr>) s (length As) lv' = Some b'"
    "book_repr b' ((L(s := As @ xs # Bs))(s := As @ (xs @ [i]) # Bs)) ({i} - {i})"
    "links_frame (pool b1) (pool b') (insert i (set xs))"
    "pool b' = p'" "id_map b' = id_map b1" "next_seq b' = next_seq b1" "next_trade_id b' = next_trade_id b1"
    by (rule append_step [OF g(2) fun_upd_same g(3) singletonI x1 x(2) pr x(3)])
  have lay: "layout_ok (L(s := As @ xs # Bs)) {i} (orders b)"
    using book_reprD(3) [OF g(2)] g'(1) by simp
  have new: "i \<notin> set (concat (As @ xs # Bs))" and sub: "set (concat (As @ xs # Bs)) \<subseteq> dom (orders b)"
      and opp: "set (concat (L (opposite s))) \<subseteq> dom (orders b)"
    using lay unfolding layout_ok_side [of _ _ _ s] by auto
  have sp: "same_payload (orders b) (orders b')"
    using a(4) g'(1) by (simp add: links_frame_def)
  have "level_ok (orders b) s lv xs"
    using book_reprD(2) [OF g(2), of s] g(3) g'(1) by (auto elim!: side_repr_split)
  then have "r_price (resting_of (the (orders b j))) = price x" if "j \<in> set xs" for j
    using level_ok_price that pr by metis
  moreover have "(orders b)(i \<mapsto> x) = orders b"
    using x(1) by auto
  ultimately have "queue_of (orders b') (As @ (xs @ [i]) # Bs) = enqueue s (resting_of x) (queue_of (orders b) (As @ xs # Bs))"
    using sp by (intro appended_queues q new sub) simp_all
  moreover have "queue_of (orders b') (L (opposite s)) = queue_of (orders b) (L (opposite s))"
    using sp opp by (rule queue_of_payload)
  moreover have "book_repr b' (L(s := As @ (xs @ [i]) # Bs)) {}"
    using a(3) by simp
  ultimately show ?thesis
    using that [of As b1 lv lv' p' b' xs Bs] g a g' settled_append [OF st g(5)] queue_of_insert_level [OF g(5)] by simp
qed

lemma set_levels_of_pool: "set_levels_of (b\<lparr>pool := p\<rparr>) s pl = (set_levels_of b s pl)\<lparr>pool := p\<rparr>"
  by (cases s) (simp_all add: set_levels_of_def)

lemma level_for_insert_pool:
  assumes "level_for_insert (b\<lparr>pool := p\<rparr>) s pr = Some (pos, b1)"
  obtains b0 where "level_for_insert b s pr = Some (pos, b0)" "b1 = b0\<lparr>pool := p\<rparr>" "pool b0 = pool b"
    "id_map b0 = id_map b"
  using assms by (auto simp: level_for_insert_def set_levels_of_pool)

lemma rest_stored:
  assumes ok: "book_ok b L" and nonfull: "free_head (pool b) \<noteq> kNilIndex"
    and x: "side x = s" "price x = p" "qty x > 0" and fresh: "idm_map (id_map b) (order_id x) = None"
  obtains b' xss where "rest b s p x seq = Some (True, b')" "book_ok b' (L(s := xss))"
    "queue_of (orders b') xss = enqueue s (resting_of (x\<lparr>seq_no := seq\<rparr>)) (queue_of (orders b) (L s))"
    "queue_of (orders b') (L (opposite s)) = queue_of (orders b) (L (opposite s))"
    "length (slots (pool b')) = length (slots (pool b))" "next_seq b' = next_seq b" "next_trade_id b' = next_trade_id b"
proof -
  note rep = book_okD(1) [OF ok] and ids = book_okD(2) [OF ok]
  let ?x = "x\<lparr>seq_no := seq\<rparr>"
  obtain i p1 where al: "allocate (pool b) x = Some (handle_of p1 i, p1)" "book_repr (b\<lparr>pool := p1\<rparr>) L (insert i {})"
    "orders b i = None" "unchecked_at p1 = (orders b)(i \<mapsto> x)" "generation p1 = generation (pool b)"
    "length (slots p1) = length (slots (pool b))" "Handle_valid (handle_of p1 i)"
    by (rule alloc_step [OF rep nonfull])
  have i1: "orders (b\<lparr>pool := p1\<rparr>) i = Some x"
    using al(4) by simp
  obtain p2 where w: "update_at (pool (b\<lparr>pool := p1\<rparr>)) i (\<lambda>x. x\<lparr>seq_no := seq\<rparr>) = Some p2"
    "book_repr ((b\<lparr>pool := p1\<rparr>)\<lparr>pool := p2\<rparr>) L {i}" "unchecked_at p2 = (orders (b\<lparr>pool := p1\<rparr>))(i \<mapsto> ?x)"
    "generation p2 = generation (pool (b\<lparr>pool := p1\<rparr>))" "length (slots p2) = length (slots (pool (b\<lparr>pool := p1\<rparr>)))"
    by (rule write_step [OF al(2) _ i1, where f = "\<lambda>x. x\<lparr>seq_no := seq\<rparr>"]) blast+
  define b2 where "b2 = b\<lparr>pool := p2\<rparr>"
  have b2: "book_repr b2 L {i}" "orders b2 i = Some ?x" "side ?x = s" "qty ?x > 0"
    using w x by (simp_all add: b2_def)
  obtain As xs Bs b3 lv lv' p' b' where l: "level_for_insert b2 s (price ?x) = Some (length As, b3)"
    "level_at (levels_of b3 s) (length As) = Some lv" "pool b3 = pool b2"
    "level_append lv (pool b2) i = Some (lv', p')" "store_level (b3\<lparr>pool := p'\<rparr>) s (length As) lv' = Some b'"
    "book_repr b' (L(s := As @ (xs @ [i]) # Bs)) {}" "settled (L(s := As @ (xs @ [i]) # Bs))"
    "links_frame (pool b2) (pool b') (insert i (set xs))" "id_map b' = id_map b2"
    "next_seq b' = next_seq b2" "next_trade_id b' = next_trade_id b2"
    "queue_of (orders b') (As @ (xs @ [i]) # Bs) = enqueue s (resting_of ?x) (queue_of (orders b2) (L s))"
    "queue_of (orders b') (L (opposite s)) = queue_of (orders b2) (L (opposite s))"
    by (rule link_step [OF b2(1) book_okD(3) [OF ok] b2(2-4)])
  obtain b0 where b0: "level_for_insert b s p = Some (length As, b0)" "b3 = b0\<lparr>pool := p2\<rparr>" "pool b0 = pool b"
      "id_map b0 = id_map b"
    by (rule level_for_insert_pool [OF l(1) [unfolded b2_def]]) (simp add: x)
  have hnd: "handle_of p2 i = handle_of p1 i"
    using w(4) by (simp add: handle_of_def)
  have p2: "unchecked_at p2 = (orders b)(i \<mapsto> ?x)" "generation p2 = generation (pool b)" "length (slots p2) = length (slots (pool b))"
    using w al by simp_all
  have fresh': "idm_map (id_map b) (order_id ?x) = None" and valid: "Handle_valid (handle_of p2 i)" and inv2: "pool_inv p2"
    using fresh al(7) hnd book_reprD(1) [OF b2(1)] by (simp_all add: b2_def)
  obtain idm' where im: "IdMap_insert (id_map b) (order_id ?x) (handle_of p2 i) = Some idm'" "ids_ok p2 idm'"
    by (rule ids_ok_insert [OF ids inv2 al(3) p2 fresh' valid])
  have idb': "id_map b' = id_map b"
    using l(9) by (simp add: b2_def)
  have "rest b s p x seq = Some (True, b'\<lparr>id_map := idm'\<rparr>)"
  proof -
    have "pool_get p1 (handle_of p1 i) = Some (Some x)"
      using book_reprD(1) [OF al(2)] i1 by (intro pool_get_handle_of) simp_all
    moreover have "Handle_index (handle_of p1 i) = i"
      by (simp add: handle_of_def)
    ultimately show ?thesis
      using b0 al(1,7) w(1) l(2,4,5) im(1) hnd idb' by (simp add: rest_def b2_def)
  qed
  moreover have "book_ok (b'\<lparr>id_map := idm'\<rparr>) (L(s := As @ (xs @ [i]) # Bs))"
  proof -
    have "ids_ok (pool b') idm'"
      by (rule ids_ok_links [OF im(2)]) (use l(8) in \<open>simp add: b2_def\<close>)
    then show ?thesis
      using l(6,7) by (simp add: book_ok_def book_repr_def)
  qed
  moreover have "queue_of (orders b2) (L t) = queue_of (orders b) (L t)" for t
    using book_repr_dom [OF rep, of t] al(3) p2(1) by (intro queue_of_frame) (auto simp: b2_def)
  ultimately show ?thesis
    using that [of "b'\<lparr>id_map := idm'\<rparr>" "As @ (xs @ [i]) # Bs"] l p2(3) by (simp add: b2_def links_frame_def)
qed

section \<open>Adding orders\<close>

lemma AddResult_reset_eq [simp]: "AddResult_reset r = empty_result"
  by (cases r) (simp add: AddResult_reset_def empty_result_def)

lemma book_ok_seq [simp]: "book_ok (b\<lparr>next_seq := n\<rparr>) L = book_ok b L"
  by (simp add: book_ok_def book_repr_def)

lemma book_abs_seq:
  assumes "book_abs b sb"
  shows "book_abs (b\<lparr>next_seq := n\<rparr>) (sb\<lparr>s_seq := n\<rparr>)"
  using assms by (elim book_absE) (auto intro!: book_absI)

lemma match_queue_ids:
  "match_queue ok acct taker seq tid q xs = (stp, ts, ys, q', tid') \<Longrightarrow> r_order_id ` set ys \<subseteq> r_order_id ` set xs"
  by (induction ok acct taker seq tid q xs arbitrary: ts rule: match_queue.induct)
    (auto split: if_splits prod.splits)

lemma contains_refines:
  assumes "book_abs b sb"
  shows "IdMap_contains (id_map b) oid = Some (oid \<in> r_order_id ` set (s_orders sb))"
  using assms live_id by (auto elim!: book_absE simp: IdMap_contains_eq book_okD)

lemma available_refines:
  assumes "book_abs b sb"
  shows "available_before_self_trade b s limit acct crosses =
    Some (of_nat (fillable (\<lambda>r. crosses r limit) acct (s_queue sb s)))"
proof -
  obtain L where L: "book_ok b L" "\<And>s. s_queue sb s = queue_of (orders b) (L s)"
    using assms by (rule book_absE) blast
  have "[] \<notin> set (L s)"
    using book_okD(3) [OF L(1)] by (simp add: settled_side [of L s])
  then show ?thesis
    using available_from_rank_eq [OF book_reprD(2) [OF book_okD(1) [OF L(1)]], of s limit acct crosses 0 0]
    by (simp add: available_before_self_trade_def L(2) queue_of_def)
qed

lemma fok_check: "\<not> (of_nat n :: Qty) < q \<longleftrightarrow> \<not> wrap32 n < unat q"
  by (simp add: word_less_nat_alt wrap32_def unat_of_nat take_bit_nat_def)

lemma cross_abs:
  assumes abs: "book_abs b sb"
    and m: "match_queue (\<lambda>r. crosses r (price inc)) (account inc) (order_id inc) seq (s_tid sb) (qty inc) (s_queue sb s) =
      (stp, ts', ys, q', tid')"
  obtains b' where "cross b s crosses inc seq ts = Some (stp, b', inc\<lparr>qty := q'\<rparr>, ts @ ts')"
    "book_abs b' ((set_queue sb s ys)\<lparr>s_tid := tid'\<rparr>)"
proof -
  obtain L where L: "book_ok b L" "\<And>s. s_queue sb s = queue_of (orders b) (L s)" "s_cap sb = length (slots (pool b))"
      "s_seq sb = next_seq b" "s_tid sb = next_trade_id b"
    using abs by (rule book_absE) blast
  obtain stp1 b' inc' ts1 xss where run: "cross b s crosses inc seq ts = Some (stp1, b', inc', ts @ ts1)"
      and sc: "side_crossed (\<lambda>r. crosses r (price inc)) s seq b L inc stp1 b' inc' ts1 xss"
    using cross_refines [OF L(1)] by blast
  note scD = sc [unfolded side_crossed_def]
  have eq: "stp1 = stp" "ts1 = ts'" "queue_of (orders b') xss = ys" "qty inc' = q'" "next_trade_id b' = tid'"
    using scD m by (simp_all add: L(2,5))
  have inc': "inc' = inc\<lparr>qty := q'\<rparr>"
    using scD eq(4) by auto
  have "book_abs b' (set_queue (sb\<lparr>s_tid := tid'\<rparr>) s ys)"
    using scD L eq by (intro book_abs_side [of _ L _ xss]) simp_all
  moreover have "set_queue (sb\<lparr>s_tid := tid'\<rparr>) s ys = (set_queue sb s ys)\<lparr>s_tid := tid'\<rparr>"
    by (cases s) (simp_all add: set_queue_def)
  ultimately have "book_abs b' ((set_queue sb s ys)\<lparr>s_tid := tid'\<rparr>)"
    by simp
  moreover have "cross b s crosses inc seq ts = Some (stp, b', inc\<lparr>qty := q'\<rparr>, ts @ ts')"
    using run eq(1,2) inc' by simp
  ultimately show ?thesis
    using that by blast
qed

lemma rest_abs:
  assumes abs: "book_abs b sb" and x: "side x = s" "price x = p" "qty x > 0"
    and fresh: "order_id x \<notin> r_order_id ` set (s_orders sb)"
  obtains b' where "rest b s p x seq = Some (length (s_orders sb) < s_cap sb, b')"
    "book_abs b' (if length (s_orders sb) < s_cap sb
       then set_queue sb s (enqueue s (resting_of (x\<lparr>seq_no := seq\<rparr>)) (s_queue sb s)) else sb)"
proof -
  obtain L where L: "book_ok b L" "\<And>s. s_queue sb s = queue_of (orders b) (L s)" "s_cap sb = length (slots (pool b))"
      "s_seq sb = next_seq b" "s_tid sb = next_trade_id b"
    using abs by (rule book_absE) blast
  have room: "free_head (pool b) \<noteq> kNilIndex \<longleftrightarrow> length (s_orders sb) < s_cap sb"
    using free_head_kNil_iff [OF book_okD(4) [OF L(1)]] card_orders_le [OF book_okD(4) [OF L(1)]]
      length_orders [OF L(1,2)] L(3) by auto
  show ?thesis
  proof (cases "free_head (pool b) = kNilIndex")
    case True
    obtain b' where r: "rest b s p x seq = Some (False, b')" "book_ok b' L" "pool b' = pool b"
        "next_seq b' = next_seq b" "next_trade_id b' = next_trade_id b"
      by (rule rest_full [OF L(1) True])
    then have "book_abs b' sb"
      using L by (intro book_absI [OF r(2)]) simp_all
    then show ?thesis
      using that [of b'] True room r(1) by simp
  next
    case False
    have "idm_map (id_map b) (order_id x) = None"
      using live_id [OF L(1,2)] fresh by blast
    from rest_stored [OF L(1) False x this, of seq] obtain b' xss where r: "rest b s p x seq = Some (True, b')" "book_ok b' (L(s := xss))"
      "queue_of (orders b') xss = enqueue s (resting_of (x\<lparr>seq_no := seq\<rparr>)) (queue_of (orders b) (L s))"
      "queue_of (orders b') (L (opposite s)) = queue_of (orders b) (L (opposite s))"
      "length (slots (pool b')) = length (slots (pool b))" "next_seq b' = next_seq b" "next_trade_id b' = next_trade_id b"
      by blast
    have "book_abs b' (set_queue sb s (enqueue s (resting_of (x\<lparr>seq_no := seq\<rparr>)) (s_queue sb s)))"
      using r L by (intro book_abs_side [OF r(2)]) simp_all
    with that [of b'] r(1) False room show ?thesis by simp
  qed
qed

lemma s_orders_after_match:
  assumes "match_queue ok acct taker seq tid q (s_queue sb s) = (stp, ts, ys, q', tid')" "oid \<notin> r_order_id ` set (s_orders sb)"
  shows "oid \<notin> r_order_id ` set (s_orders ((set_queue sb s ys)\<lparr>s_tid := t\<rparr>))"
  using match_queue_ids [OF assms(1)] assms(2) by (auto simp: s_orders_sides [of _ s])

lemma available_seq [simp]:
  "available_before_self_trade (b\<lparr>next_seq := n\<rparr>) s limit acct crosses =
     available_before_self_trade b s limit acct crosses"
  by (simp add: available_before_self_trade_def)

lemma resting_of_incoming:
  "resting_of (default_Order\<lparr>order_id := oid, side := s, price := p, qty := q, account := acct, qty := q', seq_no := seq\<rparr>) =
     \<lparr>r_side = s, r_price = p, r_order_id = oid, r_qty = q', r_account = acct, r_seq_no = seq\<rparr>"
  by (simp add: resting_of_def default_Order_def)

lemma add_limit_refines:
  assumes abs: "book_abs b sb"
  shows "\<exists>b'. add_limit_order r b oid s p q acct tif = Some (fst (spec_add_limit sb oid s p q acct tif), b') \<and>
    book_abs b' (snd (spec_add_limit sb oid s p q acct tif))"
proof -
  let ?ok = "\<lambda>r. limit_crosses s r p" and ?seq = "next_seq b"
  let ?b = "b\<lparr>next_seq := ?seq + 1\<rparr>" and ?sb = "sb\<lparr>s_seq := ?seq + 1\<rparr>"
  let ?inc = "default_Order\<lparr>order_id := oid, side := s, price := p, qty := q, account := acct\<rparr>"
  have seq: "s_seq sb = ?seq"
    using abs by (simp add: book_abs_def)
  have abs1: "book_abs ?b ?sb"
    using abs by (rule book_abs_seq)
  note contains = contains_refines [OF abs, of oid] and avail = available_refines [OF abs, of "opposite s" p acct "limit_crosses s"]
  have enough: "(\<not> (of_nat (fillable ?ok acct (s_queue sb (opposite s))) :: Qty) < q) =
      (\<not> wrap32 (fillable ?ok acct (s_queue sb (opposite s))) < unat q)"
    by (rule fok_check)
  let ?dup = "q = 0 \<or> oid \<in> r_order_id ` set (s_orders sb)"
  let ?short = "tif = FOK \<and> wrap32 (fillable ?ok acct (s_queue sb (opposite s))) < unat q"
  consider ?dup | "\<not> ?dup" ?short | "\<not> ?dup" "\<not> ?short"
    by blast
  then show ?thesis
  proof cases
    case 1
    then have "add_limit_order r b oid s p q acct tif = Some (empty_result, ?b)"
      using contains by (auto simp: add_limit_order_def Let_def)
    moreover have "spec_add_limit sb oid s p q acct tif = (empty_result, ?sb)"
      using 1 seq by (simp add: spec_add_limit_def spec_submit_def)
    ultimately show ?thesis
      using abs1 by simp
  next
    case 2
    then have "add_limit_order r b oid s p q acct tif = Some (empty_result\<lparr>accepted := True\<rparr>, ?b)"
      using contains avail enough by (simp add: add_limit_order_def Let_def)
    moreover have "spec_add_limit sb oid s p q acct tif = (empty_result\<lparr>accepted := True\<rparr>, ?sb)"
      using 2 seq by (simp add: spec_add_limit_def spec_submit_def)
    ultimately show ?thesis
      using abs1 by simp
  next
    case 3
    obtain stp ts ys q' tid' where m: "match_queue ?ok acct oid ?seq (s_tid sb) q (s_queue sb (opposite s)) = (stp, ts, ys, q', tid')"
      by (metis prod_cases5)
    let ?sb2 = "(set_queue ?sb (opposite s) ys)\<lparr>s_tid := tid'\<rparr>"
    let ?r = "empty_result\<lparr>accepted := True, trades := ts, stp_rejected := stp\<rparr>"
    obtain b2 where b2: "cross ?b (opposite s) (limit_crosses s) ?inc ?seq [] = Some (stp, b2, ?inc\<lparr>qty := q'\<rparr>, [] @ ts)"
        "book_abs b2 ?sb2"
      by (rule cross_abs [OF abs1, where inc = ?inc and s = "opposite s" and crosses = "limit_crosses s" and seq = ?seq])
        (simp add: m)
    have code: "add_limit_order r b oid s p q acct tif =
        (if tif = GTC \<and> \<not> stp \<and> q' > 0 then
           do { (rested, b3) \<leftarrow> rest b2 s p (?inc\<lparr>qty := q'\<rparr>) ?seq;
                Some (if rested then ?r\<lparr>resting_qty := q'\<rparr> else ?r\<lparr>pool_exhausted := True\<rparr>, b3) }
         else Some (?r, b2))"
      using 3 contains avail enough b2(1) by (auto simp: add_limit_order_def Let_def empty_result_def cong: if_cong)
    have spec: "spec_add_limit sb oid s p q acct tif =
        (if tif = GTC \<and> \<not> stp \<and> q' > 0
         then if length (s_orders ?sb2) < s_cap ?sb2
              then (?r\<lparr>resting_qty := q'\<rparr>, set_queue ?sb2 s (enqueue s \<lparr>r_side = s, r_price = p, r_order_id = oid,
                      r_qty = q', r_account = acct, r_seq_no = ?seq\<rparr> (s_queue ?sb2 s)))
              else (?r\<lparr>pool_exhausted := True\<rparr>, ?sb2)
         else (?r, ?sb2))"
      using 3 m seq by (auto simp: spec_add_limit_def spec_submit_def Let_def)
    show ?thesis
    proof (cases "tif = GTC \<and> \<not> stp \<and> q' > 0")
      case False
      then show ?thesis
        unfolding code spec using b2(2) by auto
    next
      case True
      have "oid \<notin> r_order_id ` set (s_orders ?sb2)"
        using 3(1) m by (intro s_orders_after_match [where sb = ?sb]) simp_all
      then have x: "side (?inc\<lparr>qty := q'\<rparr>) = s" "price (?inc\<lparr>qty := q'\<rparr>) = p" "qty (?inc\<lparr>qty := q'\<rparr>) > 0"
          "order_id (?inc\<lparr>qty := q'\<rparr>) \<notin> r_order_id ` set (s_orders ?sb2)"
        using True by simp_all
      obtain b3 where b3: "rest b2 s p (?inc\<lparr>qty := q'\<rparr>) ?seq = Some (length (s_orders ?sb2) < s_cap ?sb2, b3)"
          "book_abs b3 (if length (s_orders ?sb2) < s_cap ?sb2
             then set_queue ?sb2 s (enqueue s (resting_of (?inc\<lparr>qty := q', seq_no := ?seq\<rparr>)) (s_queue ?sb2 s)) else ?sb2)"
        by (rule rest_abs [OF b2(2) x])
      show ?thesis
        unfolding code spec using True b3(1) b3(2) [unfolded resting_of_incoming] by (auto split: if_splits)
    qed
  qed
qed

lemma add_market_refines:
  assumes abs: "book_abs b sb"
  shows "\<exists>b'. add_market_order r b oid s q acct = Some (fst (spec_add_market sb oid s q acct), b') \<and>
    book_abs b' (snd (spec_add_market sb oid s q acct))"
proof -
  let ?ok = "\<lambda>r :: Price. True" and ?seq = "next_seq b"
  let ?b = "b\<lparr>next_seq := ?seq + 1\<rparr>" and ?sb = "sb\<lparr>s_seq := ?seq + 1\<rparr>"
  let ?inc = "default_Order\<lparr>order_id := oid, side := s, qty := q, account := acct\<rparr>"
  have seq: "s_seq sb = ?seq"
    using abs by (simp add: book_abs_def)
  have abs1: "book_abs ?b ?sb"
    using abs by (rule book_abs_seq)
  note contains = contains_refines [OF abs, of oid]
  let ?dup = "q = 0 \<or> oid \<in> r_order_id ` set (s_orders sb)"
  show ?thesis
  proof (cases ?dup)
    case True
    then have "add_market_order r b oid s q acct = Some (empty_result, ?b)"
      using contains by (auto simp: add_market_order_def Let_def)
    moreover have "spec_add_market sb oid s q acct = (empty_result, ?sb)"
      using True seq by (simp add: spec_add_market_def spec_submit_def)
    ultimately show ?thesis
      using abs1 by simp
  next
    case False
    obtain stp ts ys q' tid' where m: "match_queue ?ok acct oid ?seq (s_tid sb) q (s_queue sb (opposite s)) = (stp, ts, ys, q', tid')"
      by (metis prod_cases5)
    let ?sb2 = "(set_queue ?sb (opposite s) ys)\<lparr>s_tid := tid'\<rparr>"
    obtain b2 where b2: "cross ?b (opposite s) market_crosses ?inc ?seq [] = Some (stp, b2, ?inc\<lparr>qty := q'\<rparr>, [] @ ts)"
        "book_abs b2 ?sb2"
      by (rule cross_abs [OF abs1, where inc = ?inc and s = "opposite s" and crosses = market_crosses and seq = ?seq])
        (simp add: m market_crosses_def)
    have "add_market_order r b oid s q acct =
        Some (empty_result\<lparr>accepted := True, trades := ts, stp_rejected := stp\<rparr>, b2)"
      using False contains b2(1) by (simp add: add_market_order_def Let_def empty_result_def)
    moreover have "spec_add_market sb oid s q acct = (empty_result\<lparr>accepted := True, trades := ts, stp_rejected := stp\<rparr>, ?sb2)"
      using False m seq by (simp add: spec_add_market_def spec_submit_def Let_def)
    ultimately show ?thesis
      using b2(2) by simp
  qed
qed

section \<open>Cancel and modify\<close>

text \<open>Taking a resting order out of its level, and the level out of its side if that empties it.\<close>

lemma unlink_prune:
  assumes ok: "book_ok b L" and x: "orders b i = Some x"
  obtains pos lv lv' p' b1 b2 xss us vs where "level_for b (side x) (price x) = Some pos"
    "level_at (levels_of b (side x)) pos = Some lv" "level_unlink lv (pool b) i = Some (lv', p')"
    "store_level (b\<lparr>pool := p'\<rparr>) (side x) pos lv' = Some b1"
    "(if head lv' = kNilIndex then erase_level b1 (side x) (price x) else Some b1) = Some b2"
    "book_repr b2 (L(side x := xss)) {i}" "settled (L(side x := xss))" "links_frame (pool b) (pool b2) UNIV"
    "id_map b2 = id_map b" "next_seq b2 = next_seq b" "next_trade_id b2 = next_trade_id b"
    "queue_of (orders b) (L (side x)) = us @ resting_of x # vs" "queue_of (orders b2) xss = us @ vs"
    "queue_of (orders b2) (L (opposite (side x))) = queue_of (orders b) (L (opposite (side x)))"
proof -
  let ?s = "side x"
  note rep = book_okD(1) [OF ok] and st = book_okD(3) [OF ok]
  obtain As xs ys Bs lv x' where pos: "L ?s = As @ (xs @ i # ys) # Bs"
    "level_at (levels_of b ?s) (length As) = Some lv" "orders b i = Some x'" "side x' = ?s"
    "price x' = lv_price lv" "qty x' > 0" "level_for b ?s (price x') = Some (length As)"
    by (rule linked_position [OF rep live_linked [OF ok x]])
  have x': "x' = x"
    using pos(3) x by simp
  obtain lv' p' b1 where u: "level_unlink lv (pool b) i = Some (lv', p')"
    "store_level (b\<lparr>pool := p'\<rparr>) ?s (length As) lv' = Some b1"
    "book_repr b1 (L(?s := As @ (xs @ ys) # Bs)) (insert i {})" "links_frame (pool b) (pool b1) (set (xs @ i # ys))"
    "lv_price lv' = lv_price lv" "level_at (levels_of b1 ?s) (length As) = Some lv'"
    "head lv' = kNilIndex \<longleftrightarrow> xs @ ys = []" "pool b1 = p'" "id_map b1 = id_map b"
    "next_seq b1 = next_seq b" "next_trade_id b1 = next_trade_id b"
    by (rule unlink_step [OF rep pos(1,2)])
  define xss where "xss = (if xs @ ys = [] then As @ Bs else As @ (xs @ ys) # Bs)"
  have lv'_price: "lv_price lv' = price x"
    using u(5) pos(5) x' by simp
  obtain b2 where b2: "(if head lv' = kNilIndex then erase_level b1 ?s (price x) else Some b1) = Some b2"
    "book_repr b2 (L(?s := xss)) {i}" "pool b2 = pool b1" "id_map b2 = id_map b1" "next_seq b2 = next_seq b1"
    "next_trade_id b2 = next_trade_id b1"
  proof (cases "xs @ ys = []")
    case True
    have "(L(?s := As @ (xs @ ys) # Bs)) ?s = As @ [] # Bs"
      using True by simp
    from erase_level_step [OF u(3) this u(6) lv'_price] obtain b2 where "erase_level b1 ?s (price x) = Some b2"
      "book_repr b2 ((L(?s := As @ (xs @ ys) # Bs))(?s := As @ Bs)) {i}" "pool b2 = pool b1" "id_map b2 = id_map b1"
      "next_seq b2 = next_seq b1" "next_trade_id b2 = next_trade_id b1"
      by blast
    with True u(7) show ?thesis
      by (intro that [of b2]) (simp_all add: xss_def)
  next
    case False
    with u(3,7) show ?thesis
      by (intro that [of b1]) (auto simp: xss_def)
  qed
  have sp: "same_payload (orders b) (orders b2)"
    using u(4) b2(3) by (simp add: links_frame_def)
  define us vs where "us = queue_of (orders b) Bs @ rq (orders b) xs" and "vs = rq (orders b) ys @ queue_of (orders b) As"
  have "queue_of (orders b) (L ?s) = us @ resting_of x # vs" "queue_of (orders b) xss = us @ vs"
    using x by (auto simp: pos(1) us_def vs_def xss_def)
  moreover have "queue_of (orders b2) xss = queue_of (orders b) xss"
    by (rule queue_of_payload [OF sp]) (use book_repr_dom [OF rep, of ?s] in \<open>auto simp: pos(1) xss_def split: if_splits\<close>)
  moreover have "queue_of (orders b2) (L (opposite ?s)) = queue_of (orders b) (L (opposite ?s))"
    using sp book_repr_dom [OF rep] by (rule queue_of_payload)
  moreover have "settled (L(?s := xss))"
    using st pos(1) by (auto simp: settled_side [of _ ?s] xss_def)
  moreover have "links_frame (pool b) (pool b2) UNIV"
    using u(4) b2(3) by (auto elim: links_frame_mono)
  ultimately show ?thesis
    using that [of "length As" lv lv' p' b1 b2 xss us vs] pos(2,7) x' u b2 by simp
qed

lemma ids_around:
  "distinct (map f (us @ x # vs)) \<Longrightarrow> \<forall>y \<in> set (us @ vs). f y \<noteq> f x"
  by (auto simp: image_iff)

lemma queue_ids_distinct:
  assumes "book_ok b L" "\<And>s. s_queue sb s = queue_of (orders b) (L s)"
  shows "distinct (map r_order_id (s_queue sb s))"
  using distinct_ids [OF assms] by (cases s) (auto simp: s_orders_def s_queue_def)

lemma find_refines:
  assumes ok: "book_ok b L" and q: "\<And>s. s_queue sb s = queue_of (orders b) (L s)"
  obtains (dead) "IdMap_find (id_map b) oid = Some None" "lookup_id sb oid = None"
  | (live) i x where "IdMap_find (id_map b) oid = Some (Some (handle_of (pool b) i))" "orders b i = Some x"
      "order_id x = oid" "pool_get (pool b) (handle_of (pool b) i) = Some (Some x)" "lookup_id sb oid = Some (resting_of x)"
proof (cases "idm_map (id_map b) oid")
  case None
  then show ?thesis
    using IdMap_find_eq [OF book_okD(5) [OF ok], of oid] lookup_dead [OF ok q None] dead by simp
next
  case (Some h)
  then obtain i x where ix: "orders b i = Some x" "order_id x = oid" "h = handle_of (pool b) i"
    using book_okD(2) [OF ok] by (auto simp: ids_ok_def)
  then show ?thesis
    using Some IdMap_find_eq [OF book_okD(5) [OF ok], of oid] pool_get_handle_of [OF book_okD(4) [OF ok] ix(1)]
      lookup_live [OF ok q ix(1)] live by auto
qed

text \<open>An order that is not linked shows in no queue.\<close>

lemma unlinked_frame:
  assumes lay: "layout_ok L {i} m" and same: "\<And>j. j \<noteq> i \<Longrightarrow> m' j = m j"
  shows "queue_of m' (L t) = queue_of m (L t)"
proof (rule queue_of_frame)
  fix j
  assume "j \<in> set (concat (L t))"
  moreover have "i \<notin> set (concat (L t))"
    using lay unfolding layout_ok_side [of _ _ _ t] by auto
  ultimately have "j \<noteq> i" by metis
  then show "m' j = m j"
    by (rule same)
qed

text \<open>Freeing an unlinked order and forgetting its id.\<close>

lemma forget_step:
  assumes rep: "book_repr b L {i}" and st: "settled L" and ids: "ids_ok (pool b) (id_map b)" and x: "orders b i = Some x"
  obtains idm' where "IdMap_erase (id_map b) (order_id x) = Some (True, idm')"
    "book_ok (b\<lparr>pool := pool_free (pool b) (handle_of (pool b) i), id_map := idm'\<rparr>) L"
    "\<forall>t. queue_of (unchecked_at (pool_free (pool b) (handle_of (pool b) i))) (L t) = queue_of (orders b) (L t)"
    "length (slots (pool_free (pool b) (handle_of (pool b) i))) = length (slots (pool b))"
proof -
  let ?p = "pool_free (pool b) (handle_of (pool b) i)"
  note fr = pool_free_occupied [OF book_reprD(1) [OF rep] x]
  obtain idm' where e: "IdMap_erase (id_map b) (order_id x) = Some (True, idm')" "ids_ok ?p idm'"
    by (rule ids_ok_remove [OF ids book_reprD(1) [OF rep] x])
  have "book_repr (b\<lparr>pool := ?p, id_map := idm'\<rparr>) L {}"
    using free_step [OF rep singletonI] by (simp add: book_repr_def)
  then have "book_ok (b\<lparr>pool := ?p, id_map := idm'\<rparr>) L"
    using e(2) st by (simp add: book_ok_def)
  moreover have "queue_of (unchecked_at ?p) (L t) = queue_of (orders b) (L t)" for t
    using book_reprD(3) [OF rep] by (rule unlinked_frame) (simp add: fr(2))
  ultimately show ?thesis
    using that [of idm'] e(1) fr(4) by simp
qed

lemma cancel_refines:
  assumes abs: "book_abs b sb"
  shows "\<exists>b'. cancel_order b oid = Some (fst (spec_cancel sb oid), b') \<and> book_abs b' (snd (spec_cancel sb oid))"
proof -
  let ?b = "b\<lparr>next_seq := next_seq b + 1\<rparr>" and ?sb = "sb\<lparr>s_seq := s_seq sb + 1\<rparr>"
  have "s_seq sb = next_seq b"
    using abs by (simp add: book_abs_def)
  then have abs1: "book_abs ?b ?sb"
    using book_abs_seq [OF abs] by simp
  obtain L where L: "book_ok ?b L" "\<And>s. s_queue ?sb s = queue_of (orders ?b) (L s)" "s_cap ?sb = length (slots (pool ?b))"
      "s_seq ?sb = next_seq ?b" "s_tid ?sb = next_trade_id ?b"
    using abs1 by (rule book_absE) blast
  show ?thesis
  proof (cases rule: find_refines [OF L(1,2), where oid = oid, case_names dead live])
    case dead
    then show ?thesis
      using abs1 by (simp add: cancel_order_def spec_cancel_def Let_def)
  next
    case (live i x)
    let ?s = "side x"
    obtain pos lv lv' p' b1 b2 xss us vs where u: "level_for ?b ?s (price x) = Some pos"
      "level_at (levels_of ?b ?s) pos = Some lv" "level_unlink lv (pool ?b) i = Some (lv', p')"
      "store_level (?b\<lparr>pool := p'\<rparr>) ?s pos lv' = Some b1"
      "(if head lv' = kNilIndex then erase_level b1 ?s (price x) else Some b1) = Some b2"
      "book_repr b2 (L(?s := xss)) {i}" "settled (L(?s := xss))" "links_frame (pool ?b) (pool b2) UNIV"
      "id_map b2 = id_map ?b" "next_seq b2 = next_seq ?b" "next_trade_id b2 = next_trade_id ?b"
      "queue_of (orders ?b) (L ?s) = us @ resting_of x # vs" "queue_of (orders b2) xss = us @ vs"
      "queue_of (orders b2) (L (opposite ?s)) = queue_of (orders ?b) (L (opposite ?s))"
      by (rule unlink_prune [OF L(1) live(2)])
    have h: "handle_of (pool ?b) i = handle_of (pool b2) i"
      using u(8) by (simp add: handle_of_def links_frame_def)
    obtain y where y: "orders b2 i = Some y" "payload y = payload x"
      using u(8) live(2) same_payload_get by (fastforce simp: links_frame_def)
    have ids: "ids_ok (pool b2) (id_map b2)"
      unfolding u(9) using book_okD(2) [OF L(1)] u(8) by (rule ids_ok_links)
    obtain idm' where e: "IdMap_erase (id_map b2) (order_id y) = Some (True, idm')"
      "book_ok (b2\<lparr>pool := pool_free (pool b2) (handle_of (pool b2) i), id_map := idm'\<rparr>) (L(?s := xss))"
      "\<forall>t. queue_of (unchecked_at (pool_free (pool b2) (handle_of (pool b2) i))) ((L(?s := xss)) t) =
         queue_of (orders b2) ((L(?s := xss)) t)"
      "length (slots (pool_free (pool b2) (handle_of (pool b2) i))) = length (slots (pool b2))"
      by (rule forget_step [OF u(6,7) ids y(1)])
    let ?b' = "b2\<lparr>pool := pool_free (pool b2) (handle_of (pool b2) i), id_map := idm'\<rparr>"
    have i: "Handle_index (handle_of (pool b2) i) = i"
      by (simp add: handle_of_def)
    have "cancel_order b oid = Some (True, ?b')"
      using live(1,3,4) u(1-5) e(1) payload_fields(4) [OF y(2)] unfolding h
      by (simp add: cancel_order_def Let_def i)
    moreover have "remove_id oid (s_queue ?sb ?s) = us @ vs"
      using ids_around [of r_order_id us "resting_of x" vs] queue_ids_distinct [OF L(1,2), of ?s] live(3)
      unfolding L(2) u(12) by (intro remove_id_split) (auto simp: resting_of_def)
    then have "book_abs ?b' (set_queue ?sb ?s (remove_id oid (s_queue ?sb ?s)))"
      using L(2-5) u(8,10,11,13,14) e(4) spec [OF e(3), of ?s] spec [OF e(3), of "opposite ?s"]
      by (intro book_abs_side [OF e(2)]) (simp_all add: links_frame_def)
    ultimately show ?thesis
      using live(5) by (simp add: spec_cancel_def Let_def resting_of_def)
  qed
qed

lemma would_cross_refines:
  assumes ok: "book_ok b L" and q: "\<And>s. s_queue sb s = queue_of (orders b) (L s)"
  shows "would_cross b s p = Some (spec_would_cross sb s p)"
proof (cases "L (opposite s)" rule: rev_cases)
  case Nil
  have "side_repr (orders b) (opposite s) (levels_of b (opposite s)) []"
    using book_reprD(2) [OF book_okD(1) [OF ok], of "opposite s"] Nil by simp
  then have "PriceLevels_empty (levels_of b (opposite s))"
    using side_repr_length by (fastforce simp: PriceLevels_empty_def)
  then show ?thesis
    using Nil q by (simp add: would_cross_def spec_would_cross_def)
next
  case (snoc As xs)
  obtain lv where lv: "PriceLevels_best (levels_of b (opposite s)) = Some (length As)"
      "\<not> PriceLevels_empty (levels_of b (opposite s))"
      "level_at (levels_of b (opposite s)) (length As) = Some lv" "level_ok (orders b) (opposite s) lv xs"
    by (rule best_level [OF book_okD(1) [OF ok] snoc])
  have "xs \<noteq> []"
    using book_okD(3) [OF ok] snoc by (auto simp: settled_side [of L s])
  then obtain y ys where "s_queue sb (opposite s) = y # ys" "r_price y = lv_price lv"
    using level_ok_price [OF lv(4)] q snoc by (cases xs) auto
  then show ?thesis
    using lv by (cases s) (simp_all add: would_cross_def spec_would_cross_def limit_crosses_def)
qed

lemma qty_queue:
  assumes "distinct (concat xss)" "i \<in> set (concat xss)" "m i = Some x"
  obtains us vs where "queue_of m xss = us @ resting_of x # vs"
    "queue_of (m(i \<mapsto> x\<lparr>qty := q\<rparr>)) xss = us @ (resting_of x)\<lparr>r_qty := q\<rparr> # vs"
proof -
  have "i \<in> set (concat (rev xss))" "distinct (concat (rev xss))"
    using assms(1,2) by (simp_all only: set_concat_rev distinct_concat_rev)
  then obtain as bs where s: "concat (rev xss) = as @ i # bs" "i \<notin> set as" "i \<notin> set bs"
    by (metis distinct.simps(2) distinct_append not_distinct_conv_prefix split_list split_list_first)
  then have "rq (m(i \<mapsto> x\<lparr>qty := q\<rparr>)) as = rq m as" "rq (m(i \<mapsto> x\<lparr>qty := q\<rparr>)) bs = rq m bs"
    by (auto intro!: rq_frame)
  then show ?thesis
    using that [of "rq m as" "rq m bs"] s(1) assms(3) by (simp add: queue_of_def resting_of_def)
qed

lemma queue_of_other:
  "layout_ok L D m \<Longrightarrow> i \<in> set (concat (L s)) \<Longrightarrow> queue_of (m(i \<mapsto> x)) (L (opposite s)) = queue_of m (L (opposite s))"
  by (rule queue_of_frame) (auto simp: layout_ok_side [of L D m s])

text \<open>A reduction at the same price, in place.\<close>

lemma reduce_step:
  assumes ok: "book_ok b L" and q: "\<And>s. s_queue sb s = queue_of (orders b) (L s)"
    and cs: "s_cap sb = length (slots (pool b))" "s_seq sb = next_seq b" "s_tid sb = next_trade_id b"
    and x: "orders b i = Some x" and n: "n > 0"
  obtains p' where "update_at (pool b) i (\<lambda>x. x\<lparr>qty := n\<rparr>) = Some p'"
    "book_abs (b\<lparr>pool := p'\<rparr>) (set_queue sb (side x) (set_qty (order_id x) n (s_queue sb (side x))))"
proof -
  let ?s = "side x"
  note rep = book_okD(1) [OF ok]
  obtain p' where p': "update_at (pool b) i (\<lambda>x. x\<lparr>qty := n\<rparr>) = Some p'" "book_repr (b\<lparr>pool := p'\<rparr>) L {}"
    "unchecked_at p' = (orders b)(i \<mapsto> x\<lparr>qty := n\<rparr>)" "generation p' = generation (pool b)"
    "length (slots p') = length (slots (pool b))"
    by (rule qty_step [OF rep x n])
  have d: "distinct (concat (L ?s))"
    using book_reprD(3) [OF rep] by (simp add: layout_ok_side [of _ _ _ ?s])
  obtain us vs where uv: "queue_of (orders b) (L ?s) = us @ resting_of x # vs"
    "queue_of ((orders b)(i \<mapsto> x\<lparr>qty := n\<rparr>)) (L ?s) = us @ (resting_of x)\<lparr>r_qty := n\<rparr> # vs"
    by (rule qty_queue [where m = "orders b", OF d live_linked [OF ok x] x])
  have "set_qty (order_id x) n (s_queue sb ?s) = us @ (resting_of x)\<lparr>r_qty := n\<rparr> # vs"
    using ids_around [of r_order_id us "resting_of x" vs] queue_ids_distinct [OF ok q, of ?s]
    unfolding q uv(1) by (intro set_qty_split) (auto simp: resting_of_def)
  moreover have "ids_ok p' (id_map b)"
    by (rule ids_ok_cong [OF book_okD(2) [OF ok] p'(5,4)]) (simp add: p'(3) x)
  then have ok': "book_ok (b\<lparr>pool := p'\<rparr>) (L(?s := L ?s))"
    using p'(2) book_okD(3) [OF ok] by (simp add: book_ok_def)
  ultimately have "book_abs (b\<lparr>pool := p'\<rparr>) (set_queue sb ?s (set_qty (order_id x) n (s_queue sb ?s)))"
    using uv(2) p'(3,5) cs q queue_of_other [OF book_reprD(3) [OF rep] live_linked [OF ok x]]
    by (intro book_abs_side [OF ok']) simp_all
  with that p'(1) show ?thesis by blast
qed

text \<open>A modify that loses priority: out of its level, rewritten, behind the others at its new price.\<close>

lemma requeue_step:
  assumes ok: "book_ok b L" and q: "\<And>s. s_queue sb s = queue_of (orders b) (L s)"
    and cs: "s_cap sb = length (slots (pool b))" "s_seq sb = next_seq b" "s_tid sb = next_trade_id b"
    and x: "orders b i = Some x" and n: "n > 0"
  obtains pos lv lv1 p1 b1 b2 p2 pos2 b3 lv2 lv3 p3 b4 where
    "level_for b (side x) (price x) = Some pos" "level_at (levels_of b (side x)) pos = Some lv"
    "level_unlink lv (pool b) i = Some (lv1, p1)" "store_level (b\<lparr>pool := p1\<rparr>) (side x) pos lv1 = Some b1"
    "(if head lv1 = kNilIndex then erase_level b1 (side x) (price x) else Some b1) = Some b2"
    "update_at (pool b2) i (\<lambda>x. x\<lparr>price := p, qty := n, seq_no := k\<rparr>) = Some p2"
    "level_for_insert (b2\<lparr>pool := p2\<rparr>) (side x) p = Some (pos2, b3)"
    "level_at (levels_of b3 (side x)) pos2 = Some lv2" "level_append lv2 (pool b3) i = Some (lv3, p3)"
    "store_level (b3\<lparr>pool := p3\<rparr>) (side x) pos2 lv3 = Some b4"
    "book_abs b4 (set_queue sb (side x) (enqueue (side x) ((resting_of x)\<lparr>r_price := p, r_qty := n, r_seq_no := k\<rparr>)
       (remove_id (order_id x) (s_queue sb (side x)))))"
proof -
  let ?s = "side x" and ?f = "\<lambda>x. x\<lparr>price := p, qty := n, seq_no := k\<rparr>"
  obtain pos lv lv1 p1 b1 b2 xss us vs where u: "level_for b ?s (price x) = Some pos"
    "level_at (levels_of b ?s) pos = Some lv" "level_unlink lv (pool b) i = Some (lv1, p1)"
    "store_level (b\<lparr>pool := p1\<rparr>) ?s pos lv1 = Some b1"
    "(if head lv1 = kNilIndex then erase_level b1 ?s (price x) else Some b1) = Some b2"
    "book_repr b2 (L(?s := xss)) {i}" "settled (L(?s := xss))" "links_frame (pool b) (pool b2) UNIV"
    "id_map b2 = id_map b" "next_seq b2 = next_seq b" "next_trade_id b2 = next_trade_id b"
    "queue_of (orders b) (L ?s) = us @ resting_of x # vs" "queue_of (orders b2) xss = us @ vs"
    "queue_of (orders b2) (L (opposite ?s)) = queue_of (orders b) (L (opposite ?s))"
    by (rule unlink_prune [OF ok x])
  obtain y where y: "orders b2 i = Some y" "payload y = payload x"
    using u(8) x same_payload_get by (fastforce simp: links_frame_def)
  obtain p2 where w: "update_at (pool b2) i ?f = Some p2" "book_repr (b2\<lparr>pool := p2\<rparr>) (L(?s := xss)) {i}"
    "unchecked_at p2 = (orders b2)(i \<mapsto> ?f y)" "generation p2 = generation (pool b2)"
    "length (slots p2) = length (slots (pool b2))"
    by (rule write_step [OF u(6) singletonI y(1)])
  have z: "orders (b2\<lparr>pool := p2\<rparr>) i = Some (?f y)" "side (?f y) = ?s" "qty (?f y) > 0"
    using w(3) payload_fields(1) [OF y(2)] n by simp_all
  obtain As xs Bs b3 lv2 lv3 p3 b4 where l: "level_for_insert (b2\<lparr>pool := p2\<rparr>) ?s (price (?f y)) = Some (length As, b3)"
    "level_at (levels_of b3 ?s) (length As) = Some lv2" "pool b3 = pool (b2\<lparr>pool := p2\<rparr>)"
    "level_append lv2 (pool (b2\<lparr>pool := p2\<rparr>)) i = Some (lv3, p3)" "store_level (b3\<lparr>pool := p3\<rparr>) ?s (length As) lv3 = Some b4"
    "book_repr b4 ((L(?s := xss))(?s := As @ (xs @ [i]) # Bs)) {}" "settled ((L(?s := xss))(?s := As @ (xs @ [i]) # Bs))"
    "links_frame (pool (b2\<lparr>pool := p2\<rparr>)) (pool b4) (insert i (set xs))" "id_map b4 = id_map (b2\<lparr>pool := p2\<rparr>)"
    "next_seq b4 = next_seq (b2\<lparr>pool := p2\<rparr>)" "next_trade_id b4 = next_trade_id (b2\<lparr>pool := p2\<rparr>)"
    "queue_of (orders b4) (As @ (xs @ [i]) # Bs) =
       enqueue ?s (resting_of (?f y)) (queue_of (orders (b2\<lparr>pool := p2\<rparr>)) ((L(?s := xss)) ?s))"
    "queue_of (orders b4) ((L(?s := xss)) (opposite ?s)) = queue_of (orders (b2\<lparr>pool := p2\<rparr>)) ((L(?s := xss)) (opposite ?s))"
    by (rule link_step [OF w(2) u(7) z])
  have frame: "queue_of (unchecked_at p2) ((L(?s := xss)) t) = queue_of (orders b2) ((L(?s := xss)) t)" for t
    using book_reprD(3) [OF u(6)] by (rule unlinked_frame) (simp add: w(3))
  have "ids_ok (pool b2) (id_map b)"
    using book_okD(2) [OF ok] u(8) by (rule ids_ok_links)
  then have "ids_ok p2 (id_map b)"
    by (rule ids_ok_cong [OF _ w(5,4)]) (simp add: w(3) y(1))
  then have "ids_ok (pool b4) (id_map b4)"
    using l(8,9) u(9) by (auto intro: ids_ok_links)
  then have ok4: "book_ok b4 (L(?s := As @ (xs @ [i]) # Bs))"
    using l(6,7) by (simp add: book_ok_def)
  have rm: "remove_id (order_id x) (s_queue sb ?s) = us @ vs"
    using ids_around [of r_order_id us "resting_of x" vs] queue_ids_distinct [OF ok q, of ?s]
    unfolding q u(12) by (intro remove_id_split) (auto simp: resting_of_def)
  have rest: "resting_of (?f y) = (resting_of x)\<lparr>r_price := p, r_qty := n, r_seq_no := k\<rparr>"
    using payload_fields [OF y(2)] by (simp add: resting_of_def)
  have q4: "queue_of (orders b4) (As @ (xs @ [i]) # Bs) =
      enqueue ?s ((resting_of x)\<lparr>r_price := p, r_qty := n, r_seq_no := k\<rparr>) (us @ vs)"
    using l(12) frame [of ?s] u(13) unfolding rest by simp
  have "queue_of (orders b4) (L (opposite ?s)) = s_queue sb (opposite ?s)"
    using l(13) frame [of "opposite ?s"] u(14) q by simp
  then have "book_abs b4 (set_queue sb ?s (enqueue ?s ((resting_of x)\<lparr>r_price := p, r_qty := n, r_seq_no := k\<rparr>)
      (remove_id (order_id x) (s_queue sb ?s))))"
    using cs u(8,10,11) w(5) l(8,10,11) unfolding rm
    by (intro book_abs_side [OF ok4 q4]) (simp_all add: links_frame_def)
  with that [of pos lv lv1 p1 b1 b2 p2 "length As" b3 lv2 lv3 p3 b4] u(1-5) w(1) l(1-5) show ?thesis
    by simp
qed

lemma modify_refines:
  assumes abs: "book_abs b sb"
  shows "\<exists>b'. modify_order b oid p q = Some (fst (spec_modify sb oid p q), b') \<and> book_abs b' (snd (spec_modify sb oid p q))"
proof -
  let ?seq = "next_seq b"
  let ?b = "b\<lparr>next_seq := ?seq + 1\<rparr>" and ?sb = "sb\<lparr>s_seq := ?seq + 1\<rparr>"
  have seq: "s_seq sb = ?seq"
    using abs by (simp add: book_abs_def)
  have abs1: "book_abs ?b ?sb"
    using abs by (rule book_abs_seq)
  obtain L where L: "book_ok ?b L" "\<And>s. s_queue ?sb s = queue_of (orders ?b) (L s)" "s_cap ?sb = length (slots (pool ?b))"
      "s_seq ?sb = next_seq ?b" "s_tid ?sb = next_trade_id ?b"
    using abs1 by (rule book_absE) blast
  show ?thesis
  proof (cases "q = 0")
    case True
    then show ?thesis
      using abs1 seq by (simp add: modify_order_def spec_modify_def Let_def)
  next
    case q0: False
    then have q: "q > 0"
      by (simp add: word_neq_0_conv)
    show ?thesis
    proof (cases rule: find_refines [OF L(1,2), where oid = oid, case_names dead live])
      case dead
      then show ?thesis
        using abs1 q0 seq by (simp add: modify_order_def spec_modify_def Let_def)
    next
      case (live i x)
      let ?s = "side x"
      have i: "Handle_index (handle_of (pool ?b) i) = i"
        by (simp add: handle_of_def)
      have r: "r_side (resting_of x) = ?s" "r_price (resting_of x) = price x" "r_qty (resting_of x) = qty x"
        by (simp_all add: resting_of_def)
      have cross: "would_cross ?b ?s p = Some (spec_would_cross ?sb ?s p)"
        by (rule would_cross_refines [OF L(1,2)])
      consider "p = price x \<and> q \<le> qty x" | "\<not> (p = price x \<and> q \<le> qty x)" "spec_would_cross ?sb ?s p"
        | "\<not> (p = price x \<and> q \<le> qty x)" "\<not> spec_would_cross ?sb ?s p"
        by blast
      then show ?thesis
      proof cases
        case 1
        obtain p' where p': "update_at (pool ?b) i (\<lambda>x. x\<lparr>qty := q\<rparr>) = Some p'"
            "book_abs (?b\<lparr>pool := p'\<rparr>) (set_queue ?sb ?s (set_qty (order_id x) q (s_queue ?sb ?s)))"
          by (rule reduce_step [OF L live(2) q])
        have "modify_order b oid p q = Some (True, ?b\<lparr>pool := p'\<rparr>)"
          using 1 q0 live p'(1) i by (simp add: modify_order_def Let_def)
        moreover have "spec_modify sb oid p q = (True, set_queue ?sb ?s (set_qty (order_id x) q (s_queue ?sb ?s)))"
          using 1 q0 live r seq by (simp add: spec_modify_def Let_def)
        ultimately show ?thesis
          using p'(2) by simp
      next
        case 2
        have "modify_order b oid p q = Some (False, ?b)"
          using 2 q0 live cross by (auto simp: modify_order_def Let_def)
        moreover have "spec_modify sb oid p q = (False, ?sb)"
          using 2 q0 live r seq by (auto simp: spec_modify_def Let_def)
        ultimately show ?thesis
          using abs1 by simp
      next
        case 3
        obtain pos lv lv1 p1 b1 b2 p2 pos2 b3 lv2 lv3 p3 b4 where m:
          "level_for ?b ?s (price x) = Some pos" "level_at (levels_of ?b ?s) pos = Some lv"
          "level_unlink lv (pool ?b) i = Some (lv1, p1)" "store_level (?b\<lparr>pool := p1\<rparr>) ?s pos lv1 = Some b1"
          "(if head lv1 = kNilIndex then erase_level b1 ?s (price x) else Some b1) = Some b2"
          "update_at (pool b2) i (\<lambda>x. x\<lparr>price := p, qty := q, seq_no := ?seq\<rparr>) = Some p2"
          "level_for_insert (b2\<lparr>pool := p2\<rparr>) ?s p = Some (pos2, b3)"
          "level_at (levels_of b3 ?s) pos2 = Some lv2" "level_append lv2 (pool b3) i = Some (lv3, p3)"
          "store_level (b3\<lparr>pool := p3\<rparr>) ?s pos2 lv3 = Some b4"
          "book_abs b4 (set_queue ?sb ?s (enqueue ?s ((resting_of x)\<lparr>r_price := p, r_qty := q, r_seq_no := ?seq\<rparr>)
             (remove_id (order_id x) (s_queue ?sb ?s))))"
          by (rule requeue_step [OF L live(2) q])
        have "modify_order b oid p q = Some (True, b4)"
          using 3 q0 live cross m(1-10) i by (auto simp: modify_order_def Let_def)
        moreover have "spec_modify sb oid p q = (True, set_queue ?sb ?s (enqueue ?s
            ((resting_of x)\<lparr>r_price := p, r_qty := q, r_seq_no := ?seq\<rparr>) (remove_id (order_id x) (s_queue ?sb ?s))))"
          using 3 q0 live r seq by (auto simp: spec_modify_def Let_def)
        ultimately show ?thesis
          using m(11) by simp
      qed
    qed
  qed
qed

end
