(* ===== verification/Matching_Invariants.thy ===== *)
theory Matching_Invariants
  imports Matching_Spec
begin

text \<open>
  What the matching rules keep true: strict price-time priority on each side, positive quantities,
  unique ids, at most \<open>s_cap\<close> orders, and bids strictly below asks. Sequence numbers are 64 bits
  wide, so the statements about them ask that the counter has not reached its last value.
\<close>

section \<open>Priority\<close>

definition in_priority :: "Side \<Rightarrow> RestingOrder \<Rightarrow> RestingOrder \<Rightarrow> bool" where
  "in_priority s a b \<longleftrightarrow> better (best_of s) (r_price a) (r_price b) \<or>
     r_price a = r_price b \<and> r_seq_no a < r_seq_no b"

definition queue_inv :: "Side \<Rightarrow> SeqNo \<Rightarrow> queue \<Rightarrow> bool" where
  "queue_inv s n xs \<longleftrightarrow> sorted_wrt (in_priority s) xs \<and>
     (\<forall>x \<in> set xs. r_side x = s \<and> r_qty x > 0 \<and> r_seq_no x < n)"

definition uncrossed :: "SpecBook \<Rightarrow> bool" where
  "uncrossed sb \<longleftrightarrow> (\<forall>x \<in> set (s_bids sb). \<forall>y \<in> set (s_asks sb). r_price x < r_price y)"

definition spec_inv :: "SpecBook \<Rightarrow> bool" where
  "spec_inv sb \<longleftrightarrow> (\<forall>s. queue_inv s (s_seq sb) (s_queue sb s)) \<and> distinct (map r_order_id (s_orders sb)) \<and>
     length (s_orders sb) \<le> s_cap sb \<and> uncrossed sb"

lemma better_cases: "better (best_of s) p q \<longleftrightarrow> (case s of Buy \<Rightarrow> p > q | Sell \<Rightarrow> p < q)"
  by (cases s) (simp_all add: better_def best_of_def)

lemma uncrossed_side:
  "uncrossed sb \<longleftrightarrow> (\<forall>x \<in> set (s_queue sb s). \<forall>y \<in> set (s_queue sb (opposite s)). \<not> limit_crosses s (r_price y) (r_price x))"
  by (cases s) (auto simp: uncrossed_def s_queue_def limit_crosses_def not_le)

lemma queue_inv_mono: "queue_inv s n xs \<Longrightarrow> n \<le> m \<Longrightarrow> queue_inv s m xs"
  by (auto simp: queue_inv_def)

lemma spec_new_inv: "spec_inv (spec_new c)"
  by (simp add: spec_inv_def spec_new_def s_queue_def queue_inv_def uncrossed_def s_orders_def split: Side.splits)

section \<open>Matching\<close>

text \<open>Matching removes a prefix of the queue and may reduce the order behind it.\<close>

definition matched :: "queue \<Rightarrow> queue \<Rightarrow> bool" where
  "matched xs ys \<longleftrightarrow> (\<exists>ks. xs = ks @ ys) \<or>
     (\<exists>ks z zs n. xs = ks @ z # zs \<and> ys = z\<lparr>r_qty := n\<rparr> # zs \<and> 0 < n \<and> n < r_qty z)"

lemma matched_Cons: "matched xs ys \<Longrightarrow> matched (x # xs) ys"
  unfolding matched_def by (metis append_Cons)

lemma word_sub_between: "(0::Qty) < a \<Longrightarrow> a < b \<Longrightarrow> 0 < b - a \<and> b - a < b"
  by (simp add: word_less_nat_alt unat_sub less_imp_le)

lemma match_queue_matched:
  "match_queue ok acct taker seq tid q xs = (stp, ts, ys, q', tid') \<Longrightarrow> matched xs ys"
proof (induction ok acct taker seq tid q xs arbitrary: ts rule: match_queue.induct)
  case (2 ok acct taker seq tid q x xs)
  consider "q = 0 \<or> \<not> ok (r_price x) \<or> r_account x = acct" | "q \<noteq> 0" "ok (r_price x)" "r_account x \<noteq> acct" "r_qty x \<le> q"
    | "q \<noteq> 0" "ok (r_price x)" "r_account x \<noteq> acct" "\<not> r_qty x \<le> q"
    by blast
  then show ?case
  proof cases
    case 1
    then have "ys = x # xs"
      using "2.prems" by (auto split: if_splits)
    then show ?thesis
      by (auto simp: matched_def)
  next
    case 2
    then show ?thesis
      using "2.prems" "2.IH" by (auto split: prod.splits intro!: matched_Cons)
  next
    case 3
    then have "ys = x\<lparr>r_qty := r_qty x - q\<rparr> # xs"
      using "2.prems" by auto
    moreover have "0 < r_qty x - q \<and> r_qty x - q < r_qty x"
      using 3 by (intro word_sub_between) (simp_all add: word_neq_0_conv not_le)
    ultimately show ?thesis
      unfolding matched_def by (metis append_Nil)
  qed
qed (auto simp: matched_def)

lemma matched_queue_inv: "matched xs ys \<Longrightarrow> queue_inv s n xs \<Longrightarrow> queue_inv s n ys"
  by (auto simp: matched_def queue_inv_def sorted_wrt_append in_priority_def)

lemma matched_ids: "matched xs ys \<Longrightarrow> \<exists>ks. map r_order_id xs = ks @ map r_order_id ys"
  by (auto simp: matched_def)

lemma matched_prices: "matched xs ys \<Longrightarrow> r_price ` set ys \<subseteq> r_price ` set xs"
  by (auto simp: matched_def)

lemma matched_length: "matched xs ys \<Longrightarrow> length ys \<le> length xs"
  by (auto simp: matched_def)

text \<open>What is left behind when the sweep neither used up its quantity nor met its own account.\<close>

lemma match_queue_exhausted:
  "match_queue ok acct taker seq tid q xs = (False, ts, ys, q', tid') \<Longrightarrow> q' > 0 \<Longrightarrow> ys = [] \<or> \<not> ok (r_price (hd ys))"
  by (induction ok acct taker seq tid q xs arbitrary: ts rule: match_queue.induct)
    (auto split: if_splits prod.splits)

lemma limit_crosses_antimono:
  "better (best_of (opposite s)) p r \<or> p = r \<Longrightarrow> limit_crosses s r limit \<Longrightarrow> limit_crosses s p limit"
  by (cases s) (auto simp: better_cases limit_crosses_def)

lemma queue_inv_blocked:
  assumes "queue_inv (opposite s) n ys" "ys = [] \<or> \<not> limit_crosses s (r_price (hd ys)) p" "y \<in> set ys"
  shows "\<not> limit_crosses s (r_price y) p"
proof -
  obtain z zs where ys: "ys = z # zs" "\<not> limit_crosses s (r_price z) p"
    using assms(2,3) by (cases ys) auto
  then have "y = z \<or> better (best_of (opposite s)) (r_price z) (r_price y) \<or> r_price z = r_price y"
    using assms(1,3) by (auto simp: queue_inv_def in_priority_def)
  then show ?thesis
    using limit_crosses_antimono [of s "r_price z" "r_price y" p] ys(2) by metis
qed

section \<open>Queueing\<close>

lemma enqueue_at:
  obtains as bs where "xs = as @ bs" "enqueue s x xs = as @ x # bs"
    "\<And>y. y \<in> set as \<Longrightarrow> \<not> better (best_of s) (r_price x) (r_price y)"
    "bs = [] \<or> better (best_of s) (r_price x) (r_price (hd bs))"
proof -
  let ?P = "\<lambda>y. \<not> better (best_of s) (r_price x) (r_price y)"
  have "dropWhile ?P xs = [] \<or> \<not> ?P (hd (dropWhile ?P xs))"
    using hd_dropWhile [of ?P xs] by blast
  then show ?thesis
    using that [of "takeWhile ?P xs" "dropWhile ?P xs"] by (auto simp: enqueue_def dest: set_takeWhileD)
qed

lemma set_enqueue [simp]: "set (enqueue s x xs) = insert x (set xs)"
  by (rule enqueue_at [of xs s x]) auto

lemma length_enqueue [simp]: "length (enqueue s x xs) = Suc (length xs)"
  by (rule enqueue_at [of xs s x]) auto

lemma distinct_enqueue:
  "distinct (map f (enqueue s x xs)) \<longleftrightarrow> distinct (map f xs) \<and> f x \<notin> f ` set xs"
  by (rule enqueue_at [of xs s x]) auto

text \<open>A newcomer goes behind every order that its price does not beat.\<close>

lemma enqueue_sorted:
  assumes sorted: "sorted_wrt (in_priority s) xs" and last: "\<And>y. y \<in> set xs \<Longrightarrow> r_seq_no y < r_seq_no x"
  shows "sorted_wrt (in_priority s) (enqueue s x xs)"
proof (rule enqueue_at [of xs s x])
  fix as bs
  assume ab: "xs = as @ bs" "enqueue s x xs = as @ x # bs"
    and as: "\<And>y. y \<in> set as \<Longrightarrow> \<not> better (best_of s) (r_price x) (r_price y)"
    and bs: "bs = [] \<or> better (best_of s) (r_price x) (r_price (hd bs))"
  have before: "in_priority s y x" if "y \<in> set as" for y
    using as [OF that] last [of y] that ab(1) side_order.total [of "r_price x" "r_price y" "best_of s"]
    by (auto simp: in_priority_def)
  have after: "in_priority s x y" if y: "y \<in> set bs" for y
  proof -
    obtain z zs where z: "bs = z # zs" "better (best_of s) (r_price x) (r_price z)"
      using y bs by (cases bs) auto
    moreover have "z = y \<or> in_priority s z y"
      using sorted ab(1) z(1) y by (auto simp: sorted_wrt_append)
    ultimately show ?thesis
      using side_order.trans [of "best_of s" "r_price x" "r_price z" "r_price y"] by (auto simp: in_priority_def)
  qed
  show ?thesis
    using sorted [unfolded ab(1)] before after unfolding ab(2) by (auto simp: sorted_wrt_append)
qed

lemma enqueue_queue_inv:
  assumes "queue_inv s n xs" "r_side x = s" "r_qty x > 0" "r_seq_no x = n" "n < m"
  shows "queue_inv s m (enqueue s x xs)"
  using assms enqueue_sorted [of s xs x] by (auto simp: queue_inv_def)

lemma remove_id_queue_inv: "queue_inv s n xs \<Longrightarrow> queue_inv s n (remove_id oid xs)"
  by (auto simp: queue_inv_def remove_id_def intro: sorted_wrt_filter)

lemma set_qty_queue_inv: "queue_inv s n xs \<Longrightarrow> q > 0 \<Longrightarrow> queue_inv s n (set_qty oid q xs)"
proof -
  assume inv: "queue_inv s n xs" and q: "q > 0"
  let ?f = "\<lambda>x. if r_order_id x = oid then x\<lparr>r_qty := q\<rparr> else x"
  have "in_priority s (?f x) (?f y) = in_priority s x y" for x y
    by (simp add: in_priority_def)
  then have "sorted_wrt (\<lambda>x y. in_priority s (?f x) (?f y)) xs"
    using inv by (simp add: queue_inv_def)
  then show ?thesis
    using inv q by (auto simp: queue_inv_def set_qty_def sorted_wrt_map)
qed

section \<open>The invariant is kept\<close>

lemma spec_inv_side:
  "spec_inv sb \<longleftrightarrow> queue_inv s (s_seq sb) (s_queue sb s) \<and> queue_inv (opposite s) (s_seq sb) (s_queue sb (opposite s)) \<and>
     distinct (map r_order_id (s_queue sb s)) \<and> distinct (map r_order_id (s_queue sb (opposite s))) \<and>
     r_order_id ` set (s_queue sb s) \<inter> r_order_id ` set (s_queue sb (opposite s)) = {} \<and>
     length (s_queue sb s) + length (s_queue sb (opposite s)) \<le> s_cap sb \<and>
     (\<forall>x \<in> set (s_queue sb s). \<forall>y \<in> set (s_queue sb (opposite s)). \<not> limit_crosses s (r_price y) (r_price x))"
proof -
  have all: "(\<forall>t. P t) \<longleftrightarrow> P s \<and> P (opposite s)" for P
    by (cases s) (auto, (metis Side.exhaust)+)
  have "distinct (map r_order_id (s_orders sb)) \<longleftrightarrow>
      distinct (map r_order_id (s_queue sb s)) \<and> distinct (map r_order_id (s_queue sb (opposite s))) \<and>
      r_order_id ` set (s_queue sb s) \<inter> r_order_id ` set (s_queue sb (opposite s)) = {}"
    by (cases s) (auto simp: s_orders_def s_queue_def)
  then show ?thesis
    unfolding spec_inv_def uncrossed_side [of sb s] length_s_orders [of sb s]
    by (subst all [of "\<lambda>s. queue_inv s (s_seq sb) (s_queue sb s)"]) auto
qed

lemma next_seq_less: "(n :: SeqNo) \<noteq> - 1 \<Longrightarrow> n < n + 1"
  using unatSuc [of n] by (auto simp: word_less_nat_alt add.commute eq_neg_iff_add_eq_0)

lemma spec_inv_seq:
  assumes "spec_inv sb" "s_seq sb < n"
  shows "spec_inv (sb\<lparr>s_seq := n\<rparr>)"
  using assms(1) queue_inv_mono [OF _ less_imp_le [OF assms(2)]] unfolding spec_inv_side [of _ Buy] by simp

lemma spec_inv_matched:
  assumes "spec_inv sb" "matched (s_queue sb s) ys"
  shows "spec_inv ((set_queue sb s ys)\<lparr>s_tid := t\<rparr>)"
proof -
  note inv = assms(1) [unfolded spec_inv_side [of sb s]]
  obtain ks where ks: "map r_order_id (s_queue sb s) = ks @ map r_order_id ys"
    using matched_ids [OF assms(2)] by blast
  have "distinct (ks @ map r_order_id ys)"
    unfolding ks [symmetric] using inv by blast
  then have d: "distinct (map r_order_id ys)" by simp
  have "set (map r_order_id (s_queue sb s)) = set (ks @ map r_order_id ys)"
    using ks by (rule arg_cong)
  then have ids: "r_order_id ` set ys \<subseteq> r_order_id ` set (s_queue sb s)" by auto
  have "\<forall>x \<in> set ys. \<forall>y \<in> set (s_queue sb (opposite s)). \<not> limit_crosses s (r_price y) (r_price x)"
  proof (intro ballI)
    fix x y
    assume xy: "x \<in> set ys" "y \<in> set (s_queue sb (opposite s))"
    then obtain z where "z \<in> set (s_queue sb s)" "r_price x = r_price z"
      using matched_prices [OF assms(2)] by blast
    then show "\<not> limit_crosses s (r_price y) (r_price x)"
      using inv xy(2) by simp
  qed
  moreover have "r_order_id ` set ys \<inter> r_order_id ` set (s_queue sb (opposite s)) = {}"
    using ids inv by blast
  moreover have "length ys + length (s_queue sb (opposite s)) \<le> s_cap sb"
    using inv matched_length [OF assms(2)] by linarith
  ultimately show ?thesis
    using inv d matched_queue_inv [OF assms(2)] unfolding spec_inv_side [of _ s] by simp
qed

lemma spec_inv_enqueue:
  assumes inv: "spec_inv sb" and x: "r_side x = s" "r_qty x > 0" "r_seq_no x = n"
    and old: "\<forall>y \<in> set (s_queue sb s). r_seq_no y < n" and n: "n < s_seq sb"
    and fresh: "r_order_id x \<notin> r_order_id ` set (s_orders sb)" and room: "length (s_orders sb) < s_cap sb"
    and free: "\<forall>y \<in> set (s_queue sb (opposite s)). \<not> limit_crosses s (r_price y) (r_price x)"
  shows "spec_inv (set_queue sb s (enqueue s x (s_queue sb s)))"
proof -
  note invs = inv [unfolded spec_inv_side [of sb s]]
  have "queue_inv s n (s_queue sb s)"
    using invs old by (simp add: queue_inv_def)
  then have "queue_inv s (s_seq sb) (enqueue s x (s_queue sb s))"
    using x n by (intro enqueue_queue_inv)
  moreover have "r_order_id x \<notin> r_order_id ` set (s_queue sb s)" "r_order_id x \<notin> r_order_id ` set (s_queue sb (opposite s))"
    using fresh by (auto simp: s_orders_sides [of sb s])
  ultimately show ?thesis
    using invs free room unfolding spec_inv_side [of _ s] length_s_orders [of sb s] by (simp add: distinct_enqueue)
qed

lemma spec_submit_inv:
  assumes inv: "spec_inv sb" and n: "s_seq sb \<noteq> - 1" and ok: "tif = GTC \<Longrightarrow> ok = (\<lambda>r. limit_crosses s r p)"
  shows "spec_inv (snd (spec_submit fok sb oid s ok p q acct tif))"
proof -
  let ?n = "s_seq sb" and ?sb = "sb\<lparr>s_seq := s_seq sb + 1\<rparr>"
  have inv1: "spec_inv ?sb"
    using inv next_seq_less [OF n] by (rule spec_inv_seq)
  let ?dup = "q = 0 \<or> oid \<in> r_order_id ` set (s_orders sb)"
  let ?short = "tif = FOK \<and> fok (fillable ok acct (s_queue sb (opposite s))) < unat q"
  show ?thesis
  proof (cases "?dup \<or> ?short")
    case True
    then have "snd (spec_submit fok sb oid s ok p q acct tif) = ?sb"
      by (auto simp: spec_submit_def Let_def)
    with inv1 show ?thesis by simp
  next
    case False
    obtain stp ts ys q' tid' where m: "match_queue ok acct oid ?n (s_tid sb) q (s_queue sb (opposite s)) = (stp, ts, ys, q', tid')"
      by (metis prod_cases5)
    let ?sb2 = "(set_queue ?sb (opposite s) ys)\<lparr>s_tid := tid'\<rparr>"
    have mt: "matched (s_queue ?sb (opposite s)) ys"
      using match_queue_matched [OF m] by simp
    have inv2: "spec_inv ?sb2"
      using inv1 mt by (rule spec_inv_matched)
    let ?x = "\<lparr>r_side = s, r_price = p, r_order_id = oid, r_qty = q', r_account = acct, r_seq_no = ?n\<rparr>"
    have "snd (spec_submit fok sb oid s ok p q acct tif) =
        (if tif = GTC \<and> \<not> stp \<and> q' > 0 \<and> length (s_orders ?sb2) < s_cap ?sb2
         then set_queue ?sb2 s (enqueue s ?x (s_queue ?sb2 s)) else ?sb2)"
      using False m by (cases "length (s_orders ?sb2) < s_cap ?sb2") (auto simp: spec_submit_def Let_def)
    moreover have ?thesis if "snd (spec_submit fok sb oid s ok p q acct tif) =
        (if tif = GTC \<and> \<not> stp \<and> q' > 0 \<and> length (s_orders ?sb2) < s_cap ?sb2
         then set_queue ?sb2 s (enqueue s ?x (s_queue ?sb2 s)) else ?sb2)"
    proof (cases "tif = GTC \<and> \<not> stp \<and> q' > 0 \<and> length (s_orders ?sb2) < s_cap ?sb2")
      case rest: True
      have "ys = [] \<or> \<not> limit_crosses s (r_price (hd ys)) p"
        using match_queue_exhausted [of ok] m rest ok by auto
      moreover have "queue_inv (opposite s) (s_seq ?sb2) ys"
        using inv2 [unfolded spec_inv_side [of _ "opposite s"]] by simp
      ultimately have "\<forall>y \<in> set ys. \<not> limit_crosses s (r_price y) p"
        using queue_inv_blocked by blast
      moreover have "\<forall>y \<in> set (s_queue sb s). r_seq_no y < ?n"
        using inv [unfolded spec_inv_side [of _ s]] by (auto simp: queue_inv_def)
      moreover have "oid \<notin> r_order_id ` set (s_orders ?sb2)"
      proof -
        obtain ks where "map r_order_id (s_queue sb (opposite s)) = ks @ map r_order_id ys"
          using matched_ids [OF mt] by auto
        then have "set (map r_order_id (s_queue sb (opposite s))) = set (ks @ map r_order_id ys)"
          by (rule arg_cong)
        then show ?thesis
          using False by (auto simp: s_orders_sides [of _ s])
      qed
      ultimately have "spec_inv (set_queue ?sb2 s (enqueue s ?x (s_queue ?sb2 s)))"
        using inv2 rest next_seq_less [OF n] by (intro spec_inv_enqueue [where n = ?n]) simp_all
      then show ?thesis
        using that rest by simp
    next
      case rest: False
      then show ?thesis
        unfolding that if_not_P [OF rest] by (intro inv2)
    qed
    ultimately show ?thesis by blast
  qed
qed

lemma lookup_id_Some:
  assumes "lookup_id sb oid = Some x"
  shows "x \<in> set (s_orders sb)" "r_order_id x = oid"
proof -
  obtain i where "i < length (s_orders sb)" "x = s_orders sb ! i" "r_order_id x = oid"
    using assms by (auto simp: lookup_id_def find_Some_iff)
  then show "x \<in> set (s_orders sb)" "r_order_id x = oid"
    by auto
qed

lemma lookup_side:
  assumes "spec_inv sb" "lookup_id sb oid = Some x"
  shows "x \<in> set (s_queue sb (r_side x))"
  using lookup_id_Some(1) [OF assms(2)] assms(1)
  by (auto simp: s_orders_def s_queue_def spec_inv_side [of _ Buy] queue_inv_def)

lemma set_remove_id [simp]: "set (remove_id oid xs) = {x \<in> set xs. r_order_id x \<noteq> oid}"
  by (simp add: remove_id_def)

lemma length_remove_id:
  assumes "x \<in> set xs" "r_order_id x = oid"
  shows "length (remove_id oid xs) < length xs"
  unfolding remove_id_def using assms by (intro length_filter_less) auto

text \<open>A side that shrinks to a part of itself.\<close>

lemma spec_inv_shrink:
  assumes inv: "spec_inv sb" and q: "queue_inv s (s_seq sb) ys" and d: "distinct (map r_order_id ys)"
    and ids: "r_order_id ` set ys \<subseteq> r_order_id ` set (s_queue sb s)"
    and pr: "r_price ` set ys \<subseteq> r_price ` set (s_queue sb s)" and len: "length ys \<le> length (s_queue sb s)"
  shows "spec_inv (set_queue sb s ys)"
proof -
  note invs = inv [unfolded spec_inv_side [of sb s]]
  have "\<forall>x \<in> set ys. \<forall>y \<in> set (s_queue sb (opposite s)). \<not> limit_crosses s (r_price y) (r_price x)"
  proof (intro ballI)
    fix x y
    assume xy: "x \<in> set ys" "y \<in> set (s_queue sb (opposite s))"
    then obtain z where "z \<in> set (s_queue sb s)" "r_price x = r_price z"
      using pr by blast
    then show "\<not> limit_crosses s (r_price y) (r_price x)"
      using invs xy(2) by simp
  qed
  moreover have "r_order_id ` set ys \<inter> r_order_id ` set (s_queue sb (opposite s)) = {}"
    using ids invs by blast
  moreover have "length ys + length (s_queue sb (opposite s)) \<le> s_cap sb"
    using invs len by linarith
  ultimately show ?thesis
    using invs q d unfolding spec_inv_side [of _ s] by simp
qed

lemma spec_inv_remove: "spec_inv sb \<Longrightarrow> spec_inv (set_queue sb s (remove_id oid (s_queue sb s)))"
  by (intro spec_inv_shrink remove_id_queue_inv)
    (auto simp: spec_inv_side [of _ s] remove_id_def distinct_map_filter)

lemma map_set_qty [simp]:
  "map r_order_id (set_qty oid q xs) = map r_order_id xs" "map r_price (set_qty oid q xs) = map r_price xs"
  "length (set_qty oid q xs) = length xs"
  by (auto simp: set_qty_def)

lemma image_set_qty [simp]:
  "r_order_id ` set (set_qty oid q xs) = r_order_id ` set xs" "r_price ` set (set_qty oid q xs) = r_price ` set xs"
  by (metis map_set_qty(1) list.set_map, metis map_set_qty(2) list.set_map)

lemma spec_inv_set_qty: "spec_inv sb \<Longrightarrow> q > 0 \<Longrightarrow> spec_inv (set_queue sb s (set_qty oid q (s_queue sb s)))"
  by (intro spec_inv_shrink set_qty_queue_inv) (auto simp: spec_inv_side [of _ s])

lemma spec_cancel_inv:
  assumes "spec_inv sb" "s_seq sb \<noteq> - 1"
  shows "spec_inv (snd (spec_cancel sb oid))"
proof -
  have inv1: "spec_inv (sb\<lparr>s_seq := s_seq sb + 1\<rparr>)"
    using spec_inv_seq [OF assms(1) next_seq_less [OF assms(2)]] .
  show ?thesis
    using inv1 spec_inv_remove [OF inv1, of _ oid] by (auto simp: spec_cancel_def Let_def split: option.splits)
qed

lemma lookup_id_seq [simp]: "lookup_id (sb\<lparr>s_seq := n\<rparr>) oid = lookup_id sb oid"
  by (simp add: lookup_id_def)

lemma spec_would_cross_seq [simp]: "spec_would_cross (sb\<lparr>s_seq := n\<rparr>) s p = spec_would_cross sb s p"
  by (simp add: spec_would_cross_def)

lemma spec_modify_inv:
  assumes inv: "spec_inv sb" and n: "s_seq sb \<noteq> - 1"
  shows "spec_inv (snd (spec_modify sb oid p q))"
proof -
  let ?n = "s_seq sb" and ?sb = "sb\<lparr>s_seq := s_seq sb + 1\<rparr>"
  have inv1: "spec_inv ?sb"
    using inv next_seq_less [OF n] by (rule spec_inv_seq)
  consider "q = 0 \<or> lookup_id sb oid = None"
    | x where "q > 0" "lookup_id sb oid = Some x" "\<not> (p = r_price x \<and> q \<le> r_qty x)" "spec_would_cross sb (r_side x) p"
    | x where "q > 0" "lookup_id sb oid = Some x" "p = r_price x \<and> q \<le> r_qty x"
    | x where "q > 0" "lookup_id sb oid = Some x" "\<not> (p = r_price x \<and> q \<le> r_qty x)" "\<not> spec_would_cross sb (r_side x) p"
    by (metis not_None_eq word_neq_0_conv)
  then show ?thesis
  proof cases
    case 1
    with inv1 show ?thesis
      by (auto simp: spec_modify_def Let_def split: option.splits)
  next
    case (2 x)
    with inv1 show ?thesis
      by (auto simp: spec_modify_def Let_def)
  next
    case (3 x)
    have "spec_inv (set_queue ?sb (r_side x) (set_qty oid q (s_queue ?sb (r_side x))))"
      using inv1 3(1) by (rule spec_inv_set_qty)
    with 3 show ?thesis
      by (auto simp: spec_modify_def Let_def)
  next
    case (4 x)
    let ?s = "r_side x" and ?x = "x\<lparr>r_price := p, r_qty := q, r_seq_no := ?n\<rparr>"
    let ?sb2 = "set_queue ?sb ?s (remove_id oid (s_queue ?sb ?s))"
    note invs = inv [unfolded spec_inv_side [of sb ?s]]
    have mem: "x \<in> set (s_queue sb ?s)" "r_order_id x = oid"
      using lookup_side [OF inv 4(2)] lookup_id_Some(2) [OF 4(2)] by auto
    have inv2: "spec_inv ?sb2"
      using inv1 by (rule spec_inv_remove)
    have "oid \<notin> r_order_id ` set (s_queue sb (opposite ?s))"
      using invs mem by blast
    then have fresh: "r_order_id ?x \<notin> r_order_id ` set (s_orders ?sb2)"
      using mem by (auto simp: s_orders_sides [of _ ?s])
    have room: "length (s_orders ?sb2) < s_cap ?sb2"
      using length_remove_id [OF mem] invs by (simp add: length_s_orders [of _ ?s])
    have "s_queue sb (opposite ?s) = [] \<or> \<not> limit_crosses ?s (r_price (hd (s_queue sb (opposite ?s)))) p"
      using 4(4) by (auto simp: spec_would_cross_def split: list.splits)
    then have "\<forall>y \<in> set (s_queue sb (opposite ?s)). \<not> limit_crosses ?s (r_price y) p"
      using invs queue_inv_blocked by blast
    moreover have "\<forall>y \<in> set (s_queue sb ?s). r_seq_no y < ?n"
      using conjunct1 [OF invs] by (simp add: queue_inv_def)
    ultimately have "spec_inv (set_queue ?sb2 ?s (enqueue ?s ?x (s_queue ?sb2 ?s)))"
      using inv2 4(1) fresh room next_seq_less [OF n] by (intro spec_inv_enqueue [where n = ?n]) simp_all
    moreover have "set_queue ?sb2 ?s ys = set_queue ?sb ?s ys" for ys
      by (cases ?s) (simp_all add: set_queue_def)
    moreover have "snd (spec_modify sb oid p q) = set_queue ?sb ?s (enqueue ?s ?x (remove_id oid (s_queue ?sb ?s)))"
      using 4 by (auto simp: spec_modify_def Let_def)
    ultimately show ?thesis by simp
  qed
qed

text \<open>What becomes of the orders when one side is rewritten at one id.\<close>

lemma s_orders_rewritten:
  assumes inv: "spec_inv sb" and x: "lookup_id sb oid = Some x"
    and new: "set xs = N \<union> {y \<in> set (s_queue sb (r_side x)). r_order_id y \<noteq> oid}"
  shows "set (s_orders (set_queue (sb\<lparr>s_seq := n\<rparr>) (r_side x) xs)) = N \<union> (set (s_orders sb) - {x})"
proof -
  have dist: "distinct (map r_order_id (s_orders sb))"
    using inv by (simp add: spec_inv_def)
  have uniq: "y \<in> set (s_orders sb) \<Longrightarrow> r_order_id y = oid \<longleftrightarrow> y = x" for y
    using lookup_id_Some [OF x] dist by (auto simp: distinct_map inj_on_def)
  have "x \<notin> set (s_queue sb (opposite (r_side x)))"
    using inv by (auto simp: spec_inv_def queue_inv_def) (metis opposite_simps(4))
  then show ?thesis
    using uniq unfolding s_orders_sides [of _ "r_side x"] new by (auto simp: new)
qed

end
