(* ===== verification/Book_Observers.thy ===== *)
theory Book_Observers
  imports Book_Refinement Matching_Invariants
begin

text \<open>
  The read-only operations of the book on a well-formed state: \<open>snapshot\<close> lists the queues of the
  specification, the best prices are those of their heads, and \<open>invariant_violation\<close> finds nothing.
\<close>

section \<open>Snapshot\<close>

lemma append_level_eq:
  assumes "dll (unchecked_at p) prev zs kNilIndex" "kNilIndex \<notin> set zs"
  shows "append_level p (first_of zs kNilIndex) out = Some (out @ rq (unchecked_at p) zs)"
  using assms
proof (induction zs arbitrary: prev out)
  case Nil
  then show ?case by (simp add: append_level.simps)
next
  case (Cons i zs)
  then obtain x where x: "unchecked_at p i = Some x" "next_idx x = first_of zs kNilIndex"
      "dll (unchecked_at p) i zs kNilIndex"
    by auto
  show ?case
    using Cons.IH [OF x(3)] Cons.prems x by (subst append_level.simps) auto
qed

text \<open>The level and its orders at a rank, which every walk over a side uses.\<close>

lemma level_by_rank:
  assumes sr: "side_repr m s pl xss" and rank: "rank < length xss"
  obtains lv where "PriceLevels_by_rank pl rank = Some lv" "level_ok m s lv (rev xss ! rank)"
    "lv = rev (active pl) ! rank" "drop rank (rev xss) = (rev xss ! rank) # drop (rank + 1) (rev xss)"
proof -
  have inv: "levels_inv (best_of s) pl" and all: "list_all2 (level_ok m s) (rev (active pl)) (rev xss)"
    using sr by (auto simp: side_repr_def)
  have len: "rank < count pl" "rank < length (rev (active pl))"
    using rank side_repr_length [OF sr] levels_inv_length [OF inv] by simp_all
  show ?thesis
    using that [of "rev (active pl) ! rank"] by_rank_active [OF inv len(1)] list_all2_nthD [OF all len(2)] rank
    by (simp add: Cons_nth_drop_Suc)
qed

lemma append_side_eq:
  assumes sr: "side_repr (unchecked_at p) s pl xss"
  shows "append_side p pl rank out = Some (out @ rq (unchecked_at p) (concat (drop rank (rev xss))))"
proof (induction "length xss - rank" arbitrary: rank out)
  case 0
  then show ?case
    using side_repr_length [OF sr] by (subst append_side.simps) (simp add: PriceLevels_size_def)
next
  case (Suc n)
  have rank: "rank < length xss"
    using Suc.hyps(2) by simp
  obtain lv where lv: "PriceLevels_by_rank pl rank = Some lv" "level_ok (unchecked_at p) s lv (rev xss ! rank)"
      "drop rank (rev xss) = (rev xss ! rank) # drop (rank + 1) (rev xss)"
    by (rule level_by_rank [OF sr rank])
  have "append_level p (head lv) out = Some (out @ rq (unchecked_at p) (rev xss ! rank))"
    using append_level_eq level_ok_repr [OF lv(2)] by (auto simp: level_repr_def)
  then show ?case
    using Suc.hyps(1) [of "rank + 1"] Suc.hyps(2) rank lv(1) side_repr_length [OF sr] unfolding lv(3)
    by (subst append_side.simps) (simp add: PriceLevels_size_def)
qed

lemma snapshot_refines:
  assumes "book_abs b sb"
  shows "snapshot b = Some (s_orders sb)"
proof -
  obtain L where L: "book_ok b L" "\<And>s. s_queue sb s = queue_of (orders b) (L s)"
    using assms by (rule book_absE) blast
  have sr: "side_repr (orders b) s (levels_of b s) (L s)" for s
    using book_reprD(2) [OF book_okD(1) [OF L(1)]] .
  have "append_side (pool b) (bids b) 0 [] = Some (s_bids sb)"
    using append_side_eq [OF sr [of Buy], of 0 "[]"] L(2) [of Buy] by (simp add: levels_of_def queue_of_def s_queue_def)
  moreover have "append_side (pool b) (asks b) 0 (s_bids sb) = Some (s_orders sb)"
    using append_side_eq [OF sr [of Sell], of 0 "s_bids sb"] L(2) [of Sell]
    by (simp add: levels_of_def queue_of_def s_queue_def s_orders_def)
  ultimately show ?thesis
    by (simp add: snapshot_def)
qed

section \<open>Best prices\<close>

lemma best_refines:
  assumes "book_abs b sb"
  shows "PriceLevels_empty (levels_of b s) \<longleftrightarrow> s_queue sb s = []"
    "s_queue sb s \<noteq> [] \<Longrightarrow>
       do { pos \<leftarrow> PriceLevels_best (levels_of b s); l \<leftarrow> level_at (levels_of b s) pos; Some (lv_price l) } =
       Some (r_price (hd (s_queue sb s)))"
proof -
  obtain L where L: "book_ok b L" "\<And>s. s_queue sb s = queue_of (orders b) (L s)"
    using assms by (rule book_absE) blast
  have sr: "side_repr (orders b) s (levels_of b s) (L s)"
    using book_reprD(2) [OF book_okD(1) [OF L(1)]] .
  have st: "[] \<notin> set (L s)"
    using book_okD(3) [OF L(1)] by (simp add: settled_side [of L s])
  have "s_queue sb s = [] \<longleftrightarrow> L s = []"
    using st by (cases "L s" rule: rev_cases) (auto simp: L(2))
  then show empty: "PriceLevels_empty (levels_of b s) \<longleftrightarrow> s_queue sb s = []"
    using side_repr_length [OF sr] by (simp add: PriceLevels_empty_def)
  assume "s_queue sb s \<noteq> []"
  then obtain As xs where As: "L s = As @ [xs]"
    using L(2) by (cases "L s" rule: rev_cases) auto
  obtain lv where lv: "PriceLevels_best (levels_of b s) = Some (length As)" "\<not> PriceLevels_empty (levels_of b s)"
      "level_at (levels_of b s) (length As) = Some lv" "level_ok (orders b) s lv xs"
    by (rule best_level [OF book_okD(1) [OF L(1)] As])
  have "xs \<noteq> []"
    using st As by auto
  then have "r_price (hd (s_queue sb s)) = lv_price lv"
    using level_ok_price [OF lv(4)] L(2) As by (cases xs) auto
  with lv show "do { pos \<leftarrow> PriceLevels_best (levels_of b s); l \<leftarrow> level_at (levels_of b s) pos; Some (lv_price l) } =
       Some (r_price (hd (s_queue sb s)))"
    by simp
qed

lemma best_bid_refines:
  assumes "book_abs b sb"
  shows "has_bid b \<longleftrightarrow> s_bids sb \<noteq> []" "s_bids sb \<noteq> [] \<Longrightarrow> best_bid b = Some (r_price (hd (s_bids sb)))"
    "has_ask b \<longleftrightarrow> s_asks sb \<noteq> []" "s_asks sb \<noteq> [] \<Longrightarrow> best_ask b = Some (r_price (hd (s_asks sb)))"
  using best_refines [OF assms, of Buy] best_refines [OF assms, of Sell]
  by (simp_all add: has_bid_def has_ask_def best_bid_def best_ask_def levels_of_def s_queue_def)

section \<open>The self-check\<close>

text \<open>What the check of one order looks at.\<close>

definition order_checked :: "Book \<Rightarrow> Side \<Rightarrow> Price \<Rightarrow> Index \<Rightarrow> bool" where
  "order_checked b s p i \<longleftrightarrow> i \<noteq> kNilIndex \<and> i < capacity (pool b) \<and>
     (\<exists>x. orders b i = Some x \<and> side x = s \<and> price x = p \<and> qty x > 0 \<and>
        IdMap_find (id_map b) (order_id x) = Some (Some (handle_of (pool b) i)) \<and>
        validate (pool b) (handle_of (pool b) i))"

lemma index_lt_capacity:
  assumes "pool_inv p" "unchecked_at p i = Some x"
  shows "i < capacity p"
  using pool_inv_length [OF assms(1)] unchecked_at_bound [OF assms(2)]
  by (simp add: capacity_def word_less_nat_alt unat_of_nat_small)

lemma level_order_checked:
  assumes ok: "book_ok b L" and lok: "level_ok (orders b) s lv zs" and i: "i \<in> set zs"
  shows "order_checked b s (lv_price lv) i"
proof -
  obtain x where x: "orders b i = Some x" "side x = s" "price x = lv_price lv" "qty x > 0"
    using lok i by (auto simp: level_ok_def)
  have "IdMap_find (id_map b) (order_id x) = Some (Some (handle_of (pool b) i))"
    using IdMap_find_eq [OF book_okD(5) [OF ok]] ids_ok_find [OF book_okD(2) [OF ok] x(1)] by simp
  then show ?thesis
    using x pool_inv_kNil [OF book_okD(4) [OF ok] x(1)] index_lt_capacity [OF book_okD(4) [OF ok] x(1)]
      validate_handle_of [OF book_okD(4) [OF ok] x(1)]
    unfolding order_checked_def by blast
qed

text \<open>The walk over one level accepts a list of checked orders with increasing sequence numbers.\<close>

lemma check_level_accepts:
  assumes "dll (orders b) prev zs kNilIndex" "\<forall>i \<in> set zs. order_checked b s p i"
    and "seen + length zs \<le> unat (capacity (pool b))"
    and "sorted_wrt (\<lambda>i j. r_seq_no (resting_of (the (orders b i))) < r_seq_no (resting_of (the (orders b j)))) zs"
    and "prev = kNilIndex \<or> (\<forall>i \<in> set zs. last_seq < r_seq_no (resting_of (the (orders b i))))"
  shows "check_level b s p (first_of zs kNilIndex) prev last_seq seen =
    Some (Inr (last_of prev zs, seen + length zs))"
  using assms
proof (induction zs arbitrary: prev last_seq seen)
  case Nil
  then show ?case by (simp add: check_level.simps)
next
  case (Cons i zs)
  obtain x where x: "orders b i = Some x" "prev_idx x = prev" "next_idx x = first_of zs kNilIndex"
      "dll (orders b) i zs kNilIndex"
    using Cons.prems(1) by auto
  have oc: "i \<noteq> kNilIndex" "\<not> capacity (pool b) \<le> i" "side x = s" "price x = p" "qty x \<noteq> 0"
      "IdMap_find (id_map b) (order_id x) = Some (Some (handle_of (pool b) i))" "validate (pool b) (handle_of (pool b) i)"
    using Cons.prems(2) x(1) by (auto simp: order_checked_def not_le)
  have sq: "r_seq_no (resting_of x) = seq_no x"
    by (simp add: resting_of_def)
  have later: "\<forall>j \<in> set zs. seq_no x < r_seq_no (resting_of (the (orders b j)))"
    using Cons.prems(4) x(1) sq by simp
  have "check_level b s p (first_of zs kNilIndex) i (seq_no x) (seen + 1) =
      Some (Inr (last_of i zs, seen + 1 + length zs))"
    using Cons.prems x(4) later by (intro Cons.IH) auto
  moreover have "prev \<noteq> kNilIndex \<Longrightarrow> \<not> seq_no x \<le> last_seq"
    using Cons.prems(5) x(1) sq by (auto simp: not_le)
  moreover have "\<not> seen + 1 > unat (capacity (pool b))"
    using Cons.prems(3) by simp
  moreover have "Handle_index (handle_of (pool b) i) = i"
    by (simp add: handle_of_def)
  ultimately show ?case
    using oc x by (subst check_level.simps) auto
qed

lemma queue_inv_level:
  assumes inv: "queue_inv s n (us @ rq m zs @ vs)" and pr: "\<And>i. i \<in> set zs \<Longrightarrow> r_price (resting_of (the (m i))) = p"
  shows "sorted_wrt (\<lambda>i j. r_seq_no (resting_of (the (m i))) < r_seq_no (resting_of (the (m j)))) zs"
proof -
  have "sorted_wrt (in_priority s) (rq m zs)"
    using inv by (simp add: queue_inv_def sorted_wrt_append)
  then have "sorted_wrt (\<lambda>i j. in_priority s (resting_of (the (m i))) (resting_of (the (m j)))) zs"
    by (simp add: sorted_wrt_map)
  then show ?thesis
    by (rule sorted_wrt_mono_rel [rotated]) (use pr side_order.irrefl in \<open>auto simp: in_priority_def\<close>)
qed

lemma check_ranks_accepts:
  assumes ok: "book_ok b L" and inv: "queue_inv s n (queue_of (orders b) (L s))"
  shows "seen + length (concat (drop rank (rev (L s)))) \<le> unat (capacity (pool b)) \<Longrightarrow>
    check_ranks b s rank seen = Some (Inr (seen + length (concat (drop rank (rev (L s))))))"
proof (induction "length (L s) - rank" arbitrary: rank seen)
  case 0
  have "side_repr (orders b) s (levels_of b s) (L s)"
    using book_reprD(2) [OF book_okD(1) [OF ok]] .
  then show ?case
    using 0 side_repr_length by (subst check_ranks.simps) (fastforce simp: PriceLevels_size_def)
next
  case (Suc k)
  let ?zs = "rev (L s) ! rank" and ?pl = "levels_of b s"
  have sr: "side_repr (orders b) s ?pl (L s)"
    using book_reprD(2) [OF book_okD(1) [OF ok]] .
  have rank: "rank < length (L s)" "rank < count ?pl"
    using Suc.hyps(2) side_repr_length [OF sr] by simp_all
  obtain lv where lv: "PriceLevels_by_rank ?pl rank = Some lv" "level_ok (orders b) s lv ?zs"
      "lv = rev (active ?pl) ! rank" "drop rank (rev (L s)) = ?zs # drop (rank + 1) (rev (L s))"
    by (rule level_by_rank [OF sr rank(1)])
  note lrep = level_ok_repr [OF lv(2)]
  have "?zs \<in> set (rev (L s))"
    using rank(1) by (intro nth_mem) simp
  then have nonempty: "?zs \<noteq> []"
    using book_okD(3) [OF ok] by (auto simp: settled_side [of L s])
  have inv_pl: "levels_inv (best_of s) ?pl"
    using sr by (simp add: side_repr_def)
  have ordered: "rank > 0 \<Longrightarrow> \<exists>above. PriceLevels_by_rank ?pl (rank - 1) = Some above \<and>
      better (best_of s) (lv_price above) (lv_price lv)"
  proof -
    assume pos: "rank > 0"
    let ?above = "rev (active ?pl) ! (rank - 1)"
    have "sorted_wrt (\<lambda>a b. better (best_of s) a b) (map lv_price (rev (active ?pl)))"
      using inv_pl by (simp add: levels_inv_def rev_map [symmetric] sorted_wrt_rev)
    then have "better (best_of s) (lv_price ?above) (lv_price lv)"
      using sorted_wrt_nth_less [of "better (best_of s)" "map lv_price (rev (active ?pl))" "rank - 1" rank] pos rank(2)
        levels_inv_length [OF inv_pl] lv(3) by simp
    then show ?thesis
      using by_rank_active [OF inv_pl, of "rank - 1"] rank(2) by simp
  qed
  have "queue_of (orders b) (L s) = rq (orders b) (concat (take rank (rev (L s)))) @ rq (orders b) ?zs @
      rq (orders b) (concat (drop (rank + 1) (rev (L s))))"
    using lv(4) unfolding queue_of_def
    by (metis append_take_drop_id concat.simps(2) concat_append map_append)
  then have seqs: "sorted_wrt (\<lambda>i j. r_seq_no (resting_of (the (orders b i))) < r_seq_no (resting_of (the (orders b j)))) ?zs"
    using inv level_ok_price [OF lv(2)] by (metis queue_inv_level)
  have "check_level b s (lv_price lv) (first_of ?zs kNilIndex) kNilIndex 0 seen =
      Some (Inr (last_of kNilIndex ?zs, seen + length ?zs))"
    using level_order_checked [OF ok lv(2)] lrep Suc.prems seqs unfolding lv(4)
    by (intro check_level_accepts) (auto simp: level_repr_def)
  then have chk: "check_level b s (lv_price lv) (head lv) kNilIndex 0 seen = Some (Inr (tail lv, seen + length ?zs))"
    using lrep by (simp add: level_repr_def)
  have "check_ranks b s (rank + 1) (seen + length ?zs) =
      Some (Inr (seen + length ?zs + length (concat (drop (rank + 1) (rev (L s))))))"
    using Suc.hyps Suc.prems unfolding lv(4) by (intro Suc.hyps(1)) auto
  moreover have "(if rank > 0
      then do { above \<leftarrow> PriceLevels_by_rank ?pl (rank - 1); Some (\<not> better (best_of s) (lv_price above) (lv_price lv)) }
      else Some False) = Some False"
    using ordered by (cases "rank > 0") auto
  moreover have "head lv \<noteq> kNilIndex"
    using level_repr_empty_iff [OF lrep] nonempty by simp
  ultimately show ?case
    using rank(2) lv(1) chk unfolding lv(4)
    by (subst check_ranks.simps) (simp add: PriceLevels_size_def)
qed

lemma length_queue_of: "length (queue_of m xss) = length (concat (rev xss))"
  by (simp add: queue_of_def)

lemma not_crossed_heads:
  assumes "spec_inv sb" "s_bids sb \<noteq> []" "s_asks sb \<noteq> []"
  shows "r_price (hd (s_bids sb)) < r_price (hd (s_asks sb))"
  using assms by (auto simp: spec_inv_def uncrossed_def)

lemma in_use_count:
  fixes c f :: Index
  assumes "k \<le> unat c" "unat f = unat c - k"
  shows "(ucast c - ucast f :: 64 word) = of_nat k"
proof -
  have "unat (ucast f :: 64 word) = unat f" "unat (ucast c :: 64 word) = unat c"
    by (simp_all add: unsigned_ucast_eq take_bit_nat_eq_self unat_bound32 less_trans [OF unat_bound32])
  moreover have "k < 2 ^ 64"
    using assms(1) unat_bound32 [of c] by simp
  ultimately show ?thesis
    using assms by (simp add: word_unat_eq_iff unat_sub_if' unat_of_nat take_bit_nat_eq_self)
qed

lemma self_check_passes:
  assumes abs: "book_abs b sb" and inv: "spec_inv sb"
  shows "invariant_violation b = Some None"
proof -
  obtain L where L: "book_ok b L" "\<And>s. s_queue sb s = queue_of (orders b) (L s)"
    using abs by (rule book_absE) blast
  note pinv = book_okD(4) [OF L(1)]
  let ?n = "card (dom (orders b))"
  have cap: "unat (capacity (pool b)) = length (slots (pool b))"
    using pool_inv_length [OF pinv] by (simp add: capacity_def unat_of_nat_small)
  have n: "?n = length (concat (rev (L Buy))) + length (concat (rev (L Sell)))" "?n \<le> unat (capacity (pool b))"
    using length_orders [OF L] length_s_orders [of sb Buy] L(2) card_orders_le [OF pinv] cap
    by (simp_all add: length_queue_of)
  have q: "queue_inv s (s_seq sb) (queue_of (orders b) (L s))" for s
    using inv by (simp add: spec_inv_def L(2))
  have "check_side b Buy 0 = Some (Inr (length (concat (rev (L Buy)))))"
    using check_ranks_accepts [OF L(1) q [of Buy], of 0 0] n by (simp add: check_side_def)
  moreover have "check_side b Sell (length (concat (rev (L Buy)))) = Some (Inr ?n)"
    using check_ranks_accepts [OF L(1) q [of Sell], of "length (concat (rev (L Buy)))" 0] n by (simp add: check_side_def)
  moreover have "(if has_bid b \<and> has_ask b
      then do { bb \<leftarrow> best_bid b; ba \<leftarrow> best_ask b; Some (bb \<ge> ba) } else Some False) = Some False"
    using best_bid_refines [OF abs] not_crossed_heads [OF inv] by auto
  moreover have "IdMap_size (id_map b) = ?n"
    using ids_ok_entries [OF book_okD(2) [OF L(1)]] by (simp add: IdMap_size_def)
  moreover obtain f where f: "free_slots (pool b) = Some f" "unat f = unat (capacity (pool b)) - ?n"
  proof
    show "free_slots (pool b) = Some (of_nat (length (slots (pool b)) - ?n))"
      using pinv by (rule free_slots_eq)
    have "length (slots (pool b)) - ?n < 2 ^ 32"
      using pool_inv_length [OF pinv] by (meson diff_le_self le_less_trans)
    then show "unat (of_nat (length (slots (pool b)) - ?n) :: Index) = unat (capacity (pool b)) - ?n"
      unfolding cap by (intro unat_of_nat_small) simp
  qed
  moreover have "(ucast (capacity (pool b)) - ucast f :: 64 word) = of_nat ?n"
    using n(2) f(2) by (rule in_use_count)
  ultimately show ?thesis
    by (simp add: invariant_violation_def)
qed

end
