(* ===== verification/Matching_Trades.thy ===== *)
theory Matching_Trades
  imports Matching_Invariants
begin

text \<open>
  The trades a sweep makes: how much it takes, from whom, in which order and at which price.
\<close>

definition total_qty :: "queue \<Rightarrow> nat" where
  "total_qty xs = (\<Sum>x \<leftarrow> xs. unat (r_qty x))"

definition traded :: "Trade list \<Rightarrow> nat" where
  "traded ts = (\<Sum>t \<leftarrow> ts. unat (tr_qty t))"

lemma total_qty_simps [simp]: "total_qty [] = 0" "total_qty (x # xs) = unat (r_qty x) + total_qty xs"
  by (simp_all add: total_qty_def)

lemma traded_simps [simp]: "traded [] = 0" "traded (t # ts) = unat (tr_qty t) + traded ts"
  by (simp_all add: traded_def)

lemma fill_trade_simps [simp]:
  "maker_order_id (fill_trade x taker q tid seq) = r_order_id x" "taker_order_id (fill_trade x taker q tid seq) = taker"
  "tr_price (fill_trade x taker q tid seq) = r_price x" "tr_qty (fill_trade x taker q tid seq) = q"
  "trade_id (fill_trade x taker q tid seq) = tid" "tr_seq_no (fill_trade x taker q tid seq) = seq"
  by (simp_all add: fill_trade_def)

text \<open>The three ways one step of the sweep can go.\<close>

lemma match_step_cases:
  assumes "match_queue ok acct taker seq tid q (x # xs) = (stp, ts, ys, q', tid')"
  obtains (stop) "q = 0 \<or> \<not> ok (r_price x)" "stp = False" "ts = []" "ys = x # xs" "q' = q" "tid' = tid"
  | (self) "q > 0" "ok (r_price x)" "r_account x = acct" "stp" "ts = []" "ys = x # xs" "q' = q" "tid' = tid"
  | (full) ts1 where "q > 0" "ok (r_price x)" "r_account x \<noteq> acct" "r_qty x \<le> q"
      "match_queue ok acct taker seq (tid + 1) (q - r_qty x) xs = (stp, ts1, ys, q', tid')"
      "ts = fill_trade x taker (r_qty x) tid seq # ts1"
  | (part) "q > 0" "ok (r_price x)" "r_account x \<noteq> acct" "q < r_qty x" "stp = False"
      "ts = [fill_trade x taker q tid seq]" "ys = x\<lparr>r_qty := r_qty x - q\<rparr> # xs" "q' = 0" "tid' = tid + 1"
proof -
  consider "q = 0 \<or> \<not> ok (r_price x)" | "q > 0" "ok (r_price x)" "r_account x = acct"
    | "q > 0" "ok (r_price x)" "r_account x \<noteq> acct" "r_qty x \<le> q"
    | "q > 0" "ok (r_price x)" "r_account x \<noteq> acct" "q < r_qty x"
    by (metis not_le word_neq_0_conv)
  then show ?thesis
  proof cases
    case 1
    with assms show ?thesis by (intro stop) auto
  next
    case 2
    with assms show ?thesis by (intro self) (auto split: if_splits)
  next
    case 3
    then have "q \<noteq> 0" by auto
    with 3 show ?thesis
      using assms full by (auto split: prod.splits)
  next
    case 4
    then have "\<not> r_qty x \<le> q" by simp
    with 4 assms show ?thesis by (intro part) (auto split: if_splits)
  qed
qed

text \<open>Nothing is created or lost.\<close>

lemma match_conserves:
  "match_queue ok acct taker seq tid q xs = (stp, ts, ys, q', tid') \<Longrightarrow>
   unat q = traded ts + unat q' \<and> total_qty xs = traded ts + total_qty ys"
proof (induction xs arbitrary: tid q ts)
  case (Cons x xs)
  from Cons.prems show ?case
  proof (cases rule: match_step_cases)
    case (full ts1)
    then show ?thesis
      using Cons.IH [OF full(5)] by (auto simp: unat_sub word_le_nat_alt)
  next
    case part
    then show ?thesis
      by (auto simp: unat_sub less_imp_le word_less_nat_alt)
  qed auto
qed simp

text \<open>The sweep takes as much as it can up to the first own order, and no more.\<close>

lemma match_takes:
  "match_queue ok acct taker seq tid q xs = (stp, ts, ys, q', tid') \<Longrightarrow>
   traded ts = min (unat q) (fillable ok acct xs)"
proof (induction xs arbitrary: tid q ts)
  case (Cons x xs)
  from Cons.prems show ?case
  proof (cases rule: match_step_cases)
    case (full ts1)
    then show ?thesis
      using Cons.IH [OF full(5)] by (auto simp: unat_sub word_le_nat_alt)
  next
    case part
    then show ?thesis
      by (auto simp: word_less_nat_alt)
  qed auto
qed simp

text \<open>The sweep ends on an own order only with quantity left.\<close>

lemma match_stp:
  "match_queue ok acct taker seq tid q xs = (True, ts, ys, q', tid') \<Longrightarrow>
   q' > 0 \<and> (\<exists>y zs. ys = y # zs \<and> r_account y = acct \<and> ok (r_price y) \<and> y \<in> set xs)"
proof (induction xs arbitrary: tid q ts)
  case (Cons x xs)
  from Cons.prems show ?case
  proof (cases rule: match_step_cases)
    case (full ts1)
    then show ?thesis
      using Cons.IH [OF full(5)] by auto
  qed auto
qed simp

text \<open>It does so exactly when quantity is left for the first order it may not take and that order is its own.\<close>

definition takeable :: "(Price \<Rightarrow> bool) \<Rightarrow> Account \<Rightarrow> RestingOrder \<Rightarrow> bool" where
  "takeable ok acct x \<longleftrightarrow> ok (r_price x) \<and> r_account x \<noteq> acct"

definition own_next :: "(Price \<Rightarrow> bool) \<Rightarrow> Account \<Rightarrow> queue \<Rightarrow> bool" where
  "own_next ok acct xs = (case dropWhile (takeable ok acct) xs of [] \<Rightarrow> False | y # _ \<Rightarrow> ok (r_price y) \<and> r_account y = acct)"

lemma match_stp_iff:
  "match_queue ok acct taker seq tid q xs = (stp, ts, ys, q', tid') \<Longrightarrow>
   (stp \<longleftrightarrow> fillable ok acct xs < unat q \<and> own_next ok acct xs) \<and> (stp \<longrightarrow> ys = dropWhile (takeable ok acct) xs)"
proof (induction xs arbitrary: tid q ts)
  case (Cons x xs)
  from Cons.prems show ?case
  proof (cases rule: match_step_cases)
    case (full ts1)
    then have "takeable ok acct x" "unat (q - r_qty x) = unat q - unat (r_qty x)" "unat (r_qty x) \<le> unat q"
      by (simp_all add: takeable_def unat_sub word_le_nat_alt)
    then show ?thesis
      using Cons.IH [OF full(5)] full by (auto simp: own_next_def takeable_def)
  qed (auto simp: own_next_def takeable_def word_less_nat_alt unat_gt_0)
qed (simp add: own_next_def)

text \<open>The makers are the first orders of the queue, one trade each, in queue order and at their prices.\<close>

lemma match_makers:
  "match_queue ok acct taker seq tid q xs = (stp, ts, ys, q', tid') \<Longrightarrow>
   length ts \<le> length xs \<and> map maker_order_id ts = map r_order_id (take (length ts) xs) \<and>
   map tr_price ts = map r_price (take (length ts) xs) \<and>
   (\<forall>x \<in> set (take (length ts) xs). ok (r_price x) \<and> r_account x \<noteq> acct)"
proof (induction xs arbitrary: tid q ts)
  case (Cons x xs)
  from Cons.prems show ?case
  proof (cases rule: match_step_cases)
    case (full ts1)
    then show ?thesis
      using Cons.IH [OF full(5)] by auto
  qed auto
qed simp

text \<open>Every maker but the last is filled completely.\<close>

lemma match_full_fills:
  "match_queue ok acct taker seq tid q xs = (stp, ts, ys, q', tid') \<Longrightarrow>
   map tr_qty (butlast ts) = map r_qty (take (length ts - 1) xs)"
proof (induction xs arbitrary: tid q ts)
  case (Cons x xs)
  from Cons.prems show ?case
  proof (cases rule: match_step_cases)
    case (full ts1)
    then show ?thesis
      using Cons.IH [OF full(5)] by (cases ts1) auto
  qed auto
qed simp

text \<open>Trades carry the taker's id and sequence number and consecutive trade ids.\<close>

lemma match_stamps:
  "match_queue ok acct taker seq tid q xs = (stp, ts, ys, q', tid') \<Longrightarrow>
   (\<forall>t \<in> set ts. taker_order_id t = taker \<and> tr_seq_no t = seq) \<and>
   map trade_id ts = map (\<lambda>k. tid + of_nat k) [0..<length ts] \<and> tid' = tid + of_nat (length ts)"
proof (induction xs arbitrary: tid q ts)
  case (Cons x xs)
  from Cons.prems show ?case
  proof (cases rule: match_step_cases)
    case (full ts1)
    have "map (\<lambda>k. tid + of_nat k) [0..<Suc n] = tid # map (\<lambda>k. tid + 1 + of_nat k) [0..<n]" for n
      by (simp only: upt_conv_Cons map_Suc_upt [symmetric] list.map map_map) (simp add: comp_def algebra_simps)
    then show ?thesis
      using Cons.IH [OF full(5)] full(6) by (simp add: algebra_simps)
  qed auto
qed simp

lemma match_positive:
  "match_queue ok acct taker seq tid q xs = (stp, ts, ys, q', tid') \<Longrightarrow> (\<forall>x \<in> set xs. r_qty x > 0) \<Longrightarrow>
   \<forall>t \<in> set ts. tr_qty t > 0"
proof (induction xs arbitrary: tid q ts)
  case (Cons x xs)
  from Cons.prems(1) show ?case
  proof (cases rule: match_step_cases)
    case (full ts1)
    then show ?thesis
      using Cons.IH [OF full(5)] Cons.prems(2) by auto
  qed auto
qed simp

text \<open>Orders of the taker's own account stay as they are.\<close>

lemma match_own_untouched:
  "match_queue ok acct taker seq tid q xs = (stp, ts, ys, q', tid') \<Longrightarrow>
   filter (\<lambda>x. r_account x = acct) ys = filter (\<lambda>x. r_account x = acct) xs"
proof (induction xs arbitrary: tid q ts)
  case (Cons x xs)
  from Cons.prems show ?case
  proof (cases rule: match_step_cases)
    case (full ts1)
    then show ?thesis
      using Cons.IH [OF full(5)] by auto
  qed auto
qed simp

end
