(* ===== verification/Engine_Run.thy ===== *)
theory Engine_Run
  imports Command Book_Observers Matching_Trades
begin

text \<open>
  One command at a time, as \<open>replay::apply\<close> dispatches it, and sequences of commands. The locale
  states once what a step-wise refinement gives for whole runs.
\<close>

section \<open>Applying a command\<close>

record Outcome =
  o_ok :: bool
  o_resting_qty :: Qty
  o_stp_rejected :: bool
  o_pool_exhausted :: bool

definition default_Outcome :: Outcome where
  "default_Outcome = \<lparr>o_ok = False, o_resting_qty = 0, o_stp_rejected = False, o_pool_exhausted = False\<rparr>"

definition apply_command :: "Book \<Rightarrow> Command \<Rightarrow> AddResult \<Rightarrow> (Outcome \<times> Book \<times> AddResult) option" where
  "apply_command book c scratch =
     (let added = (\<lambda>scratch. default_Outcome\<lparr>o_ok := accepted scratch, o_resting_qty := resting_qty scratch,
                       o_stp_rejected := stp_rejected scratch, o_pool_exhausted := pool_exhausted scratch\<rparr>)
      in case kind c of
           Limit \<Rightarrow> do { (scratch, book) \<leftarrow> add_limit_order scratch book (c_id c) (c_side c) (c_price c) (c_qty c)
                                               (c_account c) (c_tif c);
                        Some (added scratch, book, scratch) }
         | Market \<Rightarrow> do { (scratch, book) \<leftarrow> add_market_order scratch book (c_id c) (c_side c) (c_qty c) (c_account c);
                         Some (added scratch, book, scratch) }
         | Cancel \<Rightarrow> do { let scratch = AddResult_reset scratch;
                         (ok, book) \<leftarrow> cancel_order book (c_id c);
                         Some (default_Outcome\<lparr>o_ok := ok\<rparr>, book, scratch) }
         | Modify \<Rightarrow> do { let scratch = AddResult_reset scratch;
                         (ok, book) \<leftarrow> modify_order book (c_id c) (c_price c) (c_qty c);
                         Some (default_Outcome\<lparr>o_ok := ok\<rparr>, book, scratch) })"

text \<open>What a caller sees of a command: its outcome and its trades.\<close>

type_synonym event = "Outcome \<times> Trade list"
type_synonym engine = "Book \<times> AddResult"

definition engine_step :: "engine \<Rightarrow> Command \<Rightarrow> (event \<times> engine) option" where
  "engine_step e c =
     do { (out, book, scratch) \<leftarrow> apply_command (fst e) c (snd e); Some ((out, trades scratch), book, scratch) }"

definition engine_new :: "Index \<Rightarrow> engine" where
  "engine_new cap = (Book_new cap, empty_result)"

text \<open>The same command on the specification, for one or the other total of the fill-or-kill check.\<close>

definition added_event :: "AddResult \<Rightarrow> event" where
  "added_event r = (\<lparr>o_ok = accepted r, o_resting_qty = resting_qty r, o_stp_rejected = stp_rejected r,
     o_pool_exhausted = pool_exhausted r\<rparr>, trades r)"

definition flag_event :: "bool \<Rightarrow> event" where
  "flag_event ok = (default_Outcome\<lparr>o_ok := ok\<rparr>, [])"

definition spec_step :: "(nat \<Rightarrow> nat) \<Rightarrow> SpecBook \<Rightarrow> Command \<Rightarrow> event \<times> SpecBook" where
  "spec_step fok sb c =
     (case kind c of
        Limit \<Rightarrow> map_prod added_event id (spec_submit fok sb (c_id c) (c_side c)
                    (\<lambda>r. limit_crosses (c_side c) r (c_price c)) (c_price c) (c_qty c) (c_account c) (c_tif c))
      | Market \<Rightarrow> map_prod added_event id (spec_submit fok sb (c_id c) (c_side c) (\<lambda>_. True) (Price 0) (c_qty c)
                    (c_account c) IOC)
      | Cancel \<Rightarrow> map_prod flag_event id (spec_cancel sb (c_id c))
      | Modify \<Rightarrow> map_prod flag_event id (spec_modify sb (c_id c) (c_price c) (c_qty c)))"

section \<open>Runs\<close>

fun run_steps :: "('s \<Rightarrow> 'c \<Rightarrow> ('o \<times> 's) option) \<Rightarrow> 's \<Rightarrow> 'c list \<Rightarrow> ('o list \<times> 's) option" where
  "run_steps step s [] = Some ([], s)"
| "run_steps step s (c # cs) =
     do { (out, s) \<leftarrow> step s c; (outs, s) \<leftarrow> run_steps step s cs; Some (out # outs, s) }"

fun run_spec :: "('t \<Rightarrow> 'c \<Rightarrow> 'o \<times> 't) \<Rightarrow> 't \<Rightarrow> 'c list \<Rightarrow> 'o list \<times> 't" where
  "run_spec spec t [] = ([], t)"
| "run_spec spec t (c # cs) =
     (case spec t c of (out, t) \<Rightarrow> case run_spec spec t cs of (outs, t) \<Rightarrow> (out # outs, t))"

fun run_guard :: "('t \<Rightarrow> 'c \<Rightarrow> bool) \<Rightarrow> ('t \<Rightarrow> 'c \<Rightarrow> 'o \<times> 't) \<Rightarrow> 't \<Rightarrow> 'c list \<Rightarrow> bool" where
  "run_guard ok spec t [] \<longleftrightarrow> True"
| "run_guard ok spec t (c # cs) \<longleftrightarrow> ok t c \<and> run_guard ok spec (snd (spec t c)) cs"

lemma run_spec_append:
  "run_spec spec t (cs @ ds) =
     (case run_spec spec t cs of (outs, t1) \<Rightarrow> case run_spec spec t1 ds of (outs2, t2) \<Rightarrow> (outs @ outs2, t2))"
  by (induction cs arbitrary: t) (auto split: prod.splits)

lemma run_spec_Cons: "snd (run_spec spec t (c # cs)) = snd (run_spec spec (snd (spec t c)) cs)"
  by (simp split: prod.splits)

lemma run_spec_snoc: "snd (run_spec spec t (cs @ [c])) = snd (spec (snd (run_spec spec t cs)) c)"
  by (simp add: run_spec_append split: prod.splits)

text \<open>A simulation of a deterministic specification by a program that may get stuck.\<close>

locale simulation =
  fixes rel :: "'s \<Rightarrow> 't \<Rightarrow> bool"
    and step :: "'s \<Rightarrow> 'c \<Rightarrow> ('o \<times> 's) option"
    and spec :: "'t \<Rightarrow> 'c \<Rightarrow> 'o \<times> 't"
    and guard :: "'t \<Rightarrow> 'c \<Rightarrow> bool"
  assumes step_refines: "rel s t \<Longrightarrow> guard t c \<Longrightarrow>
      \<exists>s'. step s c = Some (fst (spec t c), s') \<and> rel s' (snd (spec t c))"
begin

lemma run_refines:
  assumes "rel s t" "run_guard guard spec t cs"
  shows "\<exists>s'. run_steps step s cs = Some (fst (run_spec spec t cs), s') \<and> rel s' (snd (run_spec spec t cs))"
  using assms
proof (induction cs arbitrary: s t)
  case (Cons c cs)
  obtain s1 where s1: "step s c = Some (fst (spec t c), s1)" "rel s1 (snd (spec t c))"
    using step_refines [of s t c] Cons.prems by auto
  then obtain s2 where "run_steps step s1 cs = Some (fst (run_spec spec (snd (spec t c)) cs), s2)"
      "rel s2 (snd (run_spec spec (snd (spec t c)) cs))"
    using Cons.IH [OF s1(2)] Cons.prems(2) by auto
  with s1(1) show ?case
    by (auto split: prod.splits)
qed simp

lemma run_deterministic:
  assumes "rel s t" "rel s' t" "run_guard guard spec t cs"
  shows "map_option fst (run_steps step s cs) = map_option fst (run_steps step s' cs)"
  using run_refines [OF assms(1,3)] run_refines [OF assms(2,3)] by auto

end

lemma run_guard_True [simp]: "run_guard (\<lambda>_ _. True) spec t cs"
  by (induction cs arbitrary: t) auto

section \<open>The engine simulates the specification\<close>

definition engine_abs :: "engine \<Rightarrow> SpecBook \<Rightarrow> bool" where
  "engine_abs e sb \<longleftrightarrow> book_abs (fst e) sb"

lemma engine_step_refines:
  assumes "engine_abs e sb"
  shows "\<exists>e'. engine_step e c = Some (fst (spec_step wrap32 sb c), e') \<and> engine_abs e' (snd (spec_step wrap32 sb c))"
proof -
  have abs: "book_abs (fst e) sb"
    using assms by (simp add: engine_abs_def)
  show ?thesis
  proof (cases "kind c")
    case Limit
    then show ?thesis
      using add_limit_refines [OF abs, of "snd e" "c_id c" "c_side c" "c_price c" "c_qty c" "c_account c" "c_tif c"]
      by (auto simp: engine_step_def apply_command_def spec_step_def spec_add_limit_def added_event_def
          default_Outcome_def engine_abs_def map_prod_def split: prod.splits)
  next
    case Market
    then show ?thesis
      using add_market_refines [OF abs, of "snd e" "c_id c" "c_side c" "c_qty c" "c_account c"]
      by (auto simp: engine_step_def apply_command_def spec_step_def spec_add_market_def added_event_def
          default_Outcome_def engine_abs_def map_prod_def split: prod.splits)
  next
    case Cancel
    then show ?thesis
      using cancel_refines [OF abs, of "c_id c"]
      by (auto simp: engine_step_def apply_command_def spec_step_def flag_event_def empty_result_def
          engine_abs_def map_prod_def split: prod.splits)
  next
    case Modify
    then show ?thesis
      using modify_refines [OF abs, of "c_id c" "c_price c" "c_qty c"]
      by (auto simp: engine_step_def apply_command_def spec_step_def flag_event_def empty_result_def
          engine_abs_def map_prod_def split: prod.splits)
  qed
qed

interpretation engine_sim: simulation engine_abs engine_step "spec_step wrap32" "\<lambda>_ _. True"
  by unfold_locales (rule engine_step_refines)

lemma engine_new_abs: "engine_abs (engine_new cap) (spec_new (unat cap))"
  by (simp add: engine_abs_def engine_new_def Book_new_abs)

section \<open>Reachable states\<close>

text \<open>\<open>reach cap n e\<close>: the engine is in state \<open>e\<close> after \<open>n\<close> commands on a book of capacity \<open>cap\<close>.\<close>

inductive reach :: "Index \<Rightarrow> nat \<Rightarrow> engine \<Rightarrow> bool" for cap where
  reach_new: "reach cap 0 (engine_new cap)"
| reach_step: "reach cap n e \<Longrightarrow> engine_step e c = Some (ev, e') \<Longrightarrow> reach cap (Suc n) e'"

inductive_cases reach_SucE: "reach cap (Suc n) e"

lemma spec_submit_frame:
  "s_seq (snd (spec_submit fok sb oid s ok p q acct tif)) = s_seq sb + 1"
  "s_cap (snd (spec_submit fok sb oid s ok p q acct tif)) = s_cap sb"
  by (auto simp: spec_submit_def Let_def split: prod.splits)

lemma spec_step_frame:
  "s_seq (snd (spec_step fok sb c)) = s_seq sb + 1" "s_cap (snd (spec_step fok sb c)) = s_cap sb"
  by (auto simp: spec_step_def spec_submit_frame spec_cancel_def spec_modify_def Let_def split: CommandKind.splits option.splits)

lemma spec_step_inv:
  assumes "spec_inv sb" "s_seq sb \<noteq> - 1"
  shows "spec_inv (snd (spec_step fok sb c))"
proof (cases "kind c")
  case Limit
  then show ?thesis
    using spec_submit_inv [OF assms] by (simp add: spec_step_def)
next
  case Market
  have "spec_inv (snd (spec_submit fok sb (c_id c) (c_side c) (\<lambda>_. True) (Price 0) (c_qty c) (c_account c) IOC))"
    by (rule spec_submit_inv [OF assms]) simp
  with Market show ?thesis
    by (simp add: spec_step_def)
next
  case Cancel
  then show ?thesis
    using spec_cancel_inv [OF assms] by (simp add: spec_step_def)
next
  case Modify
  then show ?thesis
    using spec_modify_inv [OF assms] by (simp add: spec_step_def)
qed

lemma seq_not_last: "n < 2 ^ 64 - 1 \<Longrightarrow> (of_nat n :: SeqNo) \<noteq> - 1"
proof -
  assume n: "n < 2 ^ 64 - 1"
  then have "unat (of_nat n :: SeqNo) = n"
    by (intro unat_of_nat_small) simp
  moreover have "unat (- 1 :: SeqNo) = 2 ^ 64 - 1"
    by (simp add: unsigned_minus_1_eq_mask mask_eq_exp_minus_1)
  ultimately show ?thesis
    using n by auto
qed

text \<open>Every reachable state represents a book of the specification, with the invariant while the
  sequence counter has not wrapped.\<close>

lemma reach_abs:
  assumes "reach cap n e"
  shows "\<exists>sb. engine_abs e sb \<and> s_cap sb = unat cap \<and> s_seq sb = of_nat n \<and> (n < 2 ^ 64 \<longrightarrow> spec_inv sb)"
  using assms
proof (induction rule: reach.induct)
  case reach_new
  then show ?case
    using engine_new_abs spec_new_inv by (intro exI [of _ "spec_new (unat cap)"]) (simp add: spec_new_def)
next
  case (reach_step n e c ev e')
  then obtain sb where sb: "engine_abs e sb" "s_cap sb = unat cap" "s_seq sb = of_nat n" "n < 2 ^ 64 \<longrightarrow> spec_inv sb"
    by blast
  have "engine_abs e' (snd (spec_step wrap32 sb c))"
    using engine_step_refines [OF sb(1), of c] reach_step.hyps(2) by auto
  moreover have "spec_inv (snd (spec_step wrap32 sb c))" if "Suc n < 2 ^ 64"
    using sb that seq_not_last [of n] by (intro spec_step_inv) auto
  ultimately show ?case
    using sb spec_step_frame [of wrap32 sb c] by (intro exI [of _ "snd (spec_step wrap32 sb c)"]) (simp add: add.commute)
qed

lemma reach_run:
  assumes "run_steps engine_step e cs = Some (evs, e')" "reach cap n e"
  shows "reach cap (n + length cs) e'"
  using assms
proof (induction cs arbitrary: e evs n)
  case (Cons c cs)
  then obtain ev e1 evs1 where step: "engine_step e c = Some (ev, e1)" "run_steps engine_step e1 cs = Some (evs1, e')"
    by (auto split: Option.bind_splits)
  show ?case
    using Cons.IH [OF step(2) reach_step [OF Cons.prems(2) step(1)]] by simp
qed simp

text \<open>What the snapshot of a reachable book shows.\<close>

definition side_queue :: "Side \<Rightarrow> queue \<Rightarrow> queue" where
  "side_queue s xs = filter (\<lambda>x. r_side x = s) xs"

lemma book_abs_sides:
  assumes "book_abs b sb" "x \<in> set (s_queue sb s)"
  shows "r_side x = s" "r_qty x > 0"
proof -
  obtain L where L: "book_ok b L" "\<And>s. s_queue sb s = queue_of (orders b) (L s)"
    using assms(1) by (rule book_absE) blast
  obtain i where i: "i \<in> set (concat (L s))" "x = resting_of (the (orders b i))"
    using assms(2) unfolding L(2) queue_of_def by (auto simp: set_concat_rev simp del: set_concat)
  show "r_side x = s" "r_qty x > 0"
    by (rule side_repr_member [OF book_reprD(2) [OF book_okD(1) [OF L(1)]] i(1)];
        use i(2) in \<open>simp add: resting_of_def\<close>)+
qed

lemma side_queue_orders:
  assumes "book_abs b sb"
  shows "side_queue s (s_orders sb) = s_queue sb s"
proof -
  have "filter (\<lambda>x. r_side x = s) (s_queue sb t) = (if t = s then s_queue sb t else [])" for t
    using book_abs_sides(1) [OF assms] by (auto simp: filter_id_conv filter_empty_conv)
  from this [of Buy] this [of Sell] show ?thesis
    by (cases s) (simp_all add: side_queue_def s_orders_def s_queue_def)
qed

lemma reach_snapshot:
  assumes "reach cap n (b, r)"
  obtains sb where "book_abs b sb" "snapshot b = Some (s_orders sb)" "\<And>s. side_queue s (s_orders sb) = s_queue sb s"
    "s_cap sb = unat cap" "s_seq sb = of_nat n" "n < 2 ^ 64 \<Longrightarrow> spec_inv sb"
  using reach_abs [OF assms] snapshot_refines side_queue_orders by (auto simp: engine_abs_def)

end
