(* ===== verification/Matching_Properties.thy ===== *)
theory Matching_Properties
  imports Engine_Run
begin

text \<open>
  What the engine does with a command in any reachable state, in terms of its snapshots before and
  after and of the trades it reports. The lemmas of the first section pull a step of the engine back
  to the specification; the properties then follow from the lemmas of \<open>Matching_Trades\<close> and
  \<open>Matching_Invariants\<close>.
\<close>

section \<open>A step seen from the specification\<close>

definition is_submit :: "Command \<Rightarrow> bool" where
  "is_submit c \<longleftrightarrow> kind c = Limit \<or> kind c = Market"

text \<open>A market order accepts every price and is never left in the book.\<close>

definition taker_accepts :: "Command \<Rightarrow> Price \<Rightarrow> bool" where
  "taker_accepts c r \<longleftrightarrow> kind c = Market \<or> limit_crosses (c_side c) r (c_price c)"

definition taker_tif :: "Command \<Rightarrow> TimeInForce" where
  "taker_tif c = (if kind c = Market then IOC else c_tif c)"

definition taker_price :: "Command \<Rightarrow> Price" where
  "taker_price c = (if kind c = Market then Price 0 else c_price c)"

lemma spec_step_submit:
  assumes "is_submit c"
  shows "spec_step fok sb c = map_prod added_event id (spec_submit fok sb (c_id c) (c_side c) (taker_accepts c)
    (taker_price c) (c_qty c) (c_account c) (taker_tif c))"
proof -
  have "taker_accepts c = (\<lambda>r. limit_crosses (c_side c) r (c_price c))" if "kind c = Limit"
    using that by (auto simp: taker_accepts_def)
  moreover have "taker_accepts c = (\<lambda>_. True)" if "kind c = Market"
    using that by (auto simp: taker_accepts_def)
  ultimately show ?thesis
    using assms by (auto simp: is_submit_def spec_step_def taker_tif_def taker_price_def)
qed

lemma spec_submit_cases:
  assumes "spec_submit fok sb oid s ok p q acct tif = (r, sb')"
  obtains (rejected) "q = 0 \<or> oid \<in> r_order_id ` set (s_orders sb)" "r = empty_result" "sb' = sb\<lparr>s_seq := s_seq sb + 1\<rparr>"
  | (killed) "q > 0" "oid \<notin> r_order_id ` set (s_orders sb)" "tif = FOK"
      "fok (fillable ok acct (s_queue sb (opposite s))) < unat q"
      "r = empty_result\<lparr>accepted := True\<rparr>" "sb' = sb\<lparr>s_seq := s_seq sb + 1\<rparr>"
  | (matched) stp ts ys q' tid' where "q > 0" "oid \<notin> r_order_id ` set (s_orders sb)"
      "tif = FOK \<Longrightarrow> unat q \<le> fok (fillable ok acct (s_queue sb (opposite s)))"
      "match_queue ok acct oid (s_seq sb) (s_tid sb) q (s_queue sb (opposite s)) = (stp, ts, ys, q', tid')"
      "s_queue sb' (opposite s) = ys" "s_tid sb' = tid'" "accepted r" "trades r = ts" "stp_rejected r = stp"
      "resting_qty r = (if tif = GTC \<and> \<not> stp \<and> \<not> pool_exhausted r then q' else 0)"
      "pool_exhausted r \<longleftrightarrow> tif = GTC \<and> \<not> stp \<and> q' > 0 \<and> s_cap sb \<le> length (s_queue sb s) + length ys"
      "s_queue sb' s = (if resting_qty r > 0 then enqueue s \<lparr>r_side = s, r_price = p, r_order_id = oid,
         r_qty = resting_qty r, r_account = acct, r_seq_no = s_seq sb\<rparr> (s_queue sb s) else s_queue sb s)"
proof (cases "q = 0 \<or> oid \<in> r_order_id ` set (s_orders sb)")
  case True
  then show ?thesis
    using assms by (intro rejected) (auto simp: spec_submit_def)
next
  case False
  then have q: "q > 0" "oid \<notin> r_order_id ` set (s_orders sb)"
    by (auto simp: word_neq_0_conv)
  show ?thesis
  proof (cases "tif = FOK \<and> fok (fillable ok acct (s_queue sb (opposite s))) < unat q")
    case True
    then show ?thesis
      using assms q False by (intro killed) (auto simp: spec_submit_def Let_def)
  next
    case go: False
    obtain stp ts ys q' tid' where m:
        "match_queue ok acct oid (s_seq sb) (s_tid sb) q (s_queue sb (opposite s)) = (stp, ts, ys, q', tid')"
      by (metis prod.exhaust)
    let ?sb = "(set_queue (sb\<lparr>s_seq := s_seq sb + 1\<rparr>) (opposite s) ys)\<lparr>s_tid := tid'\<rparr>"
    let ?r = "empty_result\<lparr>accepted := True, trades := ts, stp_rejected := stp\<rparr>"
    have len: "length (s_orders ?sb) = length (s_queue sb s) + length ys"
      unfolding length_s_orders [of _ s] by simp
    have res: "(r, sb') = (if tif = GTC \<and> \<not> stp \<and> q' > 0
        then if length (s_queue sb s) + length ys < s_cap sb
             then (?r\<lparr>resting_qty := q'\<rparr>, set_queue ?sb s (enqueue s \<lparr>r_side = s, r_price = p, r_order_id = oid,
                    r_qty = q', r_account = acct, r_seq_no = s_seq sb\<rparr> (s_queue sb s)))
             else (?r\<lparr>pool_exhausted := True\<rparr>, ?sb) else (?r, ?sb))"
      using assms go False m len by (auto simp: spec_submit_def Let_def split: if_splits)
    show ?thesis
      by (rule matched [OF q _ m]; use res go in \<open>auto simp: empty_result_def word_neq_0_conv not_less split: if_splits\<close>)
  qed
qed

lemma step_view:
  assumes "reach cap n (b, r)" "engine_step (b, r) c = Some (ev, b', r')" "snapshot b = Some xs" "snapshot b' = Some xs'"
  obtains sb sb' where "xs = s_orders sb" "xs' = s_orders sb'" "\<And>s. side_queue s xs = s_queue sb s"
    "\<And>s. side_queue s xs' = s_queue sb' s" "s_cap sb = unat cap" "s_seq sb = of_nat n"
    "spec_step wrap32 sb c = (ev, sb')" "distinct (map r_order_id xs)"
    "n < 2 ^ 64 \<Longrightarrow> spec_inv sb" "Suc n < 2 ^ 64 \<Longrightarrow> spec_inv sb'"
proof -
  obtain sb where sb: "book_abs b sb" "snapshot b = Some (s_orders sb)" "\<And>s. side_queue s (s_orders sb) = s_queue sb s"
      "s_cap sb = unat cap" "s_seq sb = of_nat n" "n < 2 ^ 64 \<Longrightarrow> spec_inv sb"
    using assms(1) by (rule reach_snapshot) blast
  obtain sb' where sb': "spec_step wrap32 sb c = (ev, sb')" "book_abs b' sb'"
    using engine_step_refines [of "(b, r)" sb c] sb(1) assms(2) by (cases "spec_step wrap32 sb c") (auto simp: engine_abs_def)
  have inv': "spec_inv sb'" if "Suc n < 2 ^ 64"
    using spec_step_inv [of sb wrap32 c] sb(5,6) sb'(1) that seq_not_last [of n] by simp
  have distinct: "distinct (map r_order_id (s_orders sb))"
    using sb(1) by (rule book_absE) (rule distinct_ids)
  show ?thesis
    by (rule that [of sb sb'])
      (use sb sb' inv' assms(3,4) snapshot_refines [OF sb'(2)] side_queue_orders [OF sb'(2)] distinct in auto)
qed

lemma submit_view:
  assumes "reach cap n (b, r)" "engine_step (b, r) c = Some ((out, ts), b', r')"
    "snapshot b = Some xs" "snapshot b' = Some xs'" "is_submit c"
  obtains sb res sb' where "xs = s_orders sb" "xs' = s_orders sb'" "\<And>s. side_queue s xs = s_queue sb s"
    "\<And>s. side_queue s xs' = s_queue sb' s" "added_event res = (out, ts)" "s_cap sb = unat cap" "s_seq sb = of_nat n"
    "spec_submit wrap32 sb (c_id c) (c_side c) (taker_accepts c) (taker_price c) (c_qty c) (c_account c) (taker_tif c) = (res, sb')"
    "n < 2 ^ 64 \<Longrightarrow> spec_inv sb" "Suc n < 2 ^ 64 \<Longrightarrow> spec_inv sb'"
proof -
  obtain sb sb' where v: "xs = s_orders sb" "xs' = s_orders sb'" "\<And>s. side_queue s xs = s_queue sb s"
      "\<And>s. side_queue s xs' = s_queue sb' s" "s_cap sb = unat cap" "s_seq sb = of_nat n"
      "spec_step wrap32 sb c = ((out, ts), sb')" "n < 2 ^ 64 \<Longrightarrow> spec_inv sb" "Suc n < 2 ^ 64 \<Longrightarrow> spec_inv sb'"
    using assms(1-4) by (rule step_view) blast
  then show ?thesis
    using spec_step_submit [OF assms(5), of wrap32 sb] that [of sb sb']
    by (cases "spec_submit wrap32 sb (c_id c) (c_side c) (taker_accepts c) (taker_price c) (c_qty c) (c_account c) (taker_tif c)")
      auto
qed

section \<open>A sample run\<close>

text \<open>Two asks and a bid in a book for four orders, and commands that meet them.\<close>

definition sample_commands :: "Command list" where
  "sample_commands = [limit_command 1 Sell (Price 101) 5 7 GTC, limit_command 2 Sell (Price 102) 4 8 GTC,
     limit_command 3 Buy (Price 100) 6 9 GTC]"

definition sample_engine :: engine where
  "sample_engine = snd (the (run_steps engine_step (engine_new 4) sample_commands))"

definition sample_step :: "Command \<Rightarrow> event \<times> engine" where
  "sample_step c = the (engine_step sample_engine c)"

definition sample_out :: "Command \<Rightarrow> Outcome" where
  "sample_out c = fst (fst (sample_step c))"

definition sample_trades :: "Command \<Rightarrow> Trade list" where
  "sample_trades c = snd (fst (sample_step c))"

definition sample_before :: queue where
  "sample_before = the (snapshot (fst sample_engine))"

definition sample_after :: "Command \<Rightarrow> queue" where
  "sample_after c = the (snapshot (fst (snd (sample_step c))))"

lemma reach_progress:
  assumes "reach cap n e"
  shows "\<exists>ev e'. engine_step e c = Some (ev, e')"
  using reach_abs [OF assms] engine_step_refines by blast

lemma reach_snapshot_Some: "reach cap n e \<Longrightarrow> snapshot (fst e) = Some (the (snapshot (fst e)))"
  by (cases e) (auto elim: reach_snapshot)

lemma sample_reach: "reach 4 3 sample_engine"
proof -
  obtain evs e where run: "run_steps engine_step (engine_new 4) sample_commands = Some (evs, e)"
    using engine_sim.run_refines [OF engine_new_abs, of 4 sample_commands] by auto
  have "length sample_commands = 3"
    by (simp add: sample_commands_def)
  then show ?thesis
    using reach_run [OF run reach_new] run by (simp add: sample_engine_def)
qed

lemma sample_step_Some: "engine_step sample_engine c = Some (sample_step c)"
  using reach_progress [OF sample_reach, of c] by (auto simp: sample_step_def)

lemma sample_view:
  "reach 4 3 (fst sample_engine, snd sample_engine)"
  "engine_step (fst sample_engine, snd sample_engine) c =
     Some ((sample_out c, sample_trades c), fst (snd (sample_step c)), snd (snd (sample_step c)))"
  "snapshot (fst sample_engine) = Some sample_before"
  "snapshot (fst (snd (sample_step c))) = Some (sample_after c)"
  using sample_reach sample_step_Some [of c] reach_snapshot_Some [OF sample_reach]
    reach_snapshot_Some [OF reach_step [OF sample_reach, of c "fst (sample_step c)" "snd (sample_step c)"]]
  by (simp_all add: sample_out_def sample_trades_def sample_before_def sample_after_def)

section \<open>The whole engine\<close>

text \<open>C1. On a fresh book every sequence of commands runs to its end, with the outcomes and trades of the
  specification (where the fill-or-kill total is taken modulo 2^32, as in the source), and leaves the
  specified resting orders.\<close>

theorem engine_run_refines:
  "\<exists>e. run_steps engine_step (engine_new cap) cs =
         Some (fst (run_spec (spec_step wrap32) (spec_new (unat cap)) cs), e) \<and>
       snapshot (fst e) = Some (s_orders (snd (run_spec (spec_step wrap32) (spec_new (unat cap)) cs)))"
  using engine_sim.run_refines [OF engine_new_abs, of cap cs] snapshot_refines by (auto simp: engine_abs_def)

text \<open>C5. In every reachable state every command returns: no loop of the book runs forever and no access
  leaves its array, its list or its pool.\<close>

theorem commands_return:
  assumes "reach cap n e"
  shows "\<exists>out book scratch. apply_command (fst e) c (snd e) = Some (out, book, scratch)"
  using reach_progress [OF assms, of c] by (auto simp: engine_step_def split: Option.bind_splits)

theorem commands_return_witness:
  "\<exists>out book scratch. apply_command (fst sample_engine) (market_command 9 Buy 6 1) (snd sample_engine) =
     Some (out, book, scratch)"
  by (rule commands_return [OF sample_reach])

text \<open>C6. The self-check of the book finds no violation in any state reached by fewer than 2^64 commands.\<close>

theorem self_check_silent:
  assumes "reach cap n (b, r)" "n < 2 ^ 64"
  shows "invariant_violation b = Some None"
  using assms(1)
proof (rule reach_snapshot)
  fix sb
  assume "book_abs b sb" "n < 2 ^ 64 \<Longrightarrow> spec_inv sb"
  then show ?thesis
    using assms(2) self_check_passes by blast
qed

theorem self_check_silent_witness: "invariant_violation (fst sample_engine) = Some None"
  by (rule self_check_silent [OF sample_view(1)]) simp

text \<open>C7. The snapshot lists the bids and then the asks, each side in strict price-time priority, with
  positive quantities, unique ids and at most as many orders as the pool has slots.\<close>

theorem snapshot_in_priority:
  assumes "reach cap n (b, r)" "n < 2 ^ 64"
  shows "\<exists>xs. snapshot b = Some xs \<and> xs = side_queue Buy xs @ side_queue Sell xs \<and>
    (\<forall>s. sorted_wrt (in_priority s) (side_queue s xs)) \<and> distinct (map r_order_id xs) \<and>
    (\<forall>x \<in> set xs. r_qty x > 0 \<and> unat (r_seq_no x) < n) \<and> length xs \<le> unat cap"
  using assms(1)
proof (rule reach_snapshot)
  fix sb
  assume v: "snapshot b = Some (s_orders sb)" "\<And>s. side_queue s (s_orders sb) = s_queue sb s"
    "s_cap sb = unat cap" "s_seq sb = of_nat n" "n < 2 ^ 64 \<Longrightarrow> spec_inv sb"
  have inv: "queue_inv s (of_nat n) (s_queue sb s)" "distinct (map r_order_id (s_orders sb))" "length (s_orders sb) \<le> unat cap" for s
    using v(3,4) v(5) [OF assms(2)] by (simp_all add: spec_inv_def)
  have "unat (of_nat n :: SeqNo) = n"
    using assms(2) by (intro unat_of_nat_small) simp
  then have "r_qty x > 0 \<and> unat (r_seq_no x) < n" if "x \<in> set (s_orders sb)" for x
    using that inv(1) [of Buy] inv(1) [of Sell] by (auto simp: s_orders_sides [of _ Buy] queue_inv_def word_less_nat_alt)
  then show ?thesis
    using v(1) inv v(2) by (intro exI [of _ "s_orders sb"]) (auto simp: queue_inv_def s_orders_def s_queue_def)
qed

theorem snapshot_in_priority_witness:
  "\<exists>xs. snapshot (fst sample_engine) = Some xs \<and> xs = side_queue Buy xs @ side_queue Sell xs \<and>
    (\<forall>s. sorted_wrt (in_priority s) (side_queue s xs)) \<and> distinct (map r_order_id xs) \<and>
    (\<forall>x \<in> set xs. r_qty x > 0 \<and> unat (r_seq_no x) < 3) \<and> length xs \<le> unat (4 :: Index)"
  by (rule snapshot_in_priority [OF sample_view(1)]) simp

text \<open>C8. The book is never crossed: the best bid is below the best ask.\<close>

theorem never_crossed:
  assumes "reach cap n (b, r)" "n < 2 ^ 64" "has_bid b" "has_ask b"
  shows "\<exists>bid ask. best_bid b = Some bid \<and> best_ask b = Some ask \<and> bid < ask"
  using assms(1)
proof (rule reach_snapshot)
  fix sb
  assume "book_abs b sb" "n < 2 ^ 64 \<Longrightarrow> spec_inv sb"
  then show ?thesis
    using best_bid_refines [of b sb] assms(2-4) by (auto simp: spec_inv_def uncrossed_def)
qed

theorem never_crossed_witness:
  "\<exists>bid ask. best_bid (fst sample_engine) = Some bid \<and> best_ask (fst sample_engine) = Some ask \<and> bid < ask"
  by (rule never_crossed [OF sample_view(1)]) (simp, code_simp, code_simp)

end
