(* ===== verification/Order_Properties.thy ===== *)
theory Order_Properties
  imports Matching_Properties
begin

text \<open>
  The rules of the matching specification (\<open>docs/spec.md\<close>, S1 to S6), each for any command in any
  reachable state: \<open>xs\<close> and \<open>xs'\<close> are the snapshots before and after, \<open>ts\<close> the trades it made.
\<close>

section \<open>Submitting an order\<close>

lemma submit_cases:
  assumes "reach cap n (b, r)" "engine_step (b, r) c = Some ((out, ts), b', r')"
    "snapshot b = Some xs" "snapshot b' = Some xs'" "is_submit c"
  obtains (rejected) "c_qty c = 0 \<or> c_id c \<in> r_order_id ` set xs" "out = default_Outcome" "ts = []" "xs' = xs"
  | (killed) "c_qty c > 0" "c_id c \<notin> r_order_id ` set xs" "taker_tif c = FOK"
      "wrap32 (fillable (taker_accepts c) (c_account c) (side_queue (opposite (c_side c)) xs)) < unat (c_qty c)"
      "out = default_Outcome\<lparr>o_ok := True\<rparr>" "ts = []" "xs' = xs"
  | (matched) stp q' tid tid' where "c_qty c > 0" "c_id c \<notin> r_order_id ` set xs"
      "taker_tif c = FOK \<Longrightarrow> unat (c_qty c) \<le>
         wrap32 (fillable (taker_accepts c) (c_account c) (side_queue (opposite (c_side c)) xs))"
      "match_queue (taker_accepts c) (c_account c) (c_id c) (of_nat n) tid (c_qty c)
         (side_queue (opposite (c_side c)) xs) = (stp, ts, side_queue (opposite (c_side c)) xs', q', tid')"
      "o_ok out" "o_stp_rejected out = stp"
      "o_resting_qty out = (if taker_tif c = GTC \<and> \<not> stp \<and> \<not> o_pool_exhausted out then q' else 0)"
      "o_pool_exhausted out \<longleftrightarrow> taker_tif c = GTC \<and> \<not> stp \<and> q' > 0 \<and>
         unat cap \<le> length (side_queue (c_side c) xs) + length (side_queue (opposite (c_side c)) xs')"
      "side_queue (c_side c) xs' = (if o_resting_qty out > 0 then enqueue (c_side c) \<lparr>r_side = c_side c,
         r_price = c_price c, r_order_id = c_id c, r_qty = o_resting_qty out, r_account = c_account c,
         r_seq_no = of_nat n\<rparr> (side_queue (c_side c) xs) else side_queue (c_side c) xs)"
  using assms
proof (rule submit_view)
  fix sb res sb'
  assume v: "xs = s_orders sb" "xs' = s_orders sb'" "\<And>s. side_queue s xs = s_queue sb s"
      "\<And>s. side_queue s xs' = s_queue sb' s" "s_cap sb = unat cap" "s_seq sb = of_nat n" "added_event res = (out, ts)"
    and submit: "spec_submit wrap32 sb (c_id c) (c_side c) (taker_accepts c) (taker_price c) (c_qty c) (c_account c)
        (taker_tif c) = (res, sb')"
  have out: "o_ok out = accepted res" "o_resting_qty out = resting_qty res" "o_stp_rejected out = stp_rejected res"
      "o_pool_exhausted out = pool_exhausted res" "ts = trades res"
    using v(7) by (auto simp: added_event_def)
  have price: "taker_price c = c_price c" if "taker_tif c = GTC"
    using that by (auto simp: taker_tif_def taker_price_def split: if_splits)
  from submit show ?thesis
  proof (cases rule: spec_submit_cases)
    case rejected
    with v(1,2,7) show ?thesis
      by (intro that(1)) (auto simp: default_Outcome_def empty_result_def added_event_def)
  next
    case killed
    with v(1,2,3,7) show ?thesis
      by (intro that(2)) (auto simp: default_Outcome_def empty_result_def added_event_def)
  next
    case (matched stp ts1 ys q' tid')
    have mq: "match_queue (taker_accepts c) (c_account c) (c_id c) (of_nat n) (s_tid sb) (c_qty c)
         (side_queue (opposite (c_side c)) xs) = (stp, ts, side_queue (opposite (c_side c)) xs', q', tid')"
      using matched(4,5,8) v(3,4,6) out(5) by simp
    show ?thesis
      by (rule that(3) [OF matched(1) _ _ mq]) (use matched v(1,3-6) out price in \<open>auto split: if_splits\<close>)
  qed
qed

text \<open>C18. A limit or market order is rejected exactly when its quantity is zero or its id is already
  resting; a rejected order trades nothing and leaves the book as it was.\<close>

theorem rejected_iff:
  assumes "reach cap n (b, r)" "engine_step (b, r) c = Some ((out, ts), b', r')"
    "snapshot b = Some xs" "snapshot b' = Some xs'" "is_submit c"
  shows "(\<not> o_ok out \<longleftrightarrow> c_qty c = 0 \<or> c_id c \<in> r_order_id ` set xs) \<and>
    (\<not> o_ok out \<longrightarrow> out = default_Outcome \<and> ts = [] \<and> xs' = xs)"
  using assms by (rule submit_cases) (auto simp: default_Outcome_def word_neq_0_conv)

theorem rejected_iff_witness:
  "\<not> o_ok (sample_out (limit_command 2 Buy (Price 105) 3 1 GTC)) \<and>
   sample_after (limit_command 2 Buy (Price 105) 3 1 GTC) = sample_before"
proof -
  have "2 \<in> r_order_id ` set sample_before"
    by code_simp
  then show ?thesis
    using rejected_iff [OF sample_view(1,2,3,4), of "limit_command 2 Buy (Price 105) 3 1 GTC"]
    by (simp add: is_submit_def limit_command_def)
qed

lemma total_qty_sides: "total_qty xs = total_qty (side_queue s xs) + total_qty (side_queue (opposite s) xs)"
proof (induction xs)
  case (Cons x xs)
  then show ?case
    by (cases "r_side x"; cases s) (auto simp: side_queue_def)
qed (simp add: side_queue_def)

lemma set_sides: "set xs = set (side_queue s xs) \<union> set (side_queue (opposite s) xs)"
  by (cases s) (auto simp: side_queue_def intro: Side.exhaust)

lemma total_qty_append: "total_qty (xs @ ys) = total_qty xs + total_qty ys"
  by (simp add: total_qty_def)

lemma total_qty_enqueue: "total_qty (enqueue s x xs) = unat (r_qty x) + total_qty xs"
  by (rule enqueue_at [of xs s x]) (simp add: total_qty_append)

text \<open>C12. Quantity is conserved: what is in the book afterwards and what was traded is what was in the
  book before and what now rests of the order. An accepted good-till-cancel order that neither met its own
  account nor a full pool trades or rests all of its quantity.\<close>

theorem quantity_conserved:
  assumes "reach cap n (b, r)" "engine_step (b, r) c = Some ((out, ts), b', r')"
    "snapshot b = Some xs" "snapshot b' = Some xs'" "is_submit c"
  shows "total_qty xs' + traded ts = total_qty xs + unat (o_resting_qty out) \<and>
    traded ts + unat (o_resting_qty out) \<le> unat (c_qty c) \<and>
    (o_ok out \<and> taker_tif c = GTC \<and> \<not> o_stp_rejected out \<and> \<not> o_pool_exhausted out \<longrightarrow>
       traded ts + unat (o_resting_qty out) = unat (c_qty c))"
  using assms
proof (cases rule: submit_cases [consumes 5, case_names rejected killed matched])
  case (matched stp q' tid tid')
  note m = match_conserves [OF matched(4)]
  have "total_qty (side_queue (c_side c) xs') = total_qty (side_queue (c_side c) xs) + unat (o_resting_qty out)"
    using matched(9) by (cases "o_resting_qty out > 0") (auto simp: total_qty_enqueue word_neq_0_conv [symmetric])
  then show ?thesis
    using m matched(6,7) by (simp add: total_qty_sides [of xs "c_side c"] total_qty_sides [of xs' "c_side c"])
qed (simp_all add: default_Outcome_def)

theorem quantity_conserved_witness:
  "total_qty sample_before = 15 \<and> traded (sample_trades (limit_command 4 Buy (Price 101) 8 1 GTC)) = 5 \<and>
   total_qty (sample_after (limit_command 4 Buy (Price 101) 8 1 GTC)) = 13"
proof -
  have "total_qty sample_before = 15" "traded (sample_trades (limit_command 4 Buy (Price 101) 8 1 GTC)) = 5"
    "o_resting_qty (sample_out (limit_command 4 Buy (Price 101) 8 1 GTC)) = 3"
    by code_simp+
  then show ?thesis
    using quantity_conserved [OF sample_view(1,2,3,4), of "limit_command 4 Buy (Price 101) 8 1 GTC"]
    by (simp add: is_submit_def limit_command_def)
qed

text \<open>C10. Trades follow price-time priority: the makers are the first orders of the opposite side in
  that order, each at its own price, which the taker accepts, and each but the last is filled completely.\<close>

theorem trades_follow_priority:
  assumes "reach cap n (b, r)" "engine_step (b, r) c = Some ((out, ts), b', r')"
    "snapshot b = Some xs" "snapshot b' = Some xs'" "is_submit c"
  defines "makers \<equiv> take (length ts) (side_queue (opposite (c_side c)) xs)"
  shows "map maker_order_id ts = map r_order_id makers \<and> map tr_price ts = map r_price makers \<and>
    map tr_qty (butlast ts) = map r_qty (butlast makers) \<and> (\<forall>x \<in> set makers. taker_accepts c (r_price x))"
  using assms(1-5)
proof (cases rule: submit_cases [consumes 5, case_names rejected killed matched])
  case (matched stp q' tid tid')
  have "butlast makers = take (length ts - 1) (side_queue (opposite (c_side c)) xs)"
    using match_makers [OF matched(4)] by (simp add: makers_def butlast_take)
  then show ?thesis
    using match_makers [OF matched(4)] match_full_fills [OF matched(4)] by (simp add: makers_def)
qed (simp_all add: makers_def)

theorem trades_follow_priority_witness:
  "map maker_order_id (sample_trades (market_command 4 Buy 6 1)) = [1, 2]"
proof -
  have "length (sample_trades (market_command 4 Buy 6 1)) = 2"
    "map r_order_id (take 2 (side_queue Sell sample_before)) = [1, 2]"
    by code_simp+
  then show ?thesis
    using trades_follow_priority [OF sample_view(1,2,3,4), of "market_command 4 Buy 6 1"]
    by (simp add: is_submit_def market_command_def)
qed

text \<open>C11. An accepted order that is not fill-or-kill takes all it can: the traded quantity is the smaller of
  its own and of what the opposite side offers at acceptable prices ahead of the first order of its own account.\<close>

theorem takes_all_available:
  assumes "reach cap n (b, r)" "engine_step (b, r) c = Some ((out, ts), b', r')"
    "snapshot b = Some xs" "snapshot b' = Some xs'" "is_submit c" "o_ok out" "taker_tif c \<noteq> FOK"
  shows "traded ts = min (unat (c_qty c))
    (fillable (taker_accepts c) (c_account c) (side_queue (opposite (c_side c)) xs))"
  using assms(1-5)
proof (cases rule: submit_cases [consumes 5, case_names rejected killed matched])
  case (matched stp q' tid tid')
  show ?thesis
    by (rule match_takes [OF matched(4)])
qed (use assms(6,7) in \<open>simp_all add: default_Outcome_def\<close>)

theorem takes_all_available_witness:
  "traded (sample_trades (limit_command 4 Buy (Price 101) 8 1 IOC)) = min 8 5"
proof -
  have "o_ok (sample_out (limit_command 4 Buy (Price 101) 8 1 IOC))"
    "fillable (taker_accepts (limit_command 4 Buy (Price 101) 8 1 IOC)) 1 (side_queue Sell sample_before) = 5"
    by code_simp+
  then show ?thesis
    using takes_all_available [OF sample_view(1,2,3,4), of "limit_command 4 Buy (Price 101) 8 1 IOC"]
    by (simp add: is_submit_def limit_command_def taker_tif_def)
qed

section \<open>Fill-or-kill\<close>

text \<open>C13. A fill-or-kill order trades its whole quantity or leaves the book as it was. It never rests. As long
  as the available quantity fits in 32 bits, an accepted one fills exactly when enough is available.\<close>

theorem fok_all_or_nothing:
  assumes "reach cap n (b, r)" "engine_step (b, r) c = Some ((out, ts), b', r')"
    "snapshot b = Some xs" "snapshot b' = Some xs'" "kind c = Limit" "c_tif c = FOK"
  defines "available \<equiv> fillable (taker_accepts c) (c_account c) (side_queue (opposite (c_side c)) xs)"
  shows "(traded ts = unat (c_qty c) \<or> ts = [] \<and> xs' = xs) \<and> o_resting_qty out = 0 \<and>
    (o_ok out \<and> available < 2 ^ 32 \<longrightarrow> (traded ts = unat (c_qty c) \<longleftrightarrow> unat (c_qty c) \<le> available))"
proof -
  have submit: "is_submit c" "taker_tif c = FOK"
    using assms(5,6) by (simp_all add: is_submit_def taker_tif_def)
  show ?thesis
    using assms(1-4) submit(1)
  proof (cases rule: submit_cases [consumes 5, case_names rejected killed matched])
    case killed
    have "\<not> unat (c_qty c) \<le> available" if "available < 2 ^ 32"
      using killed(4) that by (simp add: wrap32_def available_def)
    moreover have "unat (c_qty c) > 0"
      using killed(1) by (simp add: word_less_nat_alt)
    ultimately show ?thesis
      using killed by (simp add: default_Outcome_def)
  next
    case (matched stp q' tid tid')
    have "wrap32 available \<le> available"
      by (simp add: wrap32_def)
    then have "unat (c_qty c) \<le> available"
      using matched(3) submit(2) by (simp add: available_def)
    moreover from this have "traded ts = unat (c_qty c)"
      using match_takes [OF matched(4)] by (simp add: available_def)
    ultimately show ?thesis
      using matched(7) submit(2) by simp
  qed (simp add: default_Outcome_def)
qed

theorem fok_all_or_nothing_witness:
  "sample_trades (limit_command 4 Buy (Price 101) 6 1 FOK) = [] \<and>
   sample_after (limit_command 4 Buy (Price 101) 6 1 FOK) = sample_before"
proof -
  have "traded (sample_trades (limit_command 4 Buy (Price 101) 6 1 FOK)) = 0"
    by code_simp
  then show ?thesis
    using fok_all_or_nothing [OF sample_view(1,2,3,4), of "limit_command 4 Buy (Price 101) 6 1 FOK"]
    by (simp add: limit_command_def)
qed

text \<open>C14. The total of the fill-or-kill check is kept in 32 bits: in every reachable state an accepted
  fill-or-kill order is killed, with no trade and no change to the book, exactly when its quantity exceeds what
  is available modulo 2^32, however much that is; otherwise it trades its whole quantity.\<close>

theorem fok_check_wraps:
  assumes "reach cap n (b, r)" "engine_step (b, r) c = Some ((out, ts), b', r')"
    "snapshot b = Some xs" "snapshot b' = Some xs'" "kind c = Limit" "c_tif c = FOK" "o_ok out"
  defines "available \<equiv> fillable (taker_accepts c) (c_account c) (side_queue (opposite (c_side c)) xs)"
  shows "(ts = [] \<longleftrightarrow> available mod 2 ^ 32 < unat (c_qty c)) \<and>
    (if available mod 2 ^ 32 < unat (c_qty c) then xs' = xs else traded ts = unat (c_qty c) \<and> unat (c_qty c) \<le> available)"
proof -
  have submit: "is_submit c" "taker_tif c = FOK"
    using assms(5,6) by (simp_all add: is_submit_def taker_tif_def)
  show ?thesis
    using assms(1-4) submit(1)
  proof (cases rule: submit_cases [consumes 5, case_names rejected killed matched])
    case killed
    then show ?thesis
      by (simp add: wrap32_def available_def)
  next
    case (matched stp q' tid tid')
    have fits: "\<not> available mod 2 ^ 32 < unat (c_qty c)"
      using matched(3) submit(2) by (simp add: wrap32_def available_def)
    moreover have "available mod 2 ^ 32 \<le> available"
      by simp
    ultimately have le: "unat (c_qty c) \<le> available"
      by linarith
    then have "traded ts = unat (c_qty c)"
      using match_takes [OF matched(4)] by (simp add: available_def)
    moreover from this have "ts \<noteq> []"
      using matched(1) by (auto simp: word_less_nat_alt)
    ultimately show ?thesis
      using fits le by simp
  qed (use assms(7) in \<open>simp add: default_Outcome_def\<close>)
qed

text \<open>Two asks of 2^31 each: a fill-or-kill buy for one unit at their price is killed.\<close>

definition deep_asks :: "Command list" where
  "deep_asks = [limit_command 1 Sell (Price 100) 0x80000000 1 GTC, limit_command 2 Sell (Price 100) 0x80000000 2 GTC]"

definition deep_engine :: engine where
  "deep_engine = snd (the (run_steps engine_step (engine_new 4) deep_asks))"

lemma deep_reach: "reach 4 2 deep_engine"
proof -
  obtain evs e where run: "run_steps engine_step (engine_new 4) deep_asks = Some (evs, e)"
    using engine_sim.run_refines [OF engine_new_abs, of 4 deep_asks] by auto
  have "length deep_asks = 2"
    by (simp add: deep_asks_def)
  then show ?thesis
    using reach_run [OF run reach_new] run by (simp add: deep_engine_def numeral_2_eq_2)
qed

lemma deep_snapshot:
  "the (snapshot (fst deep_engine)) =
    [\<lparr>r_side = Sell, r_price = Price 100, r_order_id = 1, r_qty = 0x80000000, r_account = 1, r_seq_no = 0\<rparr>,
     \<lparr>r_side = Sell, r_price = Price 100, r_order_id = 2, r_qty = 0x80000000, r_account = 2, r_seq_no = 1\<rparr>]"
  by code_simp

theorem fok_check_wraps_witness:
  "let c = limit_command 3 Buy (Price 100) 1 3 FOK; st = the (engine_step deep_engine c)
   in o_ok (fst (fst st)) \<and> snd (fst st) = [] \<and> snapshot (fst (snd st)) = snapshot (fst deep_engine)"
proof -
  let ?c = "limit_command 3 Buy (Price 100) 1 3 FOK"
  let ?st = "the (engine_step deep_engine ?c)" and ?xs = "the (snapshot (fst deep_engine))"
  note deep = deep_reach
  have st: "engine_step (fst deep_engine, snd deep_engine) ?c =
      Some ((fst (fst ?st), snd (fst ?st)), fst (snd ?st), snd (snd ?st))"
    using reach_progress [OF deep, of ?c] by auto
  have after: "snapshot (fst (snd ?st)) = Some (the (snapshot (fst (snd ?st))))"
    using reach_snapshot_Some [OF reach_step [OF deep, of ?c "fst ?st" "snd ?st"]] st by simp
  have ok: "o_ok (fst (fst ?st))"
    by code_simp
  have "fillable (taker_accepts ?c) (c_account ?c) (side_queue (opposite (c_side ?c)) ?xs) mod 2 ^ 32 < unat (c_qty ?c)"
    by (simp add: side_queue_def taker_accepts_def limit_command_def default_Command_def opposite_def limit_crosses_def
        deep_snapshot)
  then show ?thesis
    using fok_check_wraps [OF _ st reach_snapshot_Some [OF deep] after, of 4 2] deep ok reach_snapshot_Some [OF deep] after
    by (simp add: Let_def limit_command_def)
qed

section \<open>Self-trade prevention\<close>

text \<open>C15. No trade is with an order of the taker's own account, and those on the opposite side stay as they
  are. An accepted order that is not fill-or-kill is stopped, and so reported, exactly when the quantity
  available is less than its own and the first order it may not take is of its own account at a price it
  accepts. Then it has taken all ahead of that order, which now heads the opposite side, and the rest of the
  taker is dropped. A fill-or-kill order is never stopped so.\<close>

theorem self_trade_prevented:
  assumes "reach cap n (b, r)" "engine_step (b, r) c = Some ((out, ts), b', r')"
    "snapshot b = Some xs" "snapshot b' = Some xs'" "is_submit c"
  defines "opp \<equiv> side_queue (opposite (c_side c)) xs" and "opp' \<equiv> side_queue (opposite (c_side c)) xs'"
  defines "available \<equiv> fillable (taker_accepts c) (c_account c) opp"
  shows "(\<forall>x \<in> set (take (length ts) opp). r_account x \<noteq> c_account c) \<and>
    filter (\<lambda>x. r_account x = c_account c) opp' = filter (\<lambda>x. r_account x = c_account c) opp \<and>
    (o_stp_rejected out \<longleftrightarrow> o_ok out \<and> taker_tif c \<noteq> FOK \<and> available < unat (c_qty c) \<and>
       own_next (taker_accepts c) (c_account c) opp) \<and>
    (o_stp_rejected out \<longrightarrow> o_resting_qty out = 0 \<and> traded ts = available \<and> traded ts < unat (c_qty c) \<and>
       opp' = dropWhile (takeable (taker_accepts c) (c_account c)) opp \<and>
       (\<exists>y ys. opp' = y # ys \<and> r_account y = c_account c \<and> taker_accepts c (r_price y)))"
  using assms(1-5)
proof (cases rule: submit_cases [consumes 5, case_names rejected killed matched])
  case (matched stp q' tid tid')
  note m = matched(4) [folded opp_def opp'_def]
  have "wrap32 available \<le> available"
    by (simp add: wrap32_def)
  then have enough: "taker_tif c = FOK \<Longrightarrow> unat (c_qty c) \<le> available"
    using matched(3) by (simp add: available_def opp_def)
  have stops: "o_stp_rejected out \<longleftrightarrow> available < unat (c_qty c) \<and> own_next (taker_accepts c) (c_account c) opp"
    "o_stp_rejected out \<Longrightarrow> opp' = dropWhile (takeable (taker_accepts c) (c_account c)) opp"
    using match_stp_iff [OF m] matched(6) by (simp_all add: available_def)
  have "o_resting_qty out = 0 \<and> (\<exists>y ys. opp' = y # ys \<and> r_account y = c_account c \<and> taker_accepts c (r_price y))"
    if "o_stp_rejected out"
    using m matched(6,7) that match_stp [of "taker_accepts c" "c_account c" "c_id c" "of_nat n" tid "c_qty c" opp ts opp' q' tid']
    by auto
  moreover have "traded ts = available" if "o_stp_rejected out"
    using match_takes [OF m] stops(1) that by (simp add: available_def)
  ultimately show ?thesis
    using stops enough matched(5) match_makers [OF m] match_own_untouched [OF m] by auto
qed (auto simp: default_Outcome_def opp_def opp'_def)

theorem self_trade_prevented_witness:
  "o_stp_rejected (sample_out (market_command 4 Buy 9 8)) \<and> traded (sample_trades (market_command 4 Buy 9 8)) = 5 \<and>
   (\<exists>y ys. side_queue Sell (sample_after (market_command 4 Buy 9 8)) = y # ys \<and> r_account y = 8)"
proof -
  let ?c = "market_command 4 Buy 9 8"
  have "o_ok (sample_out ?c)" "fillable (taker_accepts ?c) (c_account ?c) (side_queue (opposite (c_side ?c)) sample_before) = 5"
    "own_next (taker_accepts ?c) (c_account ?c) (side_queue (opposite (c_side ?c)) sample_before)" "is_submit ?c"
    "taker_tif ?c \<noteq> FOK" "unat (c_qty ?c) = 9" "opposite (c_side ?c) = Sell" "c_account ?c = 8"
    by code_simp+
  note res = this and stop = self_trade_prevented [OF sample_view(1,2,3,4), of ?c]
  have stopped: "o_stp_rejected (sample_out ?c)"
    using stop res by simp
  have "\<exists>y ys. side_queue (opposite (c_side ?c)) (sample_after ?c) = y # ys \<and> r_account y = c_account ?c"
    using stop [OF res(4)] stopped by blast
  moreover from stopped have "traded (sample_trades ?c) = 5"
    using stop res by simp
  ultimately show ?thesis
    using stopped unfolding res(7,8) by blast
qed

section \<open>The remainder\<close>

text \<open>C16. Only the remainder of a good-till-cancel order rests, under its own id, price, account and the
  number of its command, behind every order of its side that its price does not beat. Otherwise its side
  of the book stays as it is.\<close>

theorem remainder_rests:
  assumes "reach cap n (b, r)" "engine_step (b, r) c = Some ((out, ts), b', r')"
    "snapshot b = Some xs" "snapshot b' = Some xs'" "is_submit c"
  shows "side_queue (c_side c) xs' =
      (if o_resting_qty out > 0 then enqueue (c_side c) \<lparr>r_side = c_side c, r_price = c_price c,
         r_order_id = c_id c, r_qty = o_resting_qty out, r_account = c_account c, r_seq_no = of_nat n\<rparr>
         (side_queue (c_side c) xs) else side_queue (c_side c) xs) \<and>
    (o_resting_qty out > 0 \<longrightarrow> kind c = Limit \<and> c_tif c = GTC)"
  using assms
proof (cases rule: submit_cases [consumes 5, case_names rejected killed matched])
  case (matched stp q' tid tid')
  then show ?thesis
    using assms(5) by (auto simp: is_submit_def taker_tif_def split: if_splits)
qed (simp_all add: default_Outcome_def)

theorem remainder_rests_witness:
  "map r_order_id (side_queue Buy (sample_after (limit_command 4 Buy (Price 100) 8 1 GTC))) = [3, 4]"
proof -
  have "o_resting_qty (sample_out (limit_command 4 Buy (Price 100) 8 1 GTC)) = 8"
    by code_simp
  moreover have "map r_order_id (enqueue Buy \<lparr>r_side = Buy, r_price = Price 100, r_order_id = 4, r_qty = 8,
      r_account = 1, r_seq_no = 3\<rparr> (side_queue Buy sample_before)) = [3, 4]"
    by code_simp
  ultimately show ?thesis
    using remainder_rests [OF sample_view(1,2,3,4), of "limit_command 4 Buy (Price 100) 8 1 GTC"]
    by (simp add: is_submit_def limit_command_def default_Command_def)
qed

lemma length_sides: "length xs = length (side_queue s xs) + length (side_queue (opposite s) xs)"
proof (induction xs)
  case (Cons x xs)
  then show ?case
    by (cases "r_side x"; cases s) (auto simp: side_queue_def)
qed (simp add: side_queue_def)

text \<open>An order that meets a full pool does what the same order would do as immediate-or-cancel.\<close>

lemma spec_submit_exhausted:
  assumes "spec_submit fok sb oid s ok p q acct GTC = (res, sb')" "pool_exhausted res"
  shows "spec_submit fok sb oid s ok p q acct IOC = (res\<lparr>pool_exhausted := False\<rparr>, sb')"
  using assms by (auto simp: spec_submit_def empty_result_def Let_def split: if_splits prod.splits)

lemma exhausted_as_ioc:
  assumes "reach cap n (b, r)" "engine_step (b, r) c = Some ((out, ts), b', r')" "snapshot b' = Some xs'"
    "is_submit c" "taker_tif c = GTC" "o_pool_exhausted out"
  shows "\<exists>b2 r2. engine_step (b, r) (c\<lparr>c_tif := IOC\<rparr>) = Some ((out\<lparr>o_pool_exhausted := False\<rparr>, ts), b2, r2) \<and>
    snapshot b2 = Some xs'"
  using assms(1)
proof (rule reach_snapshot)
  fix sb
  assume "book_abs b sb"
  then have abs: "engine_abs (b, r) sb"
    by (simp add: engine_abs_def)
  let ?submit = "\<lambda>tif. spec_submit wrap32 sb (c_id c) (c_side c) (taker_accepts c) (taker_price c) (c_qty c) (c_account c) tif"
  let ?d = "c\<lparr>c_tif := IOC\<rparr>"
  obtain res sb' where gtc: "?submit GTC = (res, sb')"
    by (metis prod.exhaust)
  have step: "spec_step wrap32 sb c = (added_event res, sb')"
    using spec_step_submit [OF assms(4), of wrap32 sb] gtc assms(5) by simp
  then have ev: "added_event res = (out, ts)" "book_abs b' sb'"
    using engine_step_refines [OF abs, of c] assms(2) by (auto simp: engine_abs_def)
  then have full: "pool_exhausted res"
    using assms(6) by (auto simp: added_event_def)
  have "is_submit ?d" "taker_accepts ?d = taker_accepts c" "taker_tif ?d = IOC" "taker_price ?d = taker_price c"
    using assms(4,5) by (auto simp: is_submit_def taker_accepts_def taker_tif_def taker_price_def fun_eq_iff split: if_splits)
  then have "spec_step wrap32 sb ?d = (added_event (res\<lparr>pool_exhausted := False\<rparr>), sb')"
    using spec_step_submit [of ?d wrap32 sb] spec_submit_exhausted [OF gtc full] by simp
  moreover have "added_event (res\<lparr>pool_exhausted := False\<rparr>) = (out\<lparr>o_pool_exhausted := False\<rparr>, ts)"
    using ev(1) by (auto simp: added_event_def)
  ultimately obtain e2 where e2: "engine_step (b, r) ?d = Some ((out\<lparr>o_pool_exhausted := False\<rparr>, ts), e2)" "book_abs (fst e2) sb'"
    using engine_step_refines [OF abs, of ?d] by (auto simp: engine_abs_def)
  have "snapshot (fst e2) = Some xs'"
    using snapshot_refines [OF e2(2)] snapshot_refines [OF ev(2)] assms(3) by simp
  with e2(1) show ?thesis
    by (cases e2) auto
qed

text \<open>C17. The remainder of a good-till-cancel order is dropped, and this is reported, exactly when
  the order is accepted, not stopped by its own account and not filled, and the orders left in the book take all
  slots of the pool. Then its trades stand: it has taken all that was available, out of the opposite side, and
  the outcome, the trades and the book are those of the same order as immediate-or-cancel. Every other
  accepted good-till-cancel order that is neither filled nor stopped rests.\<close>

theorem full_pool_reported:
  assumes "reach cap n (b, r)" "engine_step (b, r) c = Some ((out, ts), b', r')"
    "snapshot b = Some xs" "snapshot b' = Some xs'" "is_submit c" "Suc n < 2 ^ 64"
  defines "opp \<equiv> side_queue (opposite (c_side c)) xs" and "opp' \<equiv> side_queue (opposite (c_side c)) xs'"
  shows "(o_pool_exhausted out \<longleftrightarrow> o_ok out \<and> taker_tif c = GTC \<and> \<not> o_stp_rejected out \<and> traded ts < unat (c_qty c) \<and>
       length (side_queue (c_side c) xs) + length opp' = unat cap) \<and>
    (o_pool_exhausted out \<longrightarrow> o_resting_qty out = 0 \<and> length xs' = unat cap \<and>
       side_queue (c_side c) xs' = side_queue (c_side c) xs \<and>
       traded ts = fillable (taker_accepts c) (c_account c) opp \<and> total_qty opp = total_qty opp' + traded ts \<and>
       (\<exists>b2 r2. engine_step (b, r) (c\<lparr>c_tif := IOC\<rparr>) = Some ((out\<lparr>o_pool_exhausted := False\<rparr>, ts), b2, r2) \<and>
          snapshot b2 = Some xs')) \<and>
    (o_ok out \<and> taker_tif c = GTC \<and> \<not> o_stp_rejected out \<and> traded ts < unat (c_qty c) \<longrightarrow>
       o_resting_qty out > 0 \<or> o_pool_exhausted out)"
proof -
  have le: "length xs' \<le> unat cap"
    using assms(1-5)
  proof (rule submit_view)
    fix sb sb' res
    assume "xs' = s_orders sb'" "s_cap sb = unat cap" "Suc n < 2 ^ 64 \<Longrightarrow> spec_inv sb'"
      "spec_submit wrap32 sb (c_id c) (c_side c) (taker_accepts c) (taker_price c) (c_qty c) (c_account c) (taker_tif c) = (res, sb')"
    then show ?thesis
      using assms(6) spec_submit_frame(2) [of wrap32 sb "c_id c" "c_side c" "taker_accepts c" "taker_price c" "c_qty c" "c_account c" "taker_tif c"]
      by (simp add: spec_inv_def)
  qed
  show ?thesis
    using assms(1-5)
  proof (cases rule: submit_cases [consumes 5, case_names rejected killed matched])
    case (matched stp q' tid tid')
    note m = matched(4) [folded opp_def opp'_def]
    have rest: "traded ts < unat (c_qty c) \<longleftrightarrow> q' > 0"
      using match_conserves [OF m] by (simp add: word_less_nat_alt)
    have all: "traded ts = fillable (taker_accepts c) (c_account c) opp" if "traded ts < unat (c_qty c)"
      using match_takes [OF m] that by simp
    have len: "length xs' = length (side_queue (c_side c) xs') + length opp'"
      by (simp add: length_sides [of xs' "c_side c"] opp'_def)
    have own: "side_queue (c_side c) xs' = side_queue (c_side c) xs" if "o_resting_qty out = 0"
      using matched(9) that by simp
    have ge: "length (side_queue (c_side c) xs) \<le> length (side_queue (c_side c) xs')"
      using matched(9) by (cases "o_resting_qty out > 0") simp_all
    have iff: "o_pool_exhausted out \<longleftrightarrow> taker_tif c = GTC \<and> \<not> o_stp_rejected out \<and> traded ts < unat (c_qty c) \<and>
        length (side_queue (c_side c) xs) + length opp' = unat cap"
      using matched(6,8) rest le len ge by (auto simp: opp'_def)
    moreover have "o_resting_qty out = 0" if "o_pool_exhausted out"
      using matched(7) that by simp
    moreover have "o_resting_qty out > 0 \<or> o_pool_exhausted out"
      if "taker_tif c = GTC" "\<not> o_stp_rejected out" "traded ts < unat (c_qty c)"
      using matched(6,7) rest that by auto
    ultimately show ?thesis
      using matched(5) all own len match_conserves [OF m] exhausted_as_ioc [OF assms(1,2,4,5)] by auto
  qed (simp_all add: default_Outcome_def)
qed

theorem full_pool_reported_witness:
  "let c = limit_command 5 Buy (Price 99) 2 1 GTC; e = snd (sample_step (limit_command 4 Buy (Price 100) 8 1 GTC));
       (ev, e') = the (engine_step e c)
   in o_pool_exhausted (fst ev) \<and> length (the (snapshot (fst e'))) = 4"
proof -
  let ?c = "limit_command 5 Buy (Price 99) 2 1 GTC" and ?e = "snd (sample_step (limit_command 4 Buy (Price 100) 8 1 GTC))"
  let ?st = "the (engine_step ?e ?c)"
  have e: "reach 4 (Suc 3) ?e"
    using reach_step [OF sample_reach, of "limit_command 4 Buy (Price 100) 8 1 GTC" _ ?e] sample_step_Some by (metis prod.collapse)
  have st: "engine_step (fst ?e, snd ?e) ?c = Some ((fst (fst ?st), snd (fst ?st)), fst (snd ?st), snd (snd ?st))"
    using reach_progress [OF e, of ?c] by auto
  have e': "reach 4 (Suc (Suc 3)) (snd ?st)"
    using e st by (intro reach_step [of 4 "Suc 3" ?e ?c "fst ?st" "snd ?st"]) auto
  have "o_pool_exhausted (fst (fst ?st))"
    by code_simp
  moreover from this have "length (the (snapshot (fst (snd ?st)))) = 4"
    using full_pool_reported [OF _ st reach_snapshot_Some [OF e] reach_snapshot_Some [OF e'], of 4 "Suc 3"] e
    by (simp add: is_submit_def limit_command_def)
  ultimately show ?thesis
    by (simp add: Let_def case_prod_beta)
qed

section \<open>Cancel\<close>

lemma cancel_step:
  assumes "reach cap n (b, r)" "engine_step (b, r) c = Some ((out, ts), b', r')"
    "snapshot b = Some xs" "snapshot b' = Some xs'" "kind c = Cancel"
  shows "out = default_Outcome\<lparr>o_ok := c_id c \<in> r_order_id ` set xs\<rparr> \<and> ts = [] \<and> xs' = remove_id (c_id c) xs"
  using assms(1-4)
proof (rule step_view)
  fix sb sb'
  assume v: "xs = s_orders sb" "xs' = s_orders sb'" "\<And>s. side_queue s xs = s_queue sb s"
    "spec_step wrap32 sb c = ((out, ts), sb')" "distinct (map r_order_id xs)"
  have step: "flag_event (fst (spec_cancel sb (c_id c))) = (out, ts)" "sb' = snd (spec_cancel sb (c_id c))"
    using v(4) assms(5) by (auto simp: spec_step_def map_prod_def split: prod.splits)
  show ?thesis
  proof (cases "lookup_id sb (c_id c)")
    case None
    then have absent: "c_id c \<notin> r_order_id ` set xs"
      by (auto simp: lookup_id_def v(1) find_None_iff)
    then have "remove_id (c_id c) xs = xs"
      by (force simp: remove_id_def filter_id_conv)
    with absent show ?thesis
      using step None v(1,2) by (auto simp: spec_cancel_def flag_event_def lookup_id_def default_Outcome_def)
  next
    case (Some x)
    then have x: "x \<in> set xs" "r_order_id x = c_id c"
      by (auto simp: lookup_id_def v(1) find_Some_iff)
    have keep: "remove_id (c_id c) (s_queue sb (opposite (r_side x))) = s_queue sb (opposite (r_side x))"
    proof -
      have "r_order_id y \<noteq> c_id c" if "y \<in> set (side_queue (opposite (r_side x)) xs)" for y
        using that x v(5) eq_key_imp_eq_value [of "map (\<lambda>z. (r_order_id z, z)) xs"]
        by (auto simp: side_queue_def distinct_map inj_on_def)
      then show ?thesis
        by (auto simp: remove_id_def filter_id_conv v(3))
    qed
    moreover have "c_id c \<in> r_order_id ` set xs"
      using x by (metis image_eqI)
    ultimately show ?thesis
      using step Some v(1,2)
      by (cases "r_side x")
        (auto simp: spec_cancel_def flag_event_def lookup_id_def s_orders_def s_queue_def set_queue_def remove_id_def default_Outcome_def)
  qed
qed

text \<open>C19. Cancel takes effect exactly when the id rests in the book; it removes that order, keeps all
  others in their places, and trades nothing.\<close>

theorem cancel_removes:
  assumes "reach cap n (b, r)" "engine_step (b, r) c = Some ((out, ts), b', r')"
    "snapshot b = Some xs" "snapshot b' = Some xs'" "kind c = Cancel"
  shows "out = default_Outcome\<lparr>o_ok := c_id c \<in> r_order_id ` set xs\<rparr> \<and> ts = [] \<and> xs' = remove_id (c_id c) xs"
  using assms by (rule cancel_step)

theorem cancel_removes_witness:
  "map r_order_id sample_before = [3, 1, 2] \<and> map r_order_id (sample_after (cancel_command 1)) = [3, 2]"
proof -
  have "map r_order_id sample_before = [3, 1, 2]" "map r_order_id (remove_id 1 sample_before) = [3, 2]"
    by code_simp+
  then show ?thesis
    using cancel_removes [OF sample_view(1,2,3,4), of "cancel_command 1"] by (simp add: cancel_command_def)
qed

section \<open>Modify\<close>

lemma snapshot_id_unique:
  assumes "reach cap n (b, r)" "engine_step (b, r) c = Some ((out, ts), b', r')"
    "snapshot b = Some xs" "snapshot b' = Some xs'" "x \<in> set xs" "r_order_id x = oid" "y \<in> set xs" "r_order_id y = oid"
  shows "y = x"
  using assms(1-4) by (rule step_view) (use assms(5-8) in \<open>auto simp: distinct_map inj_on_def\<close>)

lemma spec_would_cross_iff:
  assumes "spec_inv sb"
  shows "spec_would_cross sb s p \<longleftrightarrow> (\<exists>y \<in> set (s_queue sb (opposite s)). limit_crosses s (r_price y) p)"
proof -
  have "queue_inv (opposite s) (s_seq sb) (s_queue sb (opposite s))"
    using assms by (simp add: spec_inv_def)
  from queue_inv_blocked [OF this, of p] show ?thesis
    by (cases "s_queue sb (opposite s)") (auto simp: spec_would_cross_def)
qed

lemma modify_cases:
  assumes "reach cap n (b, r)" "engine_step (b, r) c = Some ((out, ts), b', r')"
    "snapshot b = Some xs" "snapshot b' = Some xs'" "kind c = Modify" "n < 2 ^ 64"
  obtains (absent) "c_qty c = 0 \<or> c_id c \<notin> r_order_id ` set xs" "out = default_Outcome" "ts = []" "xs' = xs"
  | (reduced) x where "c_qty c > 0" "x \<in> set xs" "r_order_id x = c_id c" "c_price c = r_price x" "c_qty c \<le> r_qty x"
      "out = default_Outcome\<lparr>o_ok := True\<rparr>" "ts = []"
      "\<And>s. side_queue s xs' = (if s = r_side x then set_qty (c_id c) (c_qty c) (side_queue s xs) else side_queue s xs)"
      "xs' = side_queue Buy xs' @ side_queue Sell xs'" "xs = side_queue Buy xs @ side_queue Sell xs"
  | (crossing) x y where "c_qty c > 0" "x \<in> set xs" "r_order_id x = c_id c" "\<not> (c_price c = r_price x \<and> c_qty c \<le> r_qty x)"
      "y \<in> set (side_queue (opposite (r_side x)) xs)" "limit_crosses (r_side x) (r_price y) (c_price c)"
      "out = default_Outcome" "ts = []" "xs' = xs"
  | (requeued) x where "c_qty c > 0" "x \<in> set xs" "r_order_id x = c_id c" "\<not> (c_price c = r_price x \<and> c_qty c \<le> r_qty x)"
      "\<forall>y \<in> set (side_queue (opposite (r_side x)) xs). \<not> limit_crosses (r_side x) (r_price y) (c_price c)"
      "out = default_Outcome\<lparr>o_ok := True\<rparr>" "ts = []"
      "\<And>s. side_queue s xs' = (if s = r_side x then enqueue s
         (x\<lparr>r_price := c_price c, r_qty := c_qty c, r_seq_no := of_nat n\<rparr>) (remove_id (c_id c) (side_queue s xs))
         else side_queue s xs)"
  using assms(1-4)
proof (rule step_view)
  fix sb sb'
  assume v: "xs = s_orders sb" "xs' = s_orders sb'" "\<And>s. side_queue s xs = s_queue sb s"
    "\<And>s. side_queue s xs' = s_queue sb' s" "s_seq sb = of_nat n"
    "spec_step wrap32 sb c = ((out, ts), sb')" "n < 2 ^ 64 \<Longrightarrow> spec_inv sb"
  have step: "spec_modify sb (c_id c) (c_price c) (c_qty c) = (o_ok out, sb')" "out = default_Outcome\<lparr>o_ok := o_ok out\<rparr>" "ts = []"
    using v(6) assms(5) by (auto simp: spec_step_def map_prod_def flag_event_def default_Outcome_def split: prod.splits)
  have sides: "xs' = side_queue Buy xs' @ side_queue Sell xs'" "xs = side_queue Buy xs @ side_queue Sell xs"
    unfolding v(3,4) by (simp_all add: v(1,2) s_orders_def s_queue_def)
  have lookup: "lookup_id (sb\<lparr>s_seq := m\<rparr>) oid = lookup_id sb oid" for m oid
    by (simp add: lookup_id_def)
  note cross = spec_would_cross_iff [OF v(7) [OF assms(6)]]
  show ?thesis
  proof (cases "c_qty c = 0 \<or> lookup_id sb (c_id c) = None")
    case True
    then have "c_qty c = 0 \<or> c_id c \<notin> r_order_id ` set xs"
      by (auto simp: lookup_id_def v(1) find_None_iff)
    moreover have "\<not> o_ok out \<and> xs' = xs"
      using True step(1) v(1,2) by (auto simp: spec_modify_def Let_def lookup split: if_splits)
    ultimately show ?thesis
      using step(2,3) by (intro that(1)) (auto simp: default_Outcome_def)
  next
    case False
    then obtain x where x: "lookup_id sb (c_id c) = Some x" and q: "c_qty c > 0" "c_qty c \<noteq> 0"
      by (auto simp: word_neq_0_conv)
    note mem = lookup_id_Some [OF x, folded v(1)]
    have res: "(o_ok out, sb') = (if c_price c = r_price x \<and> c_qty c \<le> r_qty x
         then (True, set_queue (sb\<lparr>s_seq := s_seq sb + 1\<rparr>) (r_side x) (set_qty (c_id c) (c_qty c) (s_queue sb (r_side x))))
         else if spec_would_cross sb (r_side x) (c_price c) then (False, sb\<lparr>s_seq := s_seq sb + 1\<rparr>)
         else (True, set_queue (sb\<lparr>s_seq := s_seq sb + 1\<rparr>) (r_side x) (enqueue (r_side x)
           (x\<lparr>r_price := c_price c, r_qty := c_qty c, r_seq_no := s_seq sb\<rparr>) (remove_id (c_id c) (s_queue sb (r_side x))))))"
      using step(1) x q(2) by (simp add: spec_modify_def Let_def lookup cong: if_cong)
    consider "c_price c = r_price x \<and> c_qty c \<le> r_qty x"
      | "\<not> (c_price c = r_price x \<and> c_qty c \<le> r_qty x)" "spec_would_cross sb (r_side x) (c_price c)"
      | "\<not> (c_price c = r_price x \<and> c_qty c \<le> r_qty x)" "\<not> spec_would_cross sb (r_side x) (c_price c)"
      by blast
    then show ?thesis
    proof cases
      case 1
      then show ?thesis
        using res step(2,3) sides v(3,4) by (intro that(2) [OF q(1) mem]) auto
    next
      case 2
      then obtain y where "y \<in> set (side_queue (opposite (r_side x)) xs)" "limit_crosses (r_side x) (r_price y) (c_price c)"
        using cross v(3) by auto
      then show ?thesis
        using 2 res step(2,3) v(1,2) by (intro that(3) [OF q(1) mem]) (auto simp: default_Outcome_def)
    next
      case 3
      then show ?thesis
        using res step(2,3) v(3-5) cross by (intro that(4) [OF q(1) mem]) auto
    qed
  qed
qed

text \<open>C20. Modify takes effect exactly when the new quantity is positive, an order of that id rests in the
  book, and the change is a reduction at the same price or the new price meets no order of the opposite side. In
  every other case, an unknown id included, the book stays as it was. It never trades.\<close>

theorem modify_accepted_iff:
  assumes "reach cap n (b, r)" "engine_step (b, r) c = Some ((out, ts), b', r')"
    "snapshot b = Some xs" "snapshot b' = Some xs'" "kind c = Modify" "n < 2 ^ 64"
  shows "(o_ok out \<longleftrightarrow> c_qty c > 0 \<and> (\<exists>x \<in> set xs. r_order_id x = c_id c \<and>
      (c_price c = r_price x \<and> c_qty c \<le> r_qty x \<or>
       (\<forall>y \<in> set (side_queue (opposite (r_side x)) xs). \<not> limit_crosses (r_side x) (r_price y) (c_price c))))) \<and>
    out = default_Outcome\<lparr>o_ok := o_ok out\<rparr> \<and> ts = [] \<and> (\<not> o_ok out \<longrightarrow> xs' = xs)"
proof -
  note uniq = snapshot_id_unique [OF assms(1-4)]
  show ?thesis
    using assms(1-6)
  proof (cases rule: modify_cases [consumes 6, case_names absent reduced crossing requeued])
    case absent
    then show ?thesis
      by (force simp: default_Outcome_def)
  next
    case (crossing x y)
    have same: "z = x" if "z \<in> set xs" "r_order_id z = c_id c" for z
      by (rule uniq [OF crossing(2,3) that])
    have "\<not> (\<exists>z \<in> set xs. r_order_id z = c_id c \<and> (c_price c = r_price z \<and> c_qty c \<le> r_qty z \<or>
        (\<forall>y \<in> set (side_queue (opposite (r_side z)) xs). \<not> limit_crosses (r_side z) (r_price y) (c_price c))))"
      using same crossing(4-6) by blast
    then show ?thesis
      using crossing(7-9) by (simp only: default_Outcome_def) simp
  next
    case (reduced x)
    then have "o_ok out" "out = default_Outcome\<lparr>o_ok := o_ok out\<rparr>"
      by simp_all
    then show ?thesis
      using reduced(1-5,7) by blast
  next
    case (requeued x)
    then have "o_ok out" "out = default_Outcome\<lparr>o_ok := o_ok out\<rparr>"
      by simp_all
    then show ?thesis
      using requeued(1-3,5,7) by blast
  qed
qed

theorem modify_accepted_iff_witness:
  "\<not> o_ok (sample_out (modify_command 3 (Price 101) 6)) \<and> sample_after (modify_command 3 (Price 101) 6) = sample_before \<and>
   \<not> o_ok (sample_out (modify_command 9 (Price 101) 6)) \<and> sample_after (modify_command 9 (Price 101) 6) = sample_before"
proof -
  have absent: "9 \<notin> r_order_id ` set sample_before" "\<not> o_ok (sample_out (modify_command 3 (Price 101) 6))"
    by code_simp+
  then have "\<not> o_ok (sample_out (modify_command 9 (Price 101) 6))"
    using modify_accepted_iff [OF sample_view(1,2,3,4), of "modify_command 9 (Price 101) 6"]
    by (auto simp: modify_command_def)
  then show ?thesis
    using modify_accepted_iff [OF sample_view(1,2,3,4), of "modify_command 3 (Price 101) 6"] absent(2)
      modify_accepted_iff [OF sample_view(1,2,3,4), of "modify_command 9 (Price 101) 6"]
    by (simp add: modify_command_def)
qed

text \<open>Reducing the quantity at the same price keeps the place of the order and changes nothing else.\<close>

theorem modify_reduce_in_place:
  assumes "reach cap n (b, r)" "engine_step (b, r) c = Some ((out, ts), b', r')"
    "snapshot b = Some xs" "snapshot b' = Some xs'" "kind c = Modify" "n < 2 ^ 64" "x \<in> set xs" "r_order_id x = c_id c"
    "c_price c = r_price x" "0 < c_qty c" "c_qty c \<le> r_qty x"
  shows "o_ok out \<and> xs' = set_qty (c_id c) (c_qty c) xs"
proof -
  note uniq = snapshot_id_unique [OF assms(1-4,7,8)]
  show ?thesis
    using assms(1-6)
  proof (cases rule: modify_cases [consumes 6, case_names absent reduced crossing requeued])
    case absent
    then show ?thesis
      using assms(7,8,10) by force
  next
    case (reduced y)
    have other: "set_qty (c_id c) (c_qty c) (side_queue s xs) = side_queue s xs" if "s \<noteq> r_side y" for s
      using that uniq uniq [OF reduced(2,3)] by (auto simp: set_qty_def side_queue_def intro!: map_idI)
    have "xs' = set_qty (c_id c) (c_qty c) (side_queue Buy xs) @ set_qty (c_id c) (c_qty c) (side_queue Sell xs)"
      by (subst reduced(9)) (simp add: reduced(8) other)
    also have "\<dots> = set_qty (c_id c) (c_qty c) (side_queue Buy xs @ side_queue Sell xs)"
      by (simp add: set_qty_def)
    also have "\<dots> = set_qty (c_id c) (c_qty c) xs"
      by (simp only: reduced(10) [symmetric])
    finally show ?thesis
      using reduced(6) by simp
  qed (use uniq assms(9,11) in auto)
qed

theorem modify_reduce_in_place_witness:
  "o_ok (sample_out (modify_command 1 (Price 101) 2)) \<and>
   map (\<lambda>x. (r_order_id x, r_qty x)) (sample_after (modify_command 1 (Price 101) 2)) = [(3, 6), (1, 2), (2, 4)]"
proof -
  have "sample_before ! 1 \<in> set sample_before" "r_order_id (sample_before ! 1) = 1" "r_price (sample_before ! 1) = Price 101"
    "(2 :: Qty) \<le> r_qty (sample_before ! 1)"
    "map (\<lambda>x. (r_order_id x, r_qty x)) (set_qty 1 2 sample_before) = [(3, 6), (1, 2), (2, 4)]"
    by code_simp+
  then show ?thesis
    using modify_reduce_in_place [OF sample_view(1,2,3,4), of "modify_command 1 (Price 101) 2" "sample_before ! 1"]
    by (simp add: modify_command_def)
qed

text \<open>Any other accepted change sends the order behind every order of its side that its new price does not
  beat, under the number of this command, and leaves the opposite side alone.\<close>

theorem modify_requeues:
  assumes "reach cap n (b, r)" "engine_step (b, r) c = Some ((out, ts), b', r')"
    "snapshot b = Some xs" "snapshot b' = Some xs'" "kind c = Modify" "n < 2 ^ 64" "x \<in> set xs" "r_order_id x = c_id c"
    "o_ok out" "\<not> (c_price c = r_price x \<and> c_qty c \<le> r_qty x)"
  shows "side_queue (r_side x) xs' = enqueue (r_side x) (x\<lparr>r_price := c_price c, r_qty := c_qty c, r_seq_no := of_nat n\<rparr>)
      (remove_id (c_id c) (side_queue (r_side x) xs)) \<and>
    side_queue (opposite (r_side x)) xs' = side_queue (opposite (r_side x)) xs"
proof -
  note uniq = snapshot_id_unique [OF assms(1-4,7,8)]
  show ?thesis
    using assms(1-6)
    by (cases rule: modify_cases [consumes 6, case_names absent reduced crossing requeued])
      (use uniq assms(9,10) in \<open>auto simp: default_Outcome_def\<close>)
qed

theorem modify_requeues_witness:
  "map r_order_id (side_queue Sell (sample_after (modify_command 1 (Price 102) 5))) = [2, 1]"
proof -
  have "sample_before ! 1 \<in> set sample_before" "r_order_id (sample_before ! 1) = 1" "r_price (sample_before ! 1) \<noteq> Price 102"
    "r_side (sample_before ! 1) = Sell" "o_ok (sample_out (modify_command 1 (Price 102) 5))"
    "map r_order_id (enqueue Sell ((sample_before ! 1)\<lparr>r_price := Price 102, r_qty := 5, r_seq_no := 3\<rparr>)
       (remove_id 1 (side_queue Sell sample_before))) = [2, 1]"
    by code_simp+
  then show ?thesis
    using modify_requeues [OF sample_view(1,2,3,4), of "modify_command 1 (Price 102) 5" "sample_before ! 1"]
    by (simp add: modify_command_def)
qed

text \<open>C21. An accepted modify that keeps the price and does not raise the quantity changes the quantity in place and
  nothing else. Any other sends the order behind every order of its side that its new price does not beat, under
  the number of this command, and leaves the opposite side alone.\<close>

theorem modify_effect:
  assumes "reach cap n (b, r)" "engine_step (b, r) c = Some ((out, ts), b', r')"
    "snapshot b = Some xs" "snapshot b' = Some xs'" "kind c = Modify" "n < 2 ^ 64" "x \<in> set xs" "r_order_id x = c_id c" "o_ok out"
  shows "if c_price c = r_price x \<and> c_qty c \<le> r_qty x then xs' = set_qty (c_id c) (c_qty c) xs
    else side_queue (r_side x) xs' = enqueue (r_side x) (x\<lparr>r_price := c_price c, r_qty := c_qty c, r_seq_no := of_nat n\<rparr>)
        (remove_id (c_id c) (side_queue (r_side x) xs)) \<and>
      side_queue (opposite (r_side x)) xs' = side_queue (opposite (r_side x)) xs"
proof -
  have "0 < c_qty c"
    using assms(1-6) by (cases rule: modify_cases [consumes 6, case_names absent reduced crossing requeued])
      (use assms(9) in \<open>auto simp: default_Outcome_def word_neq_0_conv\<close>)
  then show ?thesis
    using modify_reduce_in_place [OF assms(1-8)] modify_requeues [OF assms] by simp
qed

theorem modify_effect_witness:
  "map (\<lambda>x. (r_order_id x, r_qty x)) (sample_after (modify_command 1 (Price 101) 2)) = [(3, 6), (1, 2), (2, 4)] \<and>
   map r_order_id (side_queue Sell (sample_after (modify_command 1 (Price 102) 5))) = [2, 1]"
proof -
  let ?c = "modify_command 1 (Price 101) 2" and ?d = "modify_command 1 (Price 102) 5"
  have mem: "sample_before ! 1 \<in> set sample_before" "r_order_id (sample_before ! 1) = 1" "r_price (sample_before ! 1) = Price 101"
    "(2 :: Qty) \<le> r_qty (sample_before ! 1)" "r_side (sample_before ! 1) = Sell"
    by code_simp+
  have res: "o_ok (sample_out ?c)" "o_ok (sample_out ?d)"
    "map (\<lambda>x. (r_order_id x, r_qty x)) (set_qty 1 2 sample_before) = [(3, 6), (1, 2), (2, 4)]"
    "map r_order_id (enqueue Sell ((sample_before ! 1)\<lparr>r_price := Price 102, r_qty := 5, r_seq_no := 3\<rparr>)
       (remove_id 1 (side_queue Sell sample_before))) = [2, 1]"
    by code_simp+
  show ?thesis
    using modify_effect [OF sample_view(1,2,3,4), of ?c "sample_before ! 1"] modify_effect [OF sample_view(1,2,3,4), of ?d "sample_before ! 1"]
      mem res by (simp add: modify_command_def)
qed

end
