(* ===== verification/Run_Properties.thy ===== *)
theory Run_Properties
  imports Order_Properties
begin

text \<open>
  Properties of whole runs: the numbers the engine gives to trades, and commands that undo each other.
\<close>

section \<open>Numbering\<close>

lemma spec_step_stamps:
  assumes "spec_step fok sb c = ((out, ts), sb')"
  shows "map trade_id ts = map (\<lambda>k. s_tid sb + of_nat k) [0..<length ts]" "s_tid sb' = s_tid sb + of_nat (length ts)"
    "\<forall>t \<in> set ts. tr_seq_no t = s_seq sb \<and> taker_order_id t = c_id c"
proof -
  have *: "map trade_id ts = map (\<lambda>k. s_tid sb + of_nat k) [0..<length ts] \<and> s_tid sb' = s_tid sb + of_nat (length ts) \<and>
      (\<forall>t \<in> set ts. tr_seq_no t = s_seq sb \<and> taker_order_id t = c_id c)"
  proof (cases "is_submit c")
    case True
    obtain res where res: "added_event res = (out, ts)" "spec_submit fok sb (c_id c) (c_side c) (taker_accepts c)
        (taker_price c) (c_qty c) (c_account c) (taker_tif c) = (res, sb')"
      using assms spec_step_submit [OF True, of fok sb] by (auto simp: map_prod_def split: prod.splits)
    have ts: "ts = trades res"
      using res(1) by (simp add: added_event_def)
    from res(2) show ?thesis
      by (cases rule: spec_submit_cases) (use ts match_stamps in \<open>fastforce simp: empty_result_def\<close>)+
  next
    case False
    then show ?thesis
      using assms by (cases "kind c")
        (auto simp: is_submit_def spec_step_def flag_event_def spec_cancel_def spec_modify_def Let_def map_prod_def
          split: option.splits if_splits)
  qed
  then show "map trade_id ts = map (\<lambda>k. s_tid sb + of_nat k) [0..<length ts]" "s_tid sb' = s_tid sb + of_nat (length ts)"
    "\<forall>t \<in> set ts. tr_seq_no t = s_seq sb \<and> taker_order_id t = c_id c"
    by simp_all
qed

lemma map_upt_shift: "map (\<lambda>k. f (n + k)) [0..<m] = map f [n..<n + m]"
  by (induction m) auto

lemma run_spec_stamps:
  assumes "run_spec (spec_step fok) sb cs = (evs, sb')"
  shows "map trade_id (concat (map snd evs)) = map (\<lambda>k. s_tid sb + of_nat k) [0..<length (concat (map snd evs))] \<and>
    length evs = length cs \<and>
    (\<forall>i < length cs. \<forall>t \<in> set (snd (evs ! i)). tr_seq_no t = s_seq sb + of_nat i \<and> taker_order_id t = c_id (cs ! i))"
  using assms
proof (induction cs arbitrary: sb evs)
  case (Cons c cs)
  obtain out ts sb1 evs1 where step: "spec_step fok sb c = ((out, ts), sb1)" "run_spec (spec_step fok) sb1 cs = (evs1, sb')"
      "evs = (out, ts) # evs1"
    using Cons.prems by (auto split: prod.splits)
  note stamps = spec_step_stamps [OF step(1)]
  have seq: "s_seq sb1 = s_seq sb + 1"
    using spec_step_frame(1) [of fok sb c] step(1) by simp
  note ih = Cons.IH [OF step(2)]
  let ?n = "length ts" and ?m = "length (concat (map snd evs1))"
  have "map trade_id (concat (map snd evs)) =
      map (\<lambda>k. s_tid sb + of_nat k) [0..<?n] @ map (\<lambda>k. s_tid sb + of_nat (?n + k)) [0..<?m]"
    using stamps(1,2) conjunct1 [OF ih] step(3) by (simp add: algebra_simps)
  also have "\<dots> = map (\<lambda>k. s_tid sb + of_nat k) [0..<?n + ?m]"
    by (simp add: map_upt_shift [of "\<lambda>k. s_tid sb + of_nat k"] upt_add_eq_append [of 0, simplified] del: of_nat_add)
  finally have ids: "map trade_id (concat (map snd evs)) = map (\<lambda>k. s_tid sb + of_nat k) [0..<length (concat (map snd evs))]"
    using step(3) by simp
  have "tr_seq_no t = s_seq sb + of_nat i \<and> taker_order_id t = c_id ((c # cs) ! i)"
    if "i < length (c # cs)" "t \<in> set (snd (evs ! i))" for i t
    using that stamps(3) ih step(3) seq by (cases i) (auto simp: algebra_simps)
  then show ?case
    using ids ih step(3) by simp
qed simp

text \<open>C22. Over a whole run from a fresh book the trade ids count up from zero without a gap, and every trade
  carries the number of the command that made it and the id of that command's order.\<close>

theorem trades_numbered:
  assumes "run_steps engine_step (engine_new cap) cs = Some (evs, e)"
  shows "map trade_id (concat (map snd evs)) = map of_nat [0..<length (concat (map snd evs))] \<and>
    (\<forall>i < length cs. \<forall>t \<in> set (snd (evs ! i)). tr_seq_no t = of_nat i \<and> taker_order_id t = c_id (cs ! i))"
proof -
  obtain sb' where run: "run_spec (spec_step wrap32) (spec_new (unat cap)) cs = (evs, sb')"
    using engine_sim.run_refines [OF engine_new_abs, of cap cs] assms
    by (cases "run_spec (spec_step wrap32) (spec_new (unat cap)) cs") auto
  show ?thesis
    using run_spec_stamps [OF run] by (simp add: spec_new_def)
qed

theorem trades_numbered_witness:
  "\<exists>evs e. run_steps engine_step (engine_new 4) (sample_commands @ [market_command 9 Buy 6 1]) = Some (evs, e) \<and>
     map trade_id (concat (map snd evs)) = [0, 1] \<and> (\<forall>t \<in> set (snd (evs ! 3)). tr_seq_no t = 3)"
proof -
  let ?cs = "sample_commands @ [market_command 9 Buy 6 1]"
  let ?run = "run_steps engine_step (engine_new 4) ?cs"
  obtain evs e where run: "?run = Some (evs, e)"
    using engine_sim.run_refines [OF engine_new_abs, of 4 ?cs] by auto
  have "length (concat (map snd (fst (the ?run)))) = 2"
    by code_simp
  then have len: "length (concat (map snd evs)) = 2"
    unfolding run by simp
  have len': "[0..<2] = [0, 1 :: nat]" "3 < length ?cs"
    by (simp_all add: upt_rec sample_commands_def)
  have "\<forall>t \<in> set (snd (evs ! 3)). tr_seq_no t = 3"
    using trades_numbered [OF run] len'(2) by fastforce
  then show ?thesis
    using run conjunct1 [OF trades_numbered [OF run]] len len'(1) by auto
qed

section \<open>Undoing\<close>

lemma match_no_trades:
  "match_queue ok acct taker seq tid q xs = (stp, [], ys, q', tid') \<Longrightarrow> ys = xs"
  by (cases xs) (auto split: if_splits prod.splits)

lemma remove_id_enqueue:
  assumes "r_order_id x = oid" "oid \<notin> r_order_id ` set xs"
  shows "remove_id oid (enqueue s x xs) = xs"
proof (rule enqueue_at [of xs s x])
  fix as bs
  assume "xs = as @ bs" "enqueue s x xs = as @ x # bs"
  moreover have "filter (\<lambda>y. r_order_id y \<noteq> oid) xs = xs"
    using assms(2) by (force simp: filter_id_conv)
  ultimately show ?thesis
    using assms(1) by (simp add: remove_id_def)
qed

lemma side_queue_remove_id: "side_queue s (remove_id oid xs) = remove_id oid (side_queue s xs)"
  by (simp add: side_queue_def remove_id_def conj_commute)

lemma snapshot_sides:
  assumes "reach cap n (b, r)" "snapshot b = Some xs"
  shows "xs = side_queue Buy xs @ side_queue Sell xs"
  using assms(1)
proof (rule reach_snapshot)
  fix sb
  assume sb: "snapshot b = Some (s_orders sb)" "\<And>s. side_queue s (s_orders sb) = s_queue sb s"
  have "s_orders sb = s_queue sb Buy @ s_queue sb Sell"
    by (simp add: s_orders_def s_queue_def)
  then show ?thesis
    using sb assms(2) by simp
qed

text \<open>Cancelling an order that came to rest without trading restores the resting orders as they were.\<close>

theorem add_then_cancel_restores:
  assumes "reach cap n (b, r)" "engine_step (b, r) c = Some ((out, []), b1, r1)" "is_submit c" "o_resting_qty out > 0"
    "engine_step (b1, r1) (cancel_command (c_id c)) = Some ((out2, ts2), b2, r2)"
    "snapshot b = Some xs" "snapshot b2 = Some xs2"
  shows "o_ok out2 \<and> xs2 = xs"
proof -
  have r1: "reach cap (Suc n) (b1, r1)"
    using reach_step [OF assms(1,2)] .
  have r2: "reach cap (Suc (Suc n)) (b2, r2)"
    using reach_step [OF r1 assms(5)] .
  obtain xs1 where xs1: "snapshot b1 = Some xs1"
    using reach_snapshot_Some [OF r1] by auto
  have xs2: "o_ok out2 = (c_id c \<in> r_order_id ` set xs1)" "xs2 = remove_id (c_id c) xs1"
    using cancel_step [OF r1 assms(5) xs1 assms(7)] by (auto simp: cancel_command_def)
  from assms(1,2,6) xs1 assms(3) show ?thesis
  proof (cases rule: submit_cases [consumes 5, case_names rejected killed matched])
    case (matched stp q' tid tid')
    have new: "c_id c \<notin> r_order_id ` set (side_queue s xs)" for s
      using matched(2) by (auto simp: side_queue_def)
    have keep: "remove_id (c_id c) (side_queue s xs) = side_queue s xs" for s
      using new [of s] by (force simp: remove_id_def filter_id_conv)
    have "remove_id (c_id c) (side_queue s xs1) = side_queue s xs" for s
    proof (cases "s = c_side c")
      case True
      then show ?thesis
        using matched(9) assms(4) new by (simp add: remove_id_enqueue)
    next
      case False
      then have "s = opposite (c_side c)"
        by (cases s; cases "c_side c") auto
      then show ?thesis
        using match_no_trades [OF matched(4)] keep by simp
    qed
    then have "xs2 = xs"
      using snapshot_sides [OF r2 assms(7)] snapshot_sides [OF assms(1,6)] by (simp add: xs2(2) side_queue_remove_id)
    moreover have "c_id c \<in> r_order_id ` set (side_queue (c_side c) xs1)"
      using matched(9) assms(4) by simp
    ultimately show ?thesis
      using xs2(1) by (auto simp: side_queue_def)
  qed (use assms(4) in \<open>simp_all add: default_Outcome_def\<close>)
qed

theorem add_then_cancel_restores_witness:
  "let c = limit_command 4 Buy (Price 100) 8 1 GTC; (ev2, e2) = the (engine_step (snd (sample_step c)) (cancel_command 4))
   in o_ok (fst ev2) \<and> the (snapshot (fst e2)) = sample_before"
proof -
  let ?c = "limit_command 4 Buy (Price 100) 8 1 GTC" and ?d = "cancel_command 4"
  let ?e1 = "snd (sample_step ?c)"
  let ?st = "the (engine_step ?e1 ?d)"
  have eq: "sample_trades ?c = []" "o_resting_qty (sample_out ?c) = 8"
    by code_simp+
  have e1: "reach 4 (Suc 3) ?e1"
    using reach_step [OF sample_reach, of ?c _ ?e1] sample_step_Some by (metis prod.collapse)
  have st: "engine_step ?e1 ?d = Some ?st"
    using reach_progress [OF e1, of ?d] by auto
  have e2: "reach 4 (Suc (Suc 3)) (snd ?st)"
    using reach_step [OF e1, of ?d "fst ?st" "snd ?st"] st by simp
  have "o_ok (fst (fst ?st)) \<and> the (snapshot (fst (snd ?st))) = sample_before"
  proof (rule add_then_cancel_restores [OF sample_view(1) sample_view(2) [of ?c, unfolded eq(1)]])
    have "c_id ?c = 4"
      by (simp add: limit_command_def)
    with st show "engine_step (fst ?e1, snd ?e1) (cancel_command (c_id ?c)) =
        Some ((fst (fst ?st), snd (fst ?st)), fst (snd ?st), snd (snd ?st))"
      by simp
    show "is_submit ?c"
      by (simp add: is_submit_def limit_command_def)
  qed (use eq(2) sample_view(3) reach_snapshot_Some [OF e2] in simp_all)
  then show ?thesis
    by (simp add: Let_def case_prod_beta)
qed

end
