(* ===== verification/Resource_Properties.thy ===== *)
theory Resource_Properties
  imports Matching_Properties
begin

text \<open>
  What the book owns in every reachable state. Pool slots, entries of the id map and price levels are taken
  and given back one by one by the commands; here they are counted against the orders of the snapshot.
\<close>

section \<open>Levels\<close>

lemma levels_prices:
  assumes "list_all2 (level_ok m s) lvs xss" "[] \<notin> set xss"
  shows "r_price ` set (queue_of m xss) = lv_price ` set lvs"
  using assms
proof (induction rule: list_all2_induct)
  case (Cons lv lvs xs xss)
  then have "r_price ` (\<lambda>i. resting_of (the (m i))) ` set xs = {lv_price lv}"
    using level_ok_price [OF Cons.hyps(1)] by (cases xs) auto
  then show ?case
    using Cons by (auto simp: image_Un)
qed simp

lemma count_prices:
  assumes "side_repr m s pl xss" "[] \<notin> set xss"
  shows "count pl = card (r_price ` set (queue_of m xss))"
proof -
  have inv: "levels_inv (best_of s) pl" and all: "list_all2 (level_ok m s) (active pl) xss"
    using assms(1) by (auto simp: side_repr_def)
  have "distinct (map lv_price (active pl))"
    using inv side_order.worst_first_distinct by (auto simp: levels_inv_def)
  then have "card (lv_price ` set (active pl)) = length (active pl)"
    using distinct_card [of "map lv_price (active pl)"] by simp
  then show ?thesis
    using levels_prices [OF all assms(2)] levels_inv_length [OF inv] by simp
qed

section \<open>The account\<close>

lemma distinct_dom_live:
  assumes "idmap_inv m"
  shows "fst ` set (live_entries m) = dom (idm_map m)" "length (live_entries m) = entries m"
proof -
  show dom: "fst ` set (live_entries m) = dom (idm_map m)"
    by (simp add: idm_map_def dom_map_of_conv_image_fst)
  show "length (live_entries m) = entries m"
    using distinct_card [OF distinct_live_entries [OF idmap_invD(3) [OF assms]]] dom entries_eq [OF assms] by simp
qed

text \<open>The pool and the levels.\<close>

lemma book_slots:
  assumes "book_abs b sb"
  shows "free_slots (pool b) = Some (of_nat (s_cap sb - length (s_orders sb)))" "length (s_orders sb) \<le> s_cap sb"
    "s_cap sb < 2 ^ 32" "length (slots (pool b)) = s_cap sb"
    "bij_betw (\<lambda>i. resting_of (the (orders b i))) (dom (orders b)) (set (s_orders sb))"
proof -
  obtain L where L: "book_ok b L" "\<And>s. s_queue sb s = queue_of (orders b) (L s)" and cap: "s_cap sb = length (slots (pool b))"
    using assms by (rule book_absE) blast
  note ok = book_okD [OF L(1)] and n = length_orders [OF L]
  show "free_slots (pool b) = Some (of_nat (s_cap sb - length (s_orders sb)))"
    using free_slots_eq [OF ok(4)] n cap by simp
  show "length (s_orders sb) \<le> s_cap sb" "s_cap sb < 2 ^ 32" "length (slots (pool b)) = s_cap sb"
    using card_orders_le [OF ok(4)] pool_inv_length [OF ok(4)] n cap by simp_all
  have "inj_on (r_order_id \<circ> (\<lambda>i. resting_of (the (orders b i)))) (dom (orders b))"
    using order_ids_inj [OF ok(2)] by (simp add: comp_def)
  then have "inj_on (\<lambda>i. resting_of (the (orders b i))) (dom (orders b))"
    by (rule inj_on_imageI2)
  then show "bij_betw (\<lambda>i. resting_of (the (orders b i))) (dom (orders b)) (set (s_orders sb))"
    by (simp add: bij_betw_def set_queues [OF L])
qed

lemma book_levels:
  assumes "book_abs b sb"
  shows "lv_price ` set (active (levels_of b s)) = r_price ` set (s_queue sb s)"
    "count (levels_of b s) = card (r_price ` set (s_queue sb s))" "length (levels (levels_of b s)) = s_cap sb + 1"
proof -
  obtain L where L: "book_ok b L" "\<And>s. s_queue sb s = queue_of (orders b) (L s)" and cap: "s_cap sb = length (slots (pool b))"
    using assms by (rule book_absE) blast
  note ok = book_okD [OF L(1)]
  have nonempty: "[] \<notin> set (L s)" and repr: "side_repr (orders b) s (levels_of b s) (L s)"
    using ok(3) book_reprD(2) [OF ok(1)] by (simp_all add: settled_side [of L s])
  then show "lv_price ` set (active (levels_of b s)) = r_price ` set (s_queue sb s)"
    using levels_prices by (fastforce simp: side_repr_def L(2))
  show "count (levels_of b s) = card (r_price ` set (s_queue sb s))"
    using count_prices [OF repr nonempty] by (simp add: L(2))
  show "length (levels (levels_of b s)) = s_cap sb + 1"
    using cap book_reprD(4) [OF ok(1)] by simp
qed

text \<open>The id map.\<close>

lemma book_ids:
  assumes "book_abs b sb"
  shows "fst ` set (live_entries (id_map b)) = r_order_id ` set (s_orders sb)"
    "length (live_entries (id_map b)) = length (s_orders sb)" "IdMap_size (id_map b) = length (s_orders sb)"
    "IdMap_slots (id_map b) = IdMap_slots (IdMap_new (of_nat (s_cap sb)))"
    "x \<in> set (s_orders sb) \<Longrightarrow> \<exists>h y. IdMap_find (id_map b) (r_order_id x) = Some (Some h) \<and>
       pool_get (pool b) h = Some (Some y) \<and> resting_of y = x"
    "oid \<notin> r_order_id ` set (s_orders sb) \<Longrightarrow> IdMap_find (id_map b) oid = Some None"
proof -
  obtain L where L: "book_ok b L" "\<And>s. s_queue sb s = queue_of (orders b) (L s)" and cap: "s_cap sb = length (slots (pool b))"
    using assms by (rule book_absE) blast
  note ok = book_okD [OF L(1)] and n = length_orders [OF L]
  have inv: "idmap_inv (id_map b)"
    using ok(2) by (simp add: ids_ok_def)
  have find: "IdMap_find (id_map b) k = Some (idm_map (id_map b) k)" for k
    by (rule IdMap_find_eq [OF inv])
  have ids: "idm_map (id_map b) k = None \<longleftrightarrow> k \<notin> r_order_id ` set (s_orders sb)" for k
  proof (cases rule: find_refines [OF L, where oid = k, case_names dead live])
    case dead
    then show ?thesis
      using find by (auto simp: lookup_id_def find_None_iff)
  next
    case (live i x)
    then have "resting_of x \<in> set (s_orders sb)" "r_order_id (resting_of x) = k"
      using find_Some_iff [of "\<lambda>x. r_order_id x = k" "s_orders sb" "resting_of x"] by (auto simp: lookup_id_def)
    then have "k \<in> r_order_id ` set (s_orders sb)"
      by blast
    then show ?thesis
      using live(1) find by simp
  qed
  have dom: "dom (idm_map (id_map b)) = r_order_id ` set (s_orders sb)"
  proof (rule set_eqI)
    show "k \<in> dom (idm_map (id_map b)) \<longleftrightarrow> k \<in> r_order_id ` set (s_orders sb)" for k
      using ids [of k] by (simp only: domIff not_not)
  qed
  show "fst ` set (live_entries (id_map b)) = r_order_id ` set (s_orders sb)"
    using distinct_dom_live(1) [OF inv] dom by simp
  show "IdMap_size (id_map b) = length (s_orders sb)" "length (live_entries (id_map b)) = length (s_orders sb)"
    using ids_ok_entries [OF ok(2)] n distinct_dom_live(2) [OF inv] by (simp_all add: IdMap_size_def)
  show "IdMap_slots (id_map b) = IdMap_slots (IdMap_new (of_nat (s_cap sb)))"
    using ok(2) cap by (simp add: ids_ok_def IdMap_slots_def)
  show "IdMap_find (id_map b) oid = Some None" if "oid \<notin> r_order_id ` set (s_orders sb)"
    using find [of oid] ids [of oid] that by simp
  show "\<exists>h y. IdMap_find (id_map b) (r_order_id x) = Some (Some h) \<and> pool_get (pool b) h = Some (Some y) \<and> resting_of y = x"
    if x: "x \<in> set (s_orders sb)"
  proof (cases rule: find_refines [OF L, where oid = "r_order_id x", case_names dead live])
    case dead
    then show ?thesis
      using x by (auto simp: lookup_id_def find_None_iff)
  next
    case (live i y)
    then show ?thesis
      using find_unique [OF distinct_ids [OF L] x] by (auto simp: lookup_id_def)
  qed
qed

text \<open>C9. Nothing leaks and nothing grows. In every reachable state the used slots of the pool hold exactly the
  orders of the snapshot, one each, and the free slots, as the book itself counts them, make up the rest of
  the capacity; the id map holds exactly one entry per resting order, which leads to the slot of that order, and
  finds no other id; the prices of the levels of a side are exactly those of its orders, one level each; and the
  arrays of slots, of map entries and of levels have the lengths they were built with.\<close>

theorem resources_accounted:
  assumes "reach cap n (b, r)" "snapshot b = Some xs"
  shows "bij_betw (\<lambda>i. resting_of (the (unchecked_at (pool b) i))) (dom (unchecked_at (pool b))) (set xs) \<and>
    (\<exists>f. free_slots (pool b) = Some f \<and> unat f + length xs = unat cap) \<and>
    capacity (pool b) = cap \<and> length (slots (pool b)) = unat cap \<and>
    (\<forall>x \<in> set xs. \<exists>h y. IdMap_find (id_map b) (r_order_id x) = Some (Some h) \<and>
       pool_get (pool b) h = Some (Some y) \<and> resting_of y = x) \<and>
    (\<forall>oid. oid \<notin> r_order_id ` set xs \<longrightarrow> IdMap_find (id_map b) oid = Some None) \<and>
    fst ` set (live_entries (id_map b)) = r_order_id ` set xs \<and> length (live_entries (id_map b)) = length xs \<and>
    IdMap_size (id_map b) = length xs \<and> IdMap_slots (id_map b) = IdMap_slots (IdMap_new cap) \<and>
    (\<forall>s. lv_price ` set (active (levels_of b s)) = r_price ` set (side_queue s xs) \<and>
       count (levels_of b s) = card (r_price ` set (side_queue s xs)) \<and> length (levels (levels_of b s)) = unat cap + 1)"
  using assms(1)
proof (rule reach_snapshot)
  fix sb
  assume sb: "book_abs b sb" "snapshot b = Some (s_orders sb)" "\<And>s. side_queue s (s_orders sb) = s_queue sb s"
    "s_cap sb = unat cap"
  note slots = book_slots [OF sb(1)] and lvs = book_levels [OF sb(1)] and ids = book_ids [OF sb(1)]
  have xs: "xs = s_orders sb"
    using assms(2) sb(2) by simp
  have "unat (of_nat (s_cap sb - length (s_orders sb)) :: Index) = s_cap sb - length (s_orders sb)"
    using slots(3) by (intro unat_of_nat_small) simp
  then have "\<exists>f. free_slots (pool b) = Some f \<and> unat f + length xs = unat cap"
    using slots(1,2) sb(4) xs by simp
  moreover have "capacity (pool b) = cap" "IdMap_slots (id_map b) = IdMap_slots (IdMap_new cap)"
    using slots(4) ids(4) sb(4) by (simp_all add: capacity_def)
  ultimately show ?thesis
    unfolding xs sb(3) using slots(4,5) sb(4) lvs ids by simp
qed

theorem resources_accounted_witness:
  "let b = fst (snd (sample_step (market_command 9 Buy 6 1)))
   in free_slots (pool b) = Some 2 \<and> card (dom (unchecked_at (pool b))) = 2 \<and>
      fst ` set (live_entries (id_map b)) = {2, 3} \<and> IdMap_size (id_map b) = 2 \<and> IdMap_find (id_map b) 1 = Some None \<and>
      IdMap_slots (id_map b) = IdMap_slots (IdMap_new 4) \<and>
      lv_price ` set (active (levels_of b Sell)) = {Price 102} \<and> length (levels (levels_of b Sell)) = 5"
proof -
  let ?c = "market_command 9 Buy 6 1"
  let ?e = "snd (sample_step ?c)"
  have reach: "reach 4 (Suc 3) (fst ?e, snd ?e)"
    using reach_step [OF sample_reach, of ?c "fst (sample_step ?c)" ?e] sample_step_Some by simp
  note acc = resources_accounted [OF reach sample_view(4)]
  have after: "length (sample_after ?c) = 2" "card (set (sample_after ?c)) = 2" "r_order_id ` set (sample_after ?c) = {2, 3}"
    "(1 :: OrderId) \<notin> {2, 3}" "r_price ` set (side_queue Sell (sample_after ?c)) = {Price 102}"
    by code_simp+
  obtain f where f: "free_slots (pool (fst ?e)) = Some f" "unat f + 2 = 4"
    using acc after(1) by auto
  then have "f = 2"
    by (simp add: word_unat_eq_iff)
  moreover have "card (dom (unchecked_at (pool (fst ?e)))) = 2"
    using acc after(2) bij_betw_same_card by metis
  ultimately show ?thesis
    using f(1) acc after(1,3,4,5) by (simp add: Let_def)
qed

end
