(* ===== verification/Checksum.thy ===== *)
theory Checksum
  imports Engine_Prelude
begin

unbundle bit_operations_syntax

text \<open>
  The CRC-32 of \<open>include/engine/journal.hpp\<close>: the table, the checksum, the bit-by-bit definition it
  computes, and the errors it detects. A step of the shift register is linear and injective, so two messages
  that differ only within four consecutive bytes never have the same checksum.
\<close>

type_synonym byte = "8 word"

section \<open>The code\<close>

definition crc_step :: "32 word \<Rightarrow> 32 word" where
  "crc_step c = (if c AND 1 \<noteq> 0 then 0xEDB88320 XOR drop_bit 1 c else drop_bit 1 c)"

definition make_crc_table :: "32 word list" where
  "make_crc_table = map (\<lambda>i. (crc_step ^^ 8) (of_nat i)) [0..<256]"

definition kCrcTable :: "32 word list" where
  "kCrcTable = make_crc_table"

definition crc_update :: "32 word \<Rightarrow> byte \<Rightarrow> 32 word" where
  "crc_update c b = kCrcTable ! unat ((c XOR ucast b) AND 0xFF) XOR drop_bit 8 c"

definition crc32 :: "byte list \<Rightarrow> 32 word" where
  "crc32 data = foldl crc_update 0xFFFFFFFF data XOR 0xFFFFFFFF"

section \<open>The shift register\<close>

lemma xor_twice: "a XOR (a XOR x) = (x :: 'a :: len word)"
  by (simp add: xor.assoc [symmetric])

lemma xor_cancel: "a XOR x = a XOR y \<longleftrightarrow> x = (y :: 'a :: len word)"
proof
  assume "a XOR x = a XOR y"
  then have "a XOR (a XOR x) = a XOR (a XOR y)"
    by simp
  then show "x = y"
    by (simp only: xor_twice)
qed simp

lemma xor_swap: "a XOR x = y \<longleftrightarrow> a XOR y = (x :: 'a :: len word)"
  using xor_cancel [of a x "a XOR y"] by (auto simp: xor_twice)

lemma crc_step_bit0: "crc_step c = (if bit c 0 then 0xEDB88320 XOR drop_bit 1 c else drop_bit 1 c)"
  by (simp add: crc_step_def and_one_eq odd_iff_mod_2_eq_one bit_0)

lemma crc_step_xor: "crc_step (x XOR y) = crc_step x XOR crc_step y"
  by (auto simp: crc_step_bit0 bit_xor_iff drop_bit_xor xor.assoc xor.left_commute)

lemma crc_steps_xor: "(crc_step ^^ n) (x XOR y) = (crc_step ^^ n) x XOR (crc_step ^^ n) y"
  by (induction n) (simp_all add: crc_step_xor)

lemma bit_crc_step_top: "bit (crc_step c) 31 \<longleftrightarrow> bit c 0"
proof -
  have "bit (0xEDB88320 :: 32 word) 31" "\<not> bit (drop_bit 1 c) 31"
    using bit_imp_le_length [of c 32] by (auto simp: bit_drop_bit_eq)
  then show ?thesis
    by (simp add: crc_step_bit0 bit_xor_iff)
qed

lemma crc_step_zero:
  assumes "crc_step x = 0"
  shows "x = 0"
proof -
  have b0: "\<not> bit x 0"
    using assms bit_crc_step_top [of x] by simp
  then have "drop_bit 1 x = 0"
    using assms by (simp add: crc_step_bit0)
  show ?thesis
  proof (rule bit_word_eqI)
    fix n
    have "bit (drop_bit 1 x) k \<longleftrightarrow> bit x (Suc k)" for k
      by (simp add: bit_drop_bit_eq)
    then show "bit x n \<longleftrightarrow> bit (0 :: 32 word) n"
      using b0 \<open>drop_bit 1 x = 0\<close> by (cases n) simp_all
  qed
qed

lemma crc_steps_inj: "(crc_step ^^ n) x = (crc_step ^^ n) y \<longleftrightarrow> x = y"
proof
  assume "(crc_step ^^ n) x = (crc_step ^^ n) y"
  then have "(crc_step ^^ n) (x XOR y) = 0"
    by (simp add: crc_steps_xor)
  then have "x XOR y = 0"
    by (induction n) (auto dest: crc_step_zero)
  then show "x = y"
    using xor_twice [of x y] by simp
qed simp

text \<open>While only zeros leave the register, it just shifts.\<close>

lemma crc_steps_shift: "(\<And>i. i < n \<Longrightarrow> \<not> bit x i) \<Longrightarrow> (crc_step ^^ n) x = drop_bit n x"
proof (induction n arbitrary: x)
  case (Suc n)
  have "\<not> bit (drop_bit 1 x) i" if "i < n" for i
    using Suc.prems [of "Suc i"] that by (simp add: bit_drop_bit_eq)
  moreover have "crc_step x = drop_bit 1 x"
    using Suc.prems [of 0] by (simp add: crc_step_bit0)
  ultimately show ?case
    using Suc.IH [of "drop_bit 1 x"] by (simp add: funpow_swap1)
qed simp

lemma bit_mask8: "bit (0xFF :: int) i \<longleftrightarrow> i < 8" "bit (0xFF :: nat) i \<longleftrightarrow> i < 8"
proof -
  have "(0xFF :: int) = mask 8" "(0xFF :: nat) = mask 8"
    by (simp_all add: mask_eq_exp_minus_1)
  then show "bit (0xFF :: int) i \<longleftrightarrow> i < 8" "bit (0xFF :: nat) i \<longleftrightarrow> i < 8"
    by (simp_all only: bit_mask_iff) auto
qed

lemma crc_table_nth: "i < 256 \<Longrightarrow> kCrcTable ! i = (crc_step ^^ 8) (of_nat i)"
  by (simp add: kCrcTable_def make_crc_table_def)

lemma crc_table_low: "kCrcTable ! unat (y AND 0xFF) = (crc_step ^^ 8) (y AND 0xFF)"
proof -
  have "y AND 0xFF = take_bit 8 y"
    by (rule bit_word_eqI) (auto simp: bit_and_iff bit_mask8 bit_take_bit_iff)
  then have "unat (y AND 0xFF) < 256"
    by (simp add: unsigned_take_bit_eq take_bit_nat_less_exp [of 8, simplified])
  then show ?thesis
    by (simp add: crc_table_nth)
qed

lemma crc_update_steps: "crc_update c b = (crc_step ^^ 8) (c XOR ucast b)"
proof -
  let ?y = "c XOR ucast b" and ?h = "(c XOR ucast b) AND NOT 0xFF"
  have "?y = (?y AND 0xFF) XOR ?h"
    by (rule bit_word_eqI) (auto simp: bit_simps bit_mask8)
  then have "(crc_step ^^ 8) ?y = (crc_step ^^ 8) (?y AND 0xFF) XOR (crc_step ^^ 8) ?h"
    by (metis crc_steps_xor)
  also have "(crc_step ^^ 8) ?h = drop_bit 8 ?h"
    by (rule crc_steps_shift) (simp add: bit_simps bit_mask8)
  also have "drop_bit 8 ?h = drop_bit 8 c"
  proof (rule bit_word_eqI)
    fix n
    have "bit (drop_bit 8 x) n \<longleftrightarrow> bit x (8 + n)" for x :: "32 word"
      by (simp add: bit_drop_bit_eq)
    moreover have "bit ?h (8 + n) \<longleftrightarrow> bit c (8 + n)"
      using bit_imp_le_length [of b "8 + n"] bit_imp_le_length [of c "8 + n"] by (auto simp: bit_simps bit_mask8)
    ultimately show "bit (drop_bit 8 ?h) n \<longleftrightarrow> bit (drop_bit 8 c) n"
      by blast
  qed
  finally show ?thesis
    by (simp only: crc_update_def crc_table_low)
qed

lemmas crc_update_code [code] = crc_update_steps

text \<open>Rules that evaluate a checksum on concrete bytes.\<close>

lemma crc_steps_8: "(crc_step ^^ 8) x = crc_step (crc_step (crc_step (crc_step (crc_step (crc_step (crc_step (crc_step x)))))))"
  by (simp add: numeral_eq_Suc)

lemmas crc_eval = crc32_def crc_update_steps crc_steps_8 crc_step_def

section \<open>What it computes\<close>

text \<open>The checksum bit by bit: each byte enters the low end of the register, which then makes eight steps.\<close>

definition crc32_bitwise :: "byte list \<Rightarrow> 32 word" where
  "crc32_bitwise data = foldl (\<lambda>c b. (crc_step ^^ 8) (c XOR ucast b)) 0xFFFFFFFF data XOR 0xFFFFFFFF"

lemma crc32_bitwise_eq: "crc32 data = crc32_bitwise data"
  by (simp add: crc32_def crc32_bitwise_def crc_update_steps [abs_def])

section \<open>Messages as numbers\<close>

text \<open>Up to four bytes, least significant first, in one register.\<close>

fun pack :: "byte list \<Rightarrow> 32 word" where
  "pack [] = 0"
| "pack (b # bs) = ucast b XOR push_bit 8 (pack bs)"

lemma bit_pack_high: "8 * length bs \<le> n \<Longrightarrow> \<not> bit (pack bs) n"
proof (induction bs arbitrary: n)
  case (Cons b bs)
  then show ?case
    using bit_imp_le_length [of b n] by (auto simp: bit_xor_iff bit_unsigned_iff bit_push_bit_iff)
qed simp

lemma drop_pack: "length bs \<le> 3 \<Longrightarrow> drop_bit 8 (push_bit 8 (pack bs)) = pack bs"
proof (rule bit_word_eqI)
  fix n
  assume "length bs \<le> 3"
  then have "8 * length bs \<le> n" if "24 \<le> n"
    using that by simp
  then show "bit (drop_bit 8 (push_bit 8 (pack bs))) n \<longleftrightarrow> bit (pack bs) n"
    using bit_pack_high [of bs n] by (cases "24 \<le> n") (auto simp: bit_drop_bit_eq bit_push_bit_iff)
qed

lemma crc_updates_pack:
  "length bs \<le> 4 \<Longrightarrow> foldl crc_update c bs = (crc_step ^^ (8 * length bs)) (c XOR pack bs)"
proof (induction bs arbitrary: c)
  case (Cons b bs)
  let ?n = "8 * length bs"
  have "(crc_step ^^ 8) (push_bit 8 (pack bs)) = pack bs"
    using crc_steps_shift [of 8 "push_bit 8 (pack bs)"] drop_pack [of bs] Cons.prems by (simp add: bit_push_bit_iff)
  then have "(crc_step ^^ 8) (c XOR ucast b XOR push_bit 8 (pack bs)) = crc_update c b XOR pack bs"
    by (simp add: crc_steps_xor crc_update_steps xor.assoc)
  moreover have "foldl crc_update c (b # bs) = (crc_step ^^ ?n) (crc_update c b XOR pack bs)"
    using Cons by simp
  moreover have "(crc_step ^^ (8 * length (b # bs))) x = (crc_step ^^ ?n) ((crc_step ^^ 8) x)" for x
    using funpow_add [of ?n 8 crc_step] by (simp add: add.commute)
  ultimately show ?case
    by simp
qed simp

lemma pack_inj: "length xs = length ys \<Longrightarrow> length xs \<le> 4 \<Longrightarrow> pack xs = pack ys \<Longrightarrow> xs = ys"
proof (induction xs ys rule: list_induct2)
  case (Cons x xs y ys)
  have len: "length xs \<le> 3" "length ys \<le> 3"
    using Cons.hyps Cons.prems(1) by simp_all
  have low: "bit (pack (b # bs)) n \<longleftrightarrow> bit b n" if "n < 8" for b bs n
    using that by (simp add: bit_xor_iff bit_unsigned_iff bit_push_bit_iff)
  have "x = y"
  proof (rule bit_word_eqI)
    fix n assume "n < LENGTH(8)"
    then show "bit x n \<longleftrightarrow> bit y n"
      using low [of n x xs] low [of n y ys] Cons.prems(2) by simp
  qed
  moreover from this have "push_bit 8 (pack xs) = push_bit 8 (pack ys)"
    using Cons.prems(2) by (simp add: xor_cancel)
  then have "pack xs = pack ys"
    using drop_pack [of xs] drop_pack [of ys] len by metis
  ultimately show ?case
    using Cons.IH Cons.prems(1) by simp
qed simp

section \<open>Error detection\<close>

lemma crc_updates_inj: "foldl crc_update c bs = foldl crc_update d bs \<longleftrightarrow> c = d"
proof (induction bs arbitrary: c d)
  case (Cons b bs)
  have "crc_update c b = crc_update d b \<longleftrightarrow> c = d"
    by (simp add: crc_update_steps crc_steps_inj xor.commute [of _ "ucast b"] xor_cancel)
  then show ?case
    using Cons.IH by simp
qed simp

text \<open>A change within four consecutive bytes changes the register for good.\<close>

lemma crc_burst:
  assumes "length m = length m'" "length m \<le> 4" "m \<noteq> m'"
  shows "foldl crc_update c (as @ m @ bs) \<noteq> foldl crc_update c (as @ m' @ bs)"
proof -
  let ?c = "foldl crc_update c as"
  have "?c XOR pack m \<noteq> ?c XOR pack m'"
    using pack_inj [of m m'] assms by (auto simp: xor_cancel)
  then have "foldl crc_update ?c m \<noteq> foldl crc_update ?c m'"
    using assms(1,2) by (simp add: crc_updates_pack crc_steps_inj)
  then show ?thesis
    by (simp add: crc_updates_inj)
qed

text \<open>A message with its checksum behind it always leaves the same value in the register.\<close>

definition crc_residue :: "32 word" where
  "crc_residue = (crc_step ^^ 32) 0xFFFFFFFF"

lemma crc_check_residue:
  assumes "length tail = 4"
  shows "crc32 body = pack tail \<longleftrightarrow> foldl crc_update 0xFFFFFFFF (body @ tail) = crc_residue"
proof -
  let ?c = "foldl crc_update 0xFFFFFFFF body"
  have "foldl crc_update 0xFFFFFFFF (body @ tail) = crc_residue \<longleftrightarrow> ?c XOR pack tail = 0xFFFFFFFF"
    using assms by (simp add: crc_updates_pack crc_residue_def crc_steps_inj)
  also have "\<dots> \<longleftrightarrow> ?c XOR 0xFFFFFFFF = pack tail"
    by (rule xor_swap)
  finally show ?thesis
    by (simp add: crc32_def)
qed

end
