(* ===== verification/Bytes.thy ===== *)
theory Bytes
  imports Checksum
begin

unbundle bit_operations_syntax

text \<open>
  Little-endian integers of the journal (\<open>detail::put\<close>, \<open>detail::get\<close>) and reads of a byte array. A read
  is \<open>None\<close> unless all its bytes lie in the array.
\<close>

section \<open>The code\<close>

definition put :: "64 word \<Rightarrow> nat \<Rightarrow> byte list" where
  "put v bytes = map (\<lambda>i. ucast (drop_bit (8 * i) v)) [0..<bytes]"

definition get_bytes :: "byte list \<Rightarrow> 64 word" where
  "get_bytes bs = foldl (\<lambda>v i. v OR push_bit (8 * i) (ucast (bs ! i))) 0 [0..<length bs]"

definition bytes_at :: "byte list \<Rightarrow> nat \<Rightarrow> nat \<Rightarrow> byte list option" where
  "bytes_at data p n = (if p + n \<le> length data then Some (take n (drop p data)) else None)"

definition get :: "byte list \<Rightarrow> nat \<Rightarrow> nat \<Rightarrow> 64 word option" where
  "get data p bytes = map_option get_bytes (bytes_at data p bytes)"

section \<open>Reads\<close>

lemma bytes_at_in: "p + n \<le> length data \<Longrightarrow> bytes_at data p n = Some (take n (drop p data))"
  by (simp add: bytes_at_def)

lemma bytes_at_append [simp]: "n \<le> length bs \<Longrightarrow> bytes_at (as @ bs @ cs) (length as) n = Some (take n bs)"
  by (simp add: bytes_at_def)

lemma bytes_at_drop: "p \<le> length data \<Longrightarrow> bytes_at (drop p data) k n = bytes_at data (p + k) n"
  by (auto simp: bytes_at_def add.commute)

lemma get_drop: "p \<le> length data \<Longrightarrow> get (drop p data) k n = get data (p + k) n"
  by (simp add: get_def bytes_at_drop)

lemma nth_opt_drop: "p \<le> length data \<Longrightarrow> nth_opt (drop p data) k = nth_opt data (p + k)"
  by (auto simp: nth_opt_def)

section \<open>Bits\<close>

lemma length_put [simp]: "length (put v n) = n"
  by (simp add: put_def)

lemma bit_ucast_byte: "bit (ucast (b :: byte) :: 64 word) k \<longleftrightarrow> k < 8 \<and> bit b k"
  using bit_imp_le_length [of b k] by (auto simp: bit_unsigned_iff)

lemma bit_get_bytes: "bit (get_bytes bs) k \<longleftrightarrow> k < 64 \<and> k div 8 < length bs \<and> bit (bs ! (k div 8)) (k mod 8)"
proof -
  have "bit (foldl (\<lambda>v i. v OR push_bit (8 * i) (ucast (bs ! i))) (0 :: 64 word) [0..<m]) k \<longleftrightarrow>
      k < 64 \<and> k div 8 < m \<and> bit (bs ! (k div 8)) (k mod 8)" for m
  proof (induction m)
    case (Suc m)
    have "bit (push_bit (8 * m) (ucast (bs ! m)) :: 64 word) k \<longleftrightarrow> k < 64 \<and> k div 8 = m \<and> bit (bs ! m) (k mod 8)"
    proof (cases "k div 8 = m")
      case True
      then have "8 * m \<le> k" "k - 8 * m = k mod 8"
        by (auto simp: minus_mult_div_eq_mod)
      with True show ?thesis
        by (simp add: bit_push_bit_iff bit_ucast_byte)
    next
      case False
      then have "\<not> (8 * m \<le> k \<and> k - 8 * m < 8)"
        using div_nat_eqI [of 8 m k] by auto
      with False show ?thesis
        by (auto simp: bit_push_bit_iff bit_ucast_byte)
    qed
    then show ?case
      using Suc by (auto simp: bit_or_iff less_Suc_eq)
  qed simp
  then show ?thesis
    by (simp add: get_bytes_def)
qed

lemma bit_put: "i < n \<Longrightarrow> bit (put v n ! i) k \<longleftrightarrow> k < 8 \<and> bit v (8 * i + k)"
  by (simp add: put_def bit_unsigned_iff bit_drop_bit_eq)

lemma get_put: "n \<le> 8 \<Longrightarrow> get_bytes (put v n) = take_bit (8 * n) v"
proof (rule bit_word_eqI)
  fix k
  assume "n \<le> 8" "k < LENGTH(64)"
  moreover have "8 * (k div 8) + k mod 8 = k" "k div 8 < n \<longleftrightarrow> k < 8 * n"
    by (auto simp: div_less_iff_less_mult mult.commute)
  ultimately show "bit (get_bytes (put v n)) k \<longleftrightarrow> bit (take_bit (8 * n) v) k"
    by (auto simp: bit_get_bytes bit_put bit_take_bit_iff)
qed

lemma get_put8 [simp]: "get_bytes (put v 8) = v"
  by (simp add: get_put take_bit_word_eq_self)

lemma get_put4 [simp]: "get_bytes (put (ucast (v :: 32 word)) 4) = ucast v"
proof -
  have "take_bit 32 (ucast v :: 64 word) = ucast v"
    by (rule bit_word_eqI) (auto simp: bit_take_bit_iff bit_unsigned_iff dest: bit_imp_le_length)
  then show ?thesis
    by (simp add: get_put)
qed

lemma put_get: "length bs = n \<Longrightarrow> n \<le> 8 \<Longrightarrow> put (get_bytes bs) n = bs"
proof (rule nth_equalityI)
  fix i
  assume n: "length bs = n" "n \<le> 8" and "i < length (put (get_bytes bs) n)"
  then have i: "i < n"
    by simp
  show "put (get_bytes bs) n ! i = bs ! i"
  proof (rule bit_word_eqI)
    fix k
    assume "k < LENGTH(8)"
    then have "(8 * i + k) div 8 = i" "(8 * i + k) mod 8 = k" "8 * i + k < 64" "k < 8"
      using i n by auto
    then show "bit (put (get_bytes bs) n ! i) k \<longleftrightarrow> bit (bs ! i) k"
      using i n by (simp add: bit_put bit_get_bytes)
  qed
qed simp

lemma bit_pack: "bit (pack bs) k \<longleftrightarrow> k < 32 \<and> k div 8 < length bs \<and> bit (bs ! (k div 8)) (k mod 8)"
proof (induction bs arbitrary: k)
  case (Cons b bs)
  have *: "bit (push_bit 8 (pack bs)) k \<longleftrightarrow> k < 32 \<and> 8 \<le> k \<and> bit (pack bs) (k - 8)"
    by (auto simp: bit_push_bit_iff)
  show ?case
  proof (cases "k < 8")
    case True
    then show ?thesis
      by (simp add: bit_xor_iff bit_unsigned_iff *)
  next
    case False
    then have "k div 8 = Suc ((k - 8) div 8)" "(k - 8) mod 8 = k mod 8"
      by (simp_all add: le_div_geq le_mod_geq)
    moreover have "\<not> bit (ucast b :: 32 word) k"
      using False bit_imp_le_length [of b k] by (auto simp: bit_unsigned_iff)
    ultimately show ?thesis
      using False by (auto simp: bit_xor_iff * Cons.IH)
  qed
qed simp

lemma get_pack: "length bs = 4 \<Longrightarrow> get_bytes bs = ucast (pack bs)"
proof (rule bit_word_eqI)
  fix k :: nat
  assume "length bs = 4"
  moreover have "k div 8 < 4 \<longleftrightarrow> k < 32"
    by auto
  ultimately show "bit (get_bytes bs) k \<longleftrightarrow> bit (ucast (pack bs) :: 64 word) k"
    by (auto simp: bit_get_bytes bit_unsigned_iff bit_pack)
qed

lemma ucast_64_32 [simp]: "(ucast (ucast (x :: 32 word) :: 64 word) :: 32 word) = x"
  by (rule bit_word_eqI) (auto simp: bit_unsigned_iff)

lemma ucast_32_64_eq [simp]: "(ucast (x :: 32 word) :: 64 word) = ucast y \<longleftrightarrow> x = y"
  by (metis ucast_64_32)

end
