(* ===== verification/Journal.thy ===== *)
theory Journal
  imports Command Bytes
begin

text \<open>
  \<open>include/engine/journal.hpp\<close>: the binary format of a journal, the reader that walks one held in
  memory, and the writer that appends to a file.

  A byte buffer the code fills is the list of the bytes it wrote. What the C library does to a file is an
  argument of the operation that calls it.
\<close>

section \<open>Encoding\<close>

definition kMagic :: "byte list" where
  "kMagic = [0x4C, 0x4F, 0x4D, 0x45, 0x4A, 0x52, 0x4E, 0x4C]"

definition kVersion :: "32 word" where
  "kVersion = 1"

definition kHeaderSize :: nat where
  "kHeaderSize = 20"

definition kMaxRecordSize :: nat where
  "kMaxRecordSize = 31"

text \<open>The values of the enumerations as they are stored.\<close>

definition kind_byte :: "CommandKind \<Rightarrow> byte" where
  "kind_byte k = (case k of Limit \<Rightarrow> 1 | Market \<Rightarrow> 2 | Cancel \<Rightarrow> 3 | Modify \<Rightarrow> 4)"

definition side_byte :: "Side \<Rightarrow> byte" where
  "side_byte s = (case s of Buy \<Rightarrow> 0 | Sell \<Rightarrow> 1)"

definition tif_byte :: "TimeInForce \<Rightarrow> byte" where
  "tif_byte t = (case t of GTC \<Rightarrow> 0 | IOC \<Rightarrow> 1 | FOK \<Rightarrow> 2)"

definition payload_size :: "byte \<Rightarrow> nat" where
  "payload_size k =
     (if k = kind_byte Limit then 8 + 1 + 1 + 8 + 4 + 4
      else if k = kind_byte Market then 8 + 1 + 4 + 4
      else if k = kind_byte Cancel then 8
      else if k = kind_byte Modify then 8 + 8 + 4
      else 0)"

definition encode_header :: "Index \<Rightarrow> byte list" where
  "encode_header pool_capacity =
     (let out = kMagic @ put (ucast kVersion) 4 @ put (ucast pool_capacity) 4
      in out @ put (ucast (crc32 out)) 4)"

definition encode :: "Command \<Rightarrow> byte list" where
  "encode c =
     (let out = [kind_byte (kind c)] @ put (c_id c) 8 @
        (case kind c of
           Limit \<Rightarrow> [side_byte (c_side c), tif_byte (c_tif c)] @ put (ticks (c_price c)) 8 @
                    put (ucast (c_qty c)) 4 @ put (ucast (c_account c)) 4
         | Market \<Rightarrow> [side_byte (c_side c)] @ put (ucast (c_qty c)) 4 @ put (ucast (c_account c)) 4
         | Cancel \<Rightarrow> []
         | Modify \<Rightarrow> put (ticks (c_price c)) 8 @ put (ucast (c_qty c)) 4)
      in out @ put (ucast (crc32 out)) 4)"

section \<open>Reader\<close>

datatype Status = Ok | End | Truncated | BadChecksum | BadKind | BadField

text \<open>\<open>data_\<close> and \<open>size_\<close> are one list; \<open>size_ - pos_\<close> never wraps because \<open>pos_\<close> never passes \<open>size_\<close>.\<close>

record Reader =
  rd_data :: "byte list"
  rd_pos :: nat
  rd_capacity :: Index

definition Reader_new :: "byte list \<Rightarrow> Reader" where
  "Reader_new data = \<lparr>rd_data = data, rd_pos = 0, rd_capacity = 0\<rparr>"

definition pool_capacity :: "Reader \<Rightarrow> Index" where
  "pool_capacity r = rd_capacity r"

definition valid_bytes :: "Reader \<Rightarrow> nat" where
  "valid_bytes r = rd_pos r"

definition Reader_open :: "Reader \<Rightarrow> (Status \<times> Reader) option" where
  "Reader_open r =
     (if length (rd_data r) < kHeaderSize then Some (Truncated, r)
      else do {
        magic \<leftarrow> bytes_at (rd_data r) 0 8;
        if magic \<noteq> kMagic then Some (BadField, r)
        else do {
          hdr \<leftarrow> bytes_at (rd_data r) 0 16;
          crc \<leftarrow> get (rd_data r) 16 4;
          if ucast (crc32 hdr) \<noteq> crc then Some (BadChecksum, r)
          else do {
            version \<leftarrow> get (rd_data r) 8 4;
            if version \<noteq> ucast kVersion then Some (BadField, r)
            else do {
              cap \<leftarrow> get (rd_data r) 12 4;
              Some (Ok, r\<lparr>rd_capacity := ucast cap, rd_pos := kHeaderSize\<rparr>)
            }
          }
        }
      })"

text \<open>The casts of a byte to an enumeration, for bytes that passed the range check.\<close>

definition byte_kind :: "byte \<Rightarrow> CommandKind" where
  "byte_kind b = (if b = 1 then Limit else if b = 2 then Market else if b = 3 then Cancel else Modify)"

definition byte_side :: "byte \<Rightarrow> Side" where
  "byte_side b = (if b = 0 then Buy else Sell)"

definition byte_tif :: "byte \<Rightarrow> TimeInForce" where
  "byte_tif b = (if b = 0 then GTC else if b = 1 then IOC else FOK)"

text \<open>The fields of a record at \<open>rec\<close> whose checksum was right: \<open>None\<close> inside for a bad field.\<close>

definition decode_fields :: "byte list \<Rightarrow> nat \<Rightarrow> Command option option" where
  "decode_fields data rec =
     do {
       k \<leftarrow> nth_opt data rec;
       oid \<leftarrow> get data (rec + 1) 8;
       let c = default_Command\<lparr>kind := byte_kind k, c_id := oid\<rparr>;
       let p = rec + 9;
       case byte_kind k of
         Limit \<Rightarrow> do {
           p0 \<leftarrow> nth_opt data p;
           p1 \<leftarrow> nth_opt data (p + 1);
           if p0 > 1 \<or> p1 > 2 then Some None
           else do {
             pr \<leftarrow> get data (p + 2) 8;
             q \<leftarrow> get data (p + 10) 4;
             a \<leftarrow> get data (p + 14) 4;
             Some (Some (c\<lparr>c_side := byte_side p0, c_tif := byte_tif p1, c_price := Price pr,
               c_qty := ucast q, c_account := ucast a\<rparr>))
           }
         }
       | Market \<Rightarrow> do {
           p0 \<leftarrow> nth_opt data p;
           if p0 > 1 then Some None
           else do {
             q \<leftarrow> get data (p + 1) 4;
             a \<leftarrow> get data (p + 5) 4;
             Some (Some (c\<lparr>c_side := byte_side p0, c_qty := ucast q, c_account := ucast a\<rparr>))
           }
         }
       | Cancel \<Rightarrow> Some (Some c)
       | Modify \<Rightarrow> do {
           pr \<leftarrow> get data p 8;
           q \<leftarrow> get data (p + 8) 4;
           Some (Some (c\<lparr>c_price := Price pr, c_qty := ucast q\<rparr>))
         }
     }"

definition Reader_next :: "Reader \<Rightarrow> Command \<Rightarrow> (Status \<times> Command \<times> Reader) option" where
  "Reader_next r out =
     (if rd_pos r = length (rd_data r) then Some (End, out, r)
      else do {
        k \<leftarrow> nth_opt (rd_data r) (rd_pos r);
        let body = payload_size k + 1;
        if body = 1 then Some (BadKind, out, r)
        else if length (rd_data r) - rd_pos r < body + 4 then Some (Truncated, out, r)
        else do {
          bytes \<leftarrow> bytes_at (rd_data r) (rd_pos r) body;
          crc \<leftarrow> get (rd_data r) (rd_pos r + body) 4;
          if ucast (crc32 bytes) \<noteq> crc then Some (BadChecksum, out, r)
          else do {
            fields \<leftarrow> decode_fields (rd_data r) (rd_pos r);
            case fields of
              None \<Rightarrow> Some (BadField, out, r)
            | Some c \<Rightarrow> Some (Ok, c, r\<lparr>rd_pos := rd_pos r + (body + 4)\<rparr>)
          }
        }
      })"

section \<open>Enumerations\<close>

lemma kind_byte_simps [simp]: "kind_byte Limit = 1" "kind_byte Market = 2" "kind_byte Cancel = 3" "kind_byte Modify = 4"
  by (simp_all add: kind_byte_def)

lemma byte_kind_byte [simp]: "byte_kind (kind_byte k) = k"
  by (cases k) (simp_all add: byte_kind_def)

lemma byte_side_byte [simp]: "byte_side (side_byte s) = s" "\<not> side_byte s > 1"
  by (cases s; simp add: byte_side_def side_byte_def)+

lemma byte_tif_byte [simp]: "byte_tif (tif_byte t) = t" "\<not> tif_byte t > 2"
  by (cases t; simp add: byte_tif_def tif_byte_def)+

lemma byte_upto_2:
  assumes "\<not> (b :: byte) > 2"
  shows "b = 0 \<or> b = 1 \<or> b = 2"
proof -
  have "unat b \<in> {0, 1, 2}"
    using assms by (auto simp: not_less word_le_nat_alt)
  then show ?thesis
    by (auto simp: word_eq_iff_unsigned [where ?'a = nat])
qed

lemma side_byte_side: "\<not> b > 1 \<Longrightarrow> side_byte (byte_side b) = b"
  using byte_upto_2 [of b] by (auto simp: byte_side_def side_byte_def not_less word_le_nat_alt)

lemma tif_byte_tif: "\<not> b > 2 \<Longrightarrow> tif_byte (byte_tif b) = b"
  using byte_upto_2 [of b] by (auto simp: byte_tif_def tif_byte_def)

lemma payload_size_kind [simp]:
  "payload_size 1 = 26" "payload_size 2 = 17" "payload_size 3 = 8" "payload_size 4 = 20"
  by (simp_all add: payload_size_def)

lemma payload_size_cases:
  assumes "payload_size k \<noteq> 0"
  obtains "k = kind_byte Limit" | "k = kind_byte Market" | "k = kind_byte Cancel" | "k = kind_byte Modify"
  using assms by (auto simp: payload_size_def split: if_splits)

section \<open>One record\<close>

text \<open>The bytes of a record without its checksum.\<close>

definition record_body :: "Command \<Rightarrow> byte list" where
  "record_body c = [kind_byte (kind c)] @ put (c_id c) 8 @
     (case kind c of
        Limit \<Rightarrow> [side_byte (c_side c), tif_byte (c_tif c)] @ put (ticks (c_price c)) 8 @
                 put (ucast (c_qty c)) 4 @ put (ucast (c_account c)) 4
      | Market \<Rightarrow> [side_byte (c_side c)] @ put (ucast (c_qty c)) 4 @ put (ucast (c_account c)) 4
      | Cancel \<Rightarrow> []
      | Modify \<Rightarrow> put (ticks (c_price c)) 8 @ put (ucast (c_qty c)) 4)"

lemma encode_body: "encode c = record_body c @ put (ucast (crc32 (record_body c))) 4"
  by (simp add: encode_def record_body_def Let_def)

lemma length_record_body: "length (record_body c) = payload_size (kind_byte (kind c)) + 1"
  by (cases "kind c") (simp_all add: record_body_def)

lemma length_encode: "length (encode c) = payload_size (kind_byte (kind c)) + 5"
  by (simp add: encode_body length_record_body)

lemma decode_body:
  assumes "canonical c"
  shows "decode_fields (record_body c @ bs) 0 = Some (Some c)"
  using assms
  by (cases rule: canonical_cases)
    (simp_all add: decode_fields_def record_body_def get_def bytes_at_def limit_command_def market_command_def
      cancel_command_def modify_command_def default_Command_def nth_append nth_opt_def byte_kind_def)

lemma decode_fields_drop:
  assumes "p \<le> length data"
  shows "decode_fields (drop p data) 0 = decode_fields data p"
  by (simp add: decode_fields_def Let_def nth_opt_drop [OF assms] get_drop [OF assms] add.assoc cong: CommandKind.case_cong if_cong)

lemma segment:
  assumes "p + n \<le> length data" "n \<le> 8"
  shows "take n (drop p data) = put (get_bytes (take n (drop p data))) n"
  using assms by (intro put_get [symmetric]) simp_all

lemma put_ucast_4: "length bs = 4 \<Longrightarrow> put (ucast (ucast (get_bytes bs) :: 32 word)) 4 = bs"
  using put_get [of bs 4] by (simp add: get_pack)

lemma take_one: "i < length xs \<Longrightarrow> take 1 (drop i xs) = [xs ! i]"
  by (metis Cons_nth_drop_Suc take0 take_Suc_Cons One_nat_def)

lemmas field_simps = decode_fields_def get_def bytes_at_def canonical_def record_body_def default_Command_def
  put_get put_ucast_4 side_byte_side tif_byte_tif byte_kind_def

lemma decode_body_sound:
  assumes "payload_size (hd data) \<noteq> 0" "payload_size (hd data) + 1 \<le> length data"
  shows "\<exists>x. decode_fields data 0 = Some x"
    "decode_fields data 0 = Some (Some c) \<Longrightarrow> canonical c \<and> take (payload_size (hd data) + 1) data = record_body c"
proof -
  obtain k d where data: "data = k # d"
    using assms(2) by (cases data) auto
  have "payload_size k \<noteq> 0"
    using assms(1) data by simp
  then have all: "(\<exists>x. decode_fields data 0 = Some x) \<and>
    (decode_fields data 0 = Some (Some c) \<longrightarrow> canonical c \<and> take (payload_size k + 1) data = record_body c)"
  proof (cases rule: payload_size_cases)
    case 1
    then have len: "26 \<le> length d"
      using assms(2) data by simp
    then have "take 26 d = take 8 d @ [d ! 8, d ! 9] @ take 8 (drop 10 d) @ take 4 (drop 18 d) @ take 4 (drop 22 d)"
      using take_add [of 8 18 d] take_add [of 1 17 "drop 8 d"] take_add [of 1 16 "drop 9 d"] take_add [of 8 8 "drop 10 d"]
        take_add [of 4 4 "drop 18 d"] take_one [of 8 d] take_one [of 9 d] by simp
    with 1 len show ?thesis
      by (auto simp: data field_simps)
  next
    case 2
    then have len: "17 \<le> length d"
      using assms(2) data by simp
    then have "take 17 d = take 8 d @ [d ! 8] @ take 4 (drop 9 d) @ take 4 (drop 13 d)"
      using take_add [of 8 9 d] take_add [of 1 8 "drop 8 d"] take_add [of 4 4 "drop 9 d"] take_one [of 8 d] by simp
    with 2 len show ?thesis
      by (auto simp: data field_simps)
  next
    case 3
    then have "8 \<le> length d"
      using assms(2) data by simp
    with 3 show ?thesis
      by (auto simp: data field_simps)
  next
    case 4
    then have len: "20 \<le> length d"
      using assms(2) data by simp
    then have "take 20 d = take 8 d @ take 8 (drop 8 d) @ take 4 (drop 16 d)"
      using take_add [of 8 12 d] take_add [of 8 4 "drop 8 d"] by simp
    with 4 len show ?thesis
      by (auto simp: data field_simps)
  qed
  then show "\<exists>x. decode_fields data 0 = Some x"
    "decode_fields data 0 = Some (Some c) \<Longrightarrow> canonical c \<and> take (payload_size (hd data) + 1) data = record_body c"
    by (simp_all add: data)
qed

section \<open>The reader as a function of the bytes ahead\<close>

definition read_record :: "byte list \<Rightarrow> Status + (Command \<times> nat)" where
  "read_record bs =
     (if bs = [] then Inl End
      else let body = payload_size (hd bs) + 1
           in if body = 1 then Inl BadKind
              else if length bs < body + 4 then Inl Truncated
              else if crc32 (take body bs) \<noteq> pack (take 4 (drop body bs)) then Inl BadChecksum
              else case decode_fields bs 0 of Some (Some c) \<Rightarrow> Inr (c, body + 4) | _ \<Rightarrow> Inl BadField)"

lemma Reader_next_record:
  assumes "rd_pos r \<le> length (rd_data r)"
  shows "Reader_next r out =
    Some (case read_record (drop (rd_pos r) (rd_data r)) of
            Inl st \<Rightarrow> (st, out, r)
          | Inr (c, n) \<Rightarrow> (Ok, c, r\<lparr>rd_pos := rd_pos r + n\<rparr>))"
proof (cases "rd_pos r = length (rd_data r)")
  case True
  then show ?thesis
    by (simp add: Reader_next_def read_record_def)
next
  case False
  let ?bs = "drop (rd_pos r) (rd_data r)"
  let ?body = "payload_size (hd ?bs) + 1"
  have pos: "rd_pos r < length (rd_data r)"
    using assms False by simp
  then have hd: "rd_data r ! rd_pos r = hd ?bs" "?bs \<noteq> []"
    by (simp_all add: hd_drop_conv_nth)
  show ?thesis
  proof (cases "?body = 1 \<or> length ?bs < ?body + 4")
    case True
    then show ?thesis
      using pos hd by (auto simp: Reader_next_def read_record_def Let_def nth_opt_def)
  next
    case go: False
    have crc: "get (rd_data r) (rd_pos r + ?body) 4 = Some (ucast (pack (take 4 (drop ?body ?bs))))"
    proof -
      have "?body + 4 \<le> length ?bs"
        using go by simp
      moreover from this have "length (take 4 (drop ?body ?bs)) = 4"
        by simp
      ultimately show ?thesis
        unfolding get_drop [OF assms, symmetric] by (simp only: get_def bytes_at_in option.map get_pack)
    qed
    have body: "bytes_at (rd_data r) (rd_pos r) ?body = Some (take ?body ?bs)"
      using go pos by (auto simp: bytes_at_def)
    obtain x where x: "decode_fields (rd_data r) (rd_pos r) = Some x" "decode_fields ?bs 0 = Some x"
      using decode_body_sound(1) [of ?bs] go decode_fields_drop [OF assms] by auto
    show ?thesis
      using go pos hd crc body x
      by (auto simp: Reader_next_def read_record_def Let_def nth_opt_def split: option.splits)
  qed
qed

lemma read_record_encode:
  assumes "canonical c"
  shows "read_record (encode c @ bs) = Inr (c, length (encode c))"
proof -
  have hd: "hd (record_body c @ cs) = kind_byte (kind c)" "record_body c \<noteq> []" for cs
    by (simp_all add: record_body_def)
  have size: "payload_size (kind_byte (kind c)) \<noteq> 0"
    by (cases "kind c") simp_all
  have "pack (put (ucast (crc32 (record_body c))) 4) = crc32 (record_body c)"
    using get_pack [of "put (ucast (crc32 (record_body c))) 4"] by simp
  then show ?thesis
    using size decode_body [OF assms] length_record_body [of c]
    by (simp add: read_record_def encode_body hd Let_def)
qed

lemma read_record_sound:
  assumes "read_record bs = Inr (c, n)"
  shows "canonical c" "n = length (encode c)" "bs = encode c @ drop n bs"
proof -
  let ?body = "payload_size (hd bs) + 1"
  have rd: "?body \<noteq> 1" "?body + 4 \<le> length bs" "crc32 (take ?body bs) = pack (take 4 (drop ?body bs))"
      "decode_fields bs 0 = Some (Some c)" "n = ?body + 4"
    using assms by (auto simp: read_record_def Let_def split: if_splits option.splits)
  have c: "canonical c" "take ?body bs = record_body c"
    using decode_body_sound(2) [of bs c] rd by auto
  have len: "length (take 4 (drop ?body bs)) = 4"
    using rd(2) by simp
  have "put (ucast (crc32 (record_body c))) 4 = take 4 (drop ?body bs)"
    using put_get [OF len] get_pack [OF len] rd(3) c(2) by simp
  then have enc: "encode c = take n bs"
    using c(2) rd(5) take_add [of ?body 4 bs] by (simp add: encode_body)
  show "canonical c"
    by (rule c)
  show "n = length (encode c)"
    using enc rd(2,5) by simp
  show "bs = encode c @ drop n bs"
    using enc by simp
qed

lemma read_record_short:
  assumes "canonical c" "0 < k" "k < length (encode c)"
  shows "read_record (take k (encode c)) = Inl Truncated"
proof -
  obtain bs where enc: "encode c = kind_byte (kind c) # bs"
    by (simp add: encode_body record_body_def)
  then have "hd (take k (encode c)) = kind_byte (kind c)" "take k (encode c) \<noteq> []"
    using assms(2) by (cases k; simp)+
  moreover have "payload_size (kind_byte (kind c)) \<noteq> 0"
    by (cases "kind c") simp_all
  ultimately show ?thesis
    using assms(3) length_encode [of c] by (simp add: read_record_def Let_def)
qed

end
