(* ===== verification/Framing.thy ===== *)
theory Framing
  imports Engine_Prelude
begin

text \<open>
  Streams of records that follow each other without separators. The locale asks what a reader of one
  record has to promise; the lemmas say what then holds of reading a whole stream: it ends, what it
  accepts is exactly what was written, and a stream cut anywhere loses only the record that was cut.
\<close>

partial_function (option) read_all :: "('b list \<Rightarrow> 's + ('c \<times> nat)) \<Rightarrow> 'b list \<Rightarrow> ('c list \<times> 's \<times> nat) option" where
  "read_all rd bs =
     (case rd bs of
        Inl st \<Rightarrow> Some ([], st, 0)
      | Inr (c, n) \<Rightarrow> do { (cs, st, m) \<leftarrow> read_all rd (drop n bs); Some (c # cs, st, n + m) })"

declare read_all.simps [code]

locale framing =
  fixes enc :: "'c \<Rightarrow> 'b list"
    and ok :: "'c \<Rightarrow> bool"
    and rd :: "'b list \<Rightarrow> 's + ('c \<times> nat)"
    and eof :: 's
    and cut :: 's
  assumes enc_ne: "enc c \<noteq> []"
    and rd_nil: "rd [] = Inl eof"
    and rd_enc: "ok c \<Longrightarrow> rd (enc c @ bs) = Inr (c, length (enc c))"
    and rd_sound: "rd bs = Inr (c, n) \<Longrightarrow> ok c \<and> n = length (enc c) \<and> bs = enc c @ drop n bs"
    and rd_short: "ok c \<Longrightarrow> 0 < k \<Longrightarrow> k < length (enc c) \<Longrightarrow> rd (take k (enc c)) = Inl cut"
begin

lemma read_all_concat:
  "list_all ok cs \<Longrightarrow> rd tail = Inl st \<Longrightarrow>
   read_all rd (concat (map enc cs) @ tail) = Some (cs, st, length (concat (map enc cs)))"
proof (induction cs)
  case Nil
  then show ?case
    by (subst read_all.simps) simp
next
  case (Cons c cs)
  then show ?case
    by (subst read_all.simps) (simp add: rd_enc)
qed

text \<open>Reading always ends, after whole records, at the first position where no record starts.\<close>

lemma read_all_sound:
  "\<exists>cs st n. read_all rd bs = Some (cs, st, n) \<and> list_all ok cs \<and> take n bs = concat (map enc cs) \<and>
     n \<le> length bs \<and> rd (drop n bs) = Inl st"
proof (induction "length bs" arbitrary: bs rule: less_induct)
  case less
  show ?case
  proof (cases "rd bs")
    case (Inl st)
    then show ?thesis
      by (subst read_all.simps) (auto intro!: exI [of _ "[]"])
  next
    case (Inr p)
    obtain c n where p: "p = (c, n)"
      by (cases p)
    note sound = rd_sound [OF Inr [unfolded p]]
    have n: "n = length (enc c)" "bs = enc c @ drop n bs" "ok c"
      using sound by blast+
    have "length (drop n bs) < length bs"
      using n enc_ne [of c] by (metis length_append length_greater_0_conv less_add_same_cancel2)
    from less [OF this] obtain cs st m where ih: "read_all rd (drop n bs) = Some (cs, st, m)" "list_all ok cs"
        "take m (drop n bs) = concat (map enc cs)" "m \<le> length (drop n bs)" "rd (drop m (drop n bs)) = Inl st"
      by blast
    have "take n bs = enc c"
      using n(1,2) by (metis append_eq_conv_conj)
    then have "take (n + m) bs = concat (map enc (c # cs))"
      using ih(3) by (simp add: take_add)
    moreover have "n + m \<le> length bs"
      using ih(4) n(1,2) by (metis add_le_cancel_left length_append)
    moreover have "read_all rd bs = Some (c # cs, st, n + m)"
      using Inr p ih(1) by (subst read_all.simps) simp
    ultimately show ?thesis
      using ih(2,5) n(3) by (intro exI [of _ "c # cs"]) (simp add: add.commute)
  qed
qed

text \<open>A stream cut after \<open>k\<close> bytes loses exactly the records that are not whole.\<close>

lemma read_all_cut:
  "list_all ok cs \<Longrightarrow> k \<le> length (concat (map enc cs)) \<Longrightarrow>
   \<exists>j \<le> length cs. read_all rd (take k (concat (map enc cs))) =
       Some (take j cs, if k = length (concat (map enc (take j cs))) then eof else cut, length (concat (map enc (take j cs)))) \<and>
     length (concat (map enc (take j cs))) \<le> k \<and> (j < length cs \<longrightarrow> k < length (concat (map enc (take (Suc j) cs))))"
proof (induction cs arbitrary: k)
  case Nil
  then show ?case
    by (subst read_all.simps) (simp add: rd_nil)
next
  case (Cons c cs)
  then have c: "ok c" and cs: "list_all ok cs"
    by simp_all
  show ?case
  proof (cases "k < length (enc c)")
    case True
    then have "rd (take k (concat (map enc (c # cs)))) = Inl (if k = 0 then eof else cut)"
      using rd_short [OF c] rd_nil by simp
    with True show ?thesis
      by (subst read_all.simps) (auto intro!: exI [of _ 0])
  next
    case False
    let ?n = "length (enc c)"
    have k: "k - ?n \<le> length (concat (map enc cs))"
      using Cons.prems(2) by simp
    from Cons.IH [OF cs k] obtain j where j: "j \<le> length cs"
        "read_all rd (take (k - ?n) (concat (map enc cs))) = Some (take j cs,
           if k - ?n = length (concat (map enc (take j cs))) then eof else cut, length (concat (map enc (take j cs))))"
        "length (concat (map enc (take j cs))) \<le> k - ?n"
        "j < length cs \<longrightarrow> k - ?n < length (concat (map enc (take (Suc j) cs)))"
      by blast
    have "read_all rd (take k (concat (map enc (c # cs)))) = Some (take (Suc j) (c # cs),
        if k = length (concat (map enc (take (Suc j) (c # cs)))) then eof else cut, length (concat (map enc (take (Suc j) (c # cs)))))"
      using False j(2,3) rd_enc [OF c] by (subst read_all.simps) auto
    then show ?thesis
      using False j by (intro exI [of _ "Suc j"]) auto
  qed
qed

text \<open>No two different streams have the same bytes.\<close>

lemma streams_unique:
  assumes "list_all ok cs" "list_all ok ds" "concat (map enc cs) = concat (map enc ds)"
  shows "cs = ds"
  using read_all_concat [OF assms(1) rd_nil] read_all_concat [OF assms(2) rd_nil] assms(3) by simp

end

end
