(* ===== verification/Journal_Properties.thy ===== *)
theory Journal_Properties
  imports Journal Framing
begin

text \<open>
  What the journal promises: everything written reads back, a torn tail costs only the torn record, damage
  within four bytes of a record is noticed, and the reader never leaves its data.
\<close>

section \<open>Records as a stream\<close>

interpretation jf: framing encode canonical read_record End Truncated
proof unfold_locales
  show "encode c \<noteq> []" for c
    by (simp add: encode_body record_body_def)
  show "read_record [] = Inl End"
    by (simp add: read_record_def)
qed (auto simp: read_record_encode read_record_short dest: read_record_sound)

text \<open>A client's loop over \<open>next\<close>, and a client that opens a journal and reads all of it.\<close>

partial_function (option) drain :: "Reader \<Rightarrow> Command \<Rightarrow> (Command list \<times> Status \<times> Reader) option" where
  "drain r c =
     do {
       (st, c, r) \<leftarrow> Reader_next r c;
       if st = Ok then do { (cs, st, r) \<leftarrow> drain r c; Some (c # cs, st, r) }
       else Some ([], st, r)
     }"

declare drain.simps [code]

definition read_journal :: "byte list \<Rightarrow> (Status \<times> Index \<times> Command list \<times> Status \<times> nat) option" where
  "read_journal data =
     do {
       (opened, r) \<leftarrow> Reader_open (Reader_new data);
       if opened \<noteq> Ok then Some (opened, pool_capacity r, [], opened, valid_bytes r)
       else do { (cs, st, r) \<leftarrow> drain r default_Command; Some (Ok, pool_capacity r, cs, st, valid_bytes r) }
     }"

lemma read_record_not_Ok: "read_record bs \<noteq> Inl Ok"
  by (auto simp: read_record_def Let_def split: option.splits)

lemma drain_all:
  assumes "rd_pos r \<le> length (rd_data r)" "read_all read_record (drop (rd_pos r) (rd_data r)) = Some (cs, st, n)"
  shows "drain r out = Some (cs, st, r\<lparr>rd_pos := rd_pos r + n\<rparr>)"
  using assms
proof (induction cs arbitrary: r out n)
  case Nil
  have "read_record (drop (rd_pos r) (rd_data r)) = Inl st \<and> n = 0"
    using Nil.prems(2) by (subst (asm) read_all.simps) (auto split: sum.splits)
  then show ?case
    using Nil.prems(1) read_record_not_Ok by (subst drain.simps) (auto simp: Reader_next_record)
next
  case (Cons c cs)
  obtain k m where rd: "read_record (drop (rd_pos r) (rd_data r)) = Inr (c, k)"
      "read_all read_record (drop k (drop (rd_pos r) (rd_data r))) = Some (cs, st, m)" "n = k + m"
    using Cons.prems(2) by (subst (asm) read_all.simps) (auto split: sum.splits)
  let ?r = "r\<lparr>rd_pos := rd_pos r + k\<rparr>"
  have "length (drop (rd_pos r) (rd_data r)) \<ge> k"
    using read_record_sound(2,3) [OF rd(1)] by (metis length_append le_add1)
  then have "rd_pos ?r \<le> length (rd_data ?r)"
    using Cons.prems(1) by simp
  then have "drain ?r c = Some (cs, st, ?r\<lparr>rd_pos := rd_pos ?r + m\<rparr>)"
    by (rule Cons.IH) (use rd(2) in \<open>simp add: add.commute\<close>)
  then show ?case
    using Cons.prems(1) rd by (subst drain.simps) (simp add: Reader_next_record add.assoc)
qed

section \<open>Headers\<close>

definition header_body :: "Index \<Rightarrow> byte list" where
  "header_body cap = kMagic @ put (ucast kVersion) 4 @ put (ucast cap) 4"

lemma encode_header_body: "encode_header cap = header_body cap @ put (ucast (crc32 (header_body cap))) 4"
  by (simp add: encode_header_def header_body_def Let_def)

lemma length_header [simp]: "length (header_body cap) = 16" "length (encode_header cap) = 20"
  by (simp_all add: encode_header_body header_body_def kMagic_def)

lemma Reader_open_header:
  "Reader_open (Reader_new (encode_header cap @ bs)) =
     Some (Ok, \<lparr>rd_data = encode_header cap @ bs, rd_pos = 20, rd_capacity = cap\<rparr>)"
proof -
  have "take 16 (encode_header cap @ bs) = header_body cap"
    by (simp add: encode_header_body)
  moreover have "take 8 (encode_header cap @ bs) = kMagic" "take 4 (drop 8 (encode_header cap @ bs)) = put (ucast kVersion) 4"
      "take 4 (drop 12 (encode_header cap @ bs)) = put (ucast cap) 4"
      "take 4 (drop 16 (encode_header cap @ bs)) = put (ucast (crc32 (header_body cap))) 4"
    by (simp_all add: encode_header_body header_body_def kMagic_def)
  ultimately show ?thesis
    by (simp add: Reader_open_def Reader_new_def kHeaderSize_def bytes_at_def get_def)
qed

lemma Reader_open_total: "\<exists>st r. Reader_open (Reader_new data) = Some (st, r)"
  by (simp add: Reader_open_def Reader_new_def kHeaderSize_def bytes_at_def get_def)

lemma Reader_open_sound:
  assumes "Reader_open (Reader_new data) = Some (Ok, r)"
  shows "20 \<le> length data" "take 20 data = encode_header (rd_capacity r)" "rd_pos r = 20" "rd_data r = data"
proof -
  have rd: "20 \<le> length data" "take 8 data = kMagic" "ucast (crc32 (take 16 data)) = get_bytes (take 4 (drop 16 data))"
      "get_bytes (take 4 (drop 8 data)) = ucast kVersion"
      "r = \<lparr>rd_data = data, rd_pos = 20, rd_capacity = ucast (get_bytes (take 4 (drop 12 data)))\<rparr>"
    using assms by (auto simp: Reader_open_def Reader_new_def kHeaderSize_def bytes_at_def get_def split: if_splits)
  then show "20 \<le> length data" "rd_pos r = 20" "rd_data r = data"
    by simp_all
  have seg: "put (get_bytes (take 4 (drop p data))) 4 = take 4 (drop p data)" if "p \<le> 16" for p
    using rd(1) that by (intro put_get) simp_all
  have body: "take 16 data = header_body (rd_capacity r)"
    using take_add [of 8 8 data] take_add [of 4 4 "drop 8 data"] rd(2) seg [of 8] rd(1,4,5) put_ucast_4 [of "take 4 (drop 12 data)"]
    by (simp add: header_body_def)
  then show "take 20 data = encode_header (rd_capacity r)"
    using take_add [of 16 4 data] seg [of 16] rd(3) by (simp add: encode_header_body)
qed

lemma read_journal_open:
  assumes "read_all read_record bs = Some (cs, st, n)"
  shows "read_journal (encode_header cap @ bs) = Some (Ok, cap, cs, st, 20 + n)"
  using drain_all [of "\<lparr>rd_data = encode_header cap @ bs, rd_pos = 20, rd_capacity = cap\<rparr>"] assms
  by (simp add: read_journal_def Reader_open_header pool_capacity_def valid_bytes_def)

definition journal_of :: "Index \<Rightarrow> Command list \<Rightarrow> byte list" where
  "journal_of cap cs = encode_header cap @ concat (map encode cs)"

section \<open>Reading back\<close>

text \<open>C23. A journal of canonical commands, the ones the builders make, reads back completely: the header gives the
  capacity, the records give the commands in order, and reading ends cleanly at the last byte.\<close>

theorem journal_reads_back:
  assumes "list_all canonical cs"
  shows "read_journal (journal_of cap cs) = Some (Ok, cap, cs, End, length (journal_of cap cs))"
  using read_journal_open [OF jf.read_all_concat [OF assms jf.rd_nil]] by (simp add: journal_of_def)

definition sample_journal :: "Command list" where
  "sample_journal = [limit_command 1 Sell (Price 101) 5 7 GTC, modify_command 1 (Price 102) 4, market_command 2 Buy 3 8, cancel_command 1]"

lemma sample_journal_canonical: "list_all canonical sample_journal"
  by (simp add: sample_journal_def)

lemma length_sample_journal: "length (journal_of 4 sample_journal) = 111"
  by (simp add: journal_of_def sample_journal_def length_encode limit_command_def modify_command_def market_command_def cancel_command_def)

theorem journal_reads_back_witness:
  "read_journal (journal_of 4 sample_journal) = Some (Ok, 4, sample_journal, End, 111)"
  using journal_reads_back [OF sample_journal_canonical, of 4] by (simp add: length_sample_journal)

text \<open>C25. A journal cut anywhere behind its header, as a crash in the middle of a write leaves it, reads back the
  whole records before the cut. Reading ends there, cleanly when the cut is between two records and with
  \<open>Truncated\<close> otherwise.\<close>

theorem torn_journal_recovers:
  assumes "list_all canonical cs" "20 \<le> k" "k \<le> length (journal_of cap cs)"
  shows "\<exists>j \<le> length cs. let n = length (journal_of cap (take j cs)) in
    read_journal (take k (journal_of cap cs)) = Some (Ok, cap, take j cs, if k = n then End else Truncated, n) \<and>
    n \<le> k \<and> (j < length cs \<longrightarrow> k < length (journal_of cap (take (Suc j) cs)))"
proof -
  have "k - 20 \<le> length (concat (map encode cs))"
    using assms(3) by (simp add: journal_of_def)
  from jf.read_all_cut [OF assms(1) this] obtain j where j: "j \<le> length cs"
      "read_all read_record (take (k - 20) (concat (map encode cs))) = Some (take j cs,
         if k - 20 = length (concat (map encode (take j cs))) then End else Truncated, length (concat (map encode (take j cs))))"
      "length (concat (map encode (take j cs))) \<le> k - 20"
      "j < length cs \<longrightarrow> k - 20 < length (concat (map encode (take (Suc j) cs)))"
    by blast
  show ?thesis
    using j read_journal_open [OF j(2), of cap] assms(2) by (intro exI [of _ j]) (auto simp: journal_of_def Let_def)
qed

theorem torn_journal_recovers_witness:
  "\<exists>j \<le> length sample_journal. let n = length (journal_of 4 (take j sample_journal)) in
    read_journal (take 60 (journal_of 4 sample_journal)) = Some (Ok, 4, take j sample_journal, if 60 = n then End else Truncated, n) \<and>
    n \<le> 60 \<and> (j < length sample_journal \<longrightarrow> 60 < length (journal_of 4 (take (Suc j) sample_journal)))"
  by (rule torn_journal_recovers [OF sample_journal_canonical]) (simp_all add: length_sample_journal)

lemma journal_cases:
  obtains (unopened) st cap where "read_journal data = Some (st, cap, [], st, 0)" "st \<noteq> Ok"
  | (opened) cap cs st n where "read_journal data = Some (Ok, cap, cs, st, n)" "list_all canonical cs" "n \<le> length data"
      "take n data = journal_of cap cs" "st \<noteq> Ok"
proof -
  obtain op r where op: "Reader_open (Reader_new data) = Some (op, r)"
    using Reader_open_total by blast
  show ?thesis
  proof (cases "op = Ok")
    case False
    then have "rd_pos r = 0"
      using op by (auto simp: Reader_open_def Reader_new_def bytes_at_def get_def split: if_splits)
    then show ?thesis
      using op False unopened by (simp add: read_journal_def valid_bytes_def)
  next
    case True
    note hdr = Reader_open_sound [OF op [unfolded True]]
    obtain cs st n where rd: "read_all read_record (drop 20 data) = Some (cs, st, n)" "list_all canonical cs"
        "take n (drop 20 data) = concat (map encode cs)" "n \<le> length (drop 20 data)" "read_record (drop n (drop 20 data)) = Inl st"
      using jf.read_all_sound by blast
    have "drain r default_Command = Some (cs, st, r\<lparr>rd_pos := rd_pos r + n\<rparr>)"
      using hdr rd(1) by (intro drain_all) simp_all
    then have "read_journal data = Some (Ok, rd_capacity r, cs, st, 20 + n)"
      using op True hdr(3) by (simp add: read_journal_def pool_capacity_def valid_bytes_def)
    moreover have "st \<noteq> Ok" "20 + n \<le> length data"
      using rd(4,5) hdr(1) read_record_not_Ok by auto
    ultimately show ?thesis
      using opened [of "rd_capacity r" cs st "20 + n"] rd(2,3) hdr(2) by (simp add: take_add journal_of_def)
  qed
qed

text \<open>C24. On any bytes at all the reader ends without leaving them. When the header is good, the bytes up to
  \<open>valid_bytes\<close> are exactly the journal of the commands it read.\<close>

theorem reader_total_and_exact:
  "\<exists>opened cap cs stop n. read_journal data = Some (opened, cap, cs, stop, n) \<and> n \<le> length data \<and>
    (opened = Ok \<longrightarrow> list_all canonical cs \<and> take n data = journal_of cap cs \<and> stop \<noteq> Ok) \<and>
    (opened \<noteq> Ok \<longrightarrow> cs = [] \<and> n = 0)"
  by (cases rule: journal_cases [of data]) auto

theorem reader_total_and_exact_witness:
  "\<exists>cap cs stop n. read_journal (encode_header 4) = Some (Ok, cap, cs, stop, n) \<and> list_all canonical cs \<and>
     take n (encode_header 4) = journal_of cap cs"
proof -
  have "\<exists>cap cs stop n. read_journal (encode_header 4) = Some (opened, cap, cs, stop, n) \<Longrightarrow> opened = Ok" for opened
    using Reader_open_header [of 4 "[]"] by (auto simp: read_journal_def split: if_splits)
  then show ?thesis
    using reader_total_and_exact [of "encode_header 4"] by metis
qed

section \<open>Damage\<close>

text \<open>C27. The table-driven checksum is the CRC-32 that shifts one bit at a time through the reflected polynomial
  0xEDB88320; its check value is the standard one.\<close>

theorem crc32_is_bitwise:
  "crc32 data = crc32_bitwise data \<and> crc32 [0x31, 0x32, 0x33, 0x34, 0x35, 0x36, 0x37, 0x38, 0x39] = 0xCBF43926"
proof
  show "crc32 data = crc32_bitwise data"
    by (rule crc32_bitwise_eq)
  show "crc32 [0x31, 0x32, 0x33, 0x34, 0x35, 0x36, 0x37, 0x38, 0x39] = 0xCBF43926"
    by (simp add: crc_eval)
qed

text \<open>C26. A record of which up to four consecutive bytes behind the kind byte were changed, its checksum included,
  is reported as \<open>BadChecksum\<close>: it is neither accepted nor skipped.\<close>

theorem damage_detected:
  assumes "canonical c" "encode c = as @ m @ bs" "as \<noteq> []" "length m' = length m" "length m \<le> 4" "m' \<noteq> m"
  shows "Reader_next \<lparr>rd_data = pre @ as @ m' @ bs @ post, rd_pos = length pre, rd_capacity = cap\<rparr> out =
    Some (BadChecksum, out, \<lparr>rd_data = pre @ as @ m' @ bs @ post, rd_pos = length pre, rd_capacity = cap\<rparr>)"
proof -
  let ?d = "as @ m' @ bs" and ?n = "length (record_body c)"
  have hd: "hd (?d @ post) = kind_byte (kind c)"
    using assms(2,3) by (cases as) (auto simp: encode_body record_body_def)
  have size: "payload_size (kind_byte (kind c)) + 1 = ?n" "payload_size (kind_byte (kind c)) \<noteq> 0"
    by (simp add: length_record_body) (cases "kind c"; simp)
  have len: "length ?d = ?n + 4"
    using arg_cong [OF assms(2), of length] assms(4) by (simp add: encode_body)
  have "foldl crc_update 0xFFFFFFFF (encode c) = crc_residue"
    using crc_check_residue [of "put (ucast (crc32 (record_body c))) 4" "record_body c"]
      get_pack [of "put (ucast (crc32 (record_body c))) 4"] by (simp add: encode_body)
  moreover have "foldl crc_update 0xFFFFFFFF ?d \<noteq> foldl crc_update 0xFFFFFFFF (encode c)"
    unfolding assms(2) by (rule crc_burst) (use assms(4-6) in simp_all)
  ultimately have "foldl crc_update 0xFFFFFFFF ?d \<noteq> crc_residue"
    by simp
  moreover have "?d = take ?n ?d @ drop ?n ?d"
    by (rule append_take_drop_id [symmetric])
  moreover have "length (drop ?n ?d) = 4"
    using len by simp
  ultimately have bad: "crc32 (take ?n ?d) \<noteq> pack (drop ?n ?d)"
    using crc_check_residue [of "drop ?n ?d" "take ?n ?d"] by metis
  have "read_record (?d @ post) = Inl BadChecksum"
    using hd size len bad assms(3) by (simp add: read_record_def Let_def)
  then show ?thesis
    by (subst Reader_next_record) simp_all
qed

theorem damage_detected_witness:
  "let d = [0x03, 0x02] @ drop 2 (encode (cancel_command 1)); r = \<lparr>rd_data = d, rd_pos = 0, rd_capacity = 0\<rparr>
   in Reader_next r default_Command = Some (BadChecksum, default_Command, r)"
proof -
  have "encode (cancel_command 1) = [0x03] @ [0x01] @ drop 2 (encode (cancel_command 1))"
    by (simp add: encode_body record_body_def cancel_command_def put_def upt_rec)
  from damage_detected [OF built_canonical(3) this, of "[0x02]" "[]" "[]" 0 default_Command] show ?thesis
    by (simp add: Let_def)
qed

end
