(* ===== verification/Journal_Writer.thy ===== *)
theory Journal_Writer
  imports Journal_Properties
begin

text \<open>
  The writer of \<open>include/engine/journal.hpp\<close> and \<open>load\<close>. A stdio stream is what has reached the file and what
  still sits in its buffer. What the library makes of a call is an argument: how many bytes \<open>fwrite\<close> takes, how
  much of the buffer it passes on by itself, whether \<open>fflush\<close> succeeds and how much it passes on when it fails.
\<close>

section \<open>Streams\<close>

record File =
  f_disk :: "byte list"
  f_pending :: "byte list"

record Io =
  io_accepted :: nat
  io_early :: nat
  io_flush_ok :: bool
  io_flushed :: nat

definition spill :: "nat \<Rightarrow> File \<Rightarrow> File" where
  "spill k f = f\<lparr>f_disk := f_disk f @ take k (f_pending f), f_pending := drop k (f_pending f)\<rparr>"

definition fwrite :: "Io \<Rightarrow> File \<Rightarrow> byte list \<Rightarrow> nat \<times> File" where
  "fwrite io f bytes =
     (let n = min (io_accepted io) (length bytes)
      in (n, spill (io_early io) (f\<lparr>f_pending := f_pending f @ take n bytes\<rparr>)))"

definition fflush :: "Io \<Rightarrow> File \<Rightarrow> bool \<times> File" where
  "fflush io f =
     (if io_flush_ok io then (True, spill (length (f_pending f)) f) else (False, spill (io_flushed io) f))"

text \<open>\<open>fclose\<close> tries to pass on the buffer too; \<open>k\<close> bytes of it reach the file.\<close>

definition fclose :: "nat \<Rightarrow> File \<Rightarrow> byte list" where
  "fclose k f = f_disk (spill k f)"

section \<open>Writer\<close>

record Writer =
  w_file :: "File option"
  w_failed :: bool

definition Writer_new :: Writer where
  "Writer_new = \<lparr>w_file = None, w_failed = False\<rparr>"

definition Writer_write :: "Io \<Rightarrow> Writer \<Rightarrow> byte list \<Rightarrow> bool \<times> Writer" where
  "Writer_write io w bytes =
     (case w_file w of
        None \<Rightarrow> (False, w)
      | Some f \<Rightarrow>
          if w_failed w then (False, w)
          else let (n, f) = fwrite io f bytes
               in if n \<noteq> length bytes then (False, w\<lparr>w_file := Some f, w_failed := True\<rparr>)
                  else let (ok, f) = fflush io f
                       in if \<not> ok then (False, w\<lparr>w_file := Some f, w_failed := True\<rparr>)
                          else (True, w\<lparr>w_file := Some f\<rparr>))"

text \<open>\<open>close\<close>, with the bytes of the file it closed, when there was one.\<close>

definition Writer_close :: "nat \<Rightarrow> Writer \<Rightarrow> byte list option \<times> Writer" where
  "Writer_close k w = (map_option (fclose k) (w_file w), w\<lparr>w_file := None\<rparr>)"

definition Writer_open :: "bool \<Rightarrow> nat \<Rightarrow> Io \<Rightarrow> Writer \<Rightarrow> Index \<Rightarrow> bool \<times> Writer" where
  "Writer_open fopen_ok k io w cap =
     (let (_, w) = Writer_close k w;
          w = w\<lparr>w_failed := False\<rparr>;
          w = w\<lparr>w_file := (if fopen_ok then Some \<lparr>f_disk = [], f_pending = []\<rparr> else None)\<rparr>
      in if w_file w = None then (False, w)
         else Writer_write io w (encode_header cap))"

definition Writer_append :: "Io \<Rightarrow> Writer \<Rightarrow> Command \<Rightarrow> bool \<times> Writer" where
  "Writer_append io w c = Writer_write io w (encode c)"

section \<open>Load\<close>

text \<open>\<open>None\<close>: the file cannot be opened. Otherwise the bytes \<open>fread\<close> delivers, and whether it then fails.\<close>

function load_chunks :: "byte list \<Rightarrow> byte list \<Rightarrow> byte list" where
  "load_chunks f out =
     (let n = min 4096 (length f) in if n > 0 then load_chunks (drop n f) (out @ take n f) else out)"
  by auto
termination
  by (relation "measure (length \<circ> fst)") auto

declare load_chunks.simps [simp del]

definition load :: "(byte list \<times> bool) option \<Rightarrow> byte list \<Rightarrow> bool \<times> byte list" where
  "load file out = (case file of None \<Rightarrow> (False, out) | Some (f, failed) \<Rightarrow> (\<not> failed, load_chunks f []))"

lemma load_chunks_all: "load_chunks f out = out @ f"
proof (induction f out rule: load_chunks.induct)
  case (1 f out)
  then show ?case
    by (subst load_chunks.simps) (auto simp: Let_def)
qed

section \<open>What is in the file\<close>

text \<open>The commands appended so far, oldest first, and the answers.\<close>

fun appends :: "Writer \<Rightarrow> (Io \<times> Command) list \<Rightarrow> bool list \<times> Writer" where
  "appends w [] = ([], w)"
| "appends w ((io, c) # cs) =
     (case Writer_append io w c of (ok, w) \<Rightarrow> case appends w cs of (oks, w) \<Rightarrow> (ok # oks, w))"

definition good_writer :: "Index \<Rightarrow> Command list \<Rightarrow> Writer \<Rightarrow> bool" where
  "good_writer cap cs w \<longleftrightarrow> w = \<lparr>w_file = Some \<lparr>f_disk = journal_of cap cs, f_pending = []\<rparr>, w_failed = False\<rparr>"

definition torn_writer :: "Index \<Rightarrow> Command list \<Rightarrow> Command \<Rightarrow> Writer \<Rightarrow> bool" where
  "torn_writer cap cs c w \<longleftrightarrow> w_failed w \<and> (\<exists>f a b. w_file w = Some f \<and> f_disk f = journal_of cap cs @ take a (encode c) \<and>
     f_pending f = take b (drop a (encode c)))"

lemma journal_of_snoc: "journal_of cap (cs @ [c]) = journal_of cap cs @ encode c"
  by (simp add: journal_of_def)

lemma torn_file:
  assumes "f_disk f = d @ take a e" "f_pending f = take b (drop a e)"
  shows "\<exists>a b. f_disk (spill k f) = d @ take a e \<and> f_pending (spill k f) = take b (drop a e)"
proof -
  let ?m = "min k b"
  have "f_disk (spill k f) = d @ take (a + ?m) e"
    using assms by (simp add: spill_def take_add)
  moreover have "f_pending (spill k f) = take (b - k) (drop (a + ?m) e)"
    using assms by (cases "k \<le> b") (simp_all add: spill_def drop_take add.commute)
  ultimately show ?thesis
    by blast
qed

lemma append_good:
  assumes "good_writer cap cs w" "Writer_append io w c = (ok, w')"
  shows "ok \<Longrightarrow> good_writer cap (cs @ [c]) w'" "\<not> ok \<Longrightarrow> torn_writer cap cs c w'"
proof -
  let ?n = "min (io_accepted io) (length (encode c))"
  let ?f = "\<lparr>f_disk = journal_of cap cs, f_pending = take ?n (encode c)\<rparr>"
  obtain a b where f1: "f_disk (spill (io_early io) ?f) = journal_of cap cs @ take a (encode c)"
      "f_pending (spill (io_early io) ?f) = take b (drop a (encode c))"
    using torn_file [of ?f "journal_of cap cs" 0 "encode c" ?n "io_early io"] by auto
  obtain a' b' where f2: "f_disk (spill (io_flushed io) (spill (io_early io) ?f)) = journal_of cap cs @ take a' (encode c)"
      "f_pending (spill (io_flushed io) (spill (io_early io) ?f)) = take b' (drop a' (encode c))"
    using torn_file [OF f1, of "io_flushed io"] by auto
  have w: "(ok, w') =
      (if ?n \<noteq> length (encode c) then (False, \<lparr>w_file = Some (spill (io_early io) ?f), w_failed = True\<rparr>)
       else if \<not> io_flush_ok io then (False, \<lparr>w_file = Some (spill (io_flushed io) (spill (io_early io) ?f)), w_failed = True\<rparr>)
       else (True, \<lparr>w_file = Some (spill (length (f_pending (spill (io_early io) ?f))) (spill (io_early io) ?f)), w_failed = False\<rparr>))"
    using assms by (auto simp: good_writer_def Writer_append_def Writer_write_def fwrite_def fflush_def Let_def split: if_splits)
  show "torn_writer cap cs c w'" if "\<not> ok"
    using w that f1 f2 by (auto simp: torn_writer_def split: if_splits)
  show "good_writer cap (cs @ [c]) w'" if "ok"
  proof -
    have "?n = length (encode c)"
        "w' = \<lparr>w_file = Some (spill (length (f_pending (spill (io_early io) ?f))) (spill (io_early io) ?f)), w_failed = False\<rparr>"
      using w that by (auto split: if_splits)
    then show ?thesis
      by (simp add: good_writer_def spill_def journal_of_snoc)
  qed
qed

lemma appends_torn: "torn_writer cap cs c w \<Longrightarrow> appends w ds = (replicate (length ds) False, w)"
  by (induction ds) (auto simp: torn_writer_def Writer_append_def Writer_write_def)

lemma appends_good:
  assumes "good_writer cap cs w" "appends w ds = (oks, w')"
  shows "\<exists>n \<le> length ds. oks = replicate n True @ replicate (length ds - n) False \<and>
    (if n = length ds then good_writer cap (cs @ map snd ds) w'
     else torn_writer cap (cs @ map snd (take n ds)) (snd (ds ! n)) w')"
  using assms
proof (induction ds arbitrary: cs w oks)
  case (Cons d ds)
  obtain io c where d: "d = (io, c)"
    by (cases d)
  obtain ok w1 oks1 where step: "Writer_append io w c = (ok, w1)" "appends w1 ds = (oks1, w')" "oks = ok # oks1"
    using Cons.prems(2) d by (auto split: prod.splits)
  show ?case
  proof (cases ok)
    case True
    from Cons.IH [OF append_good(1) [OF Cons.prems(1) step(1) True] step(2)] obtain n where "n \<le> length ds"
        "oks1 = replicate n True @ replicate (length ds - n) False"
        "if n = length ds then good_writer cap ((cs @ [c]) @ map snd ds) w'
         else torn_writer cap ((cs @ [c]) @ map snd (take n ds)) (snd (ds ! n)) w'"
      by blast
    then show ?thesis
      using True step(3) d by (intro exI [of _ "Suc n"]) auto
  next
    case False
    note torn = append_good(2) [OF Cons.prems(1) step(1) False]
    then show ?thesis
      using False step(2,3) appends_torn [OF torn, of ds] d by (intro exI [of _ 0]) auto
  qed
qed simp

lemma open_good:
  assumes "Writer_open fopen_ok k io w cap = (True, w')"
  shows "good_writer cap [] w'"
proof -
  let ?f = "spill (io_early io) \<lparr>f_disk = [], f_pending = take (min (io_accepted io) 20) (encode_header cap)\<rparr>"
  have n: "20 \<le> io_accepted io" and w: "w' = \<lparr>w_file = Some (spill (length (f_pending ?f)) ?f), w_failed = False\<rparr>"
    using assms by (auto simp: Writer_open_def Writer_close_def Writer_write_def fwrite_def fflush_def Let_def split: if_splits)
  show ?thesis
    using n by (simp add: w good_writer_def spill_def journal_of_def min_absorb2)
qed

lemma torn_image:
  assumes "list_all canonical cs" "canonical c"
  shows "\<exists>m st. read_journal (journal_of cap cs @ take a (encode c)) =
      Some (Ok, cap, take m (cs @ [c]), st, length (journal_of cap (take m (cs @ [c])))) \<and>
    (m = length cs \<or> m = Suc (length cs)) \<and> st \<in> {End, Truncated}"
proof (cases "length (encode c) \<le> a")
  case True
  have "list_all canonical (cs @ [c])"
    using assms by simp
  from jf.read_all_concat [OF this jf.rd_nil] have
    "read_journal (journal_of cap (cs @ [c])) = Some (Ok, cap, cs @ [c], End, length (journal_of cap (cs @ [c])))"
    using read_journal_open by (simp add: journal_of_def)
  then show ?thesis
    using True by (intro exI [of _ "Suc (length cs)"] exI [of _ End]) (simp add: journal_of_snoc)
next
  case False
  then have "read_record (take a (encode c)) = Inl (if a = 0 then End else Truncated)"
    using jf.rd_short [OF assms(2), of a] jf.rd_nil by auto
  from jf.read_all_concat [OF assms(1) this] have
    "read_journal (journal_of cap cs @ take a (encode c)) =
       Some (Ok, cap, cs, if a = 0 then End else Truncated, length (journal_of cap cs))"
    using read_journal_open by (simp add: journal_of_def)
  then show ?thesis
    by (intro exI [of _ "length cs"] exI [of _ "if a = 0 then End else Truncated"]) simp
qed

text \<open>C28. Once an append has failed all later ones fail. Whatever the library did, the closed file, loaded and
  read, gives the commands whose appends succeeded, and at most the first one that failed besides.\<close>

theorem acknowledged_commands_survive:
  assumes "Writer_open fopen_ok k0 io0 w cap = (True, w0)" "appends w0 ds = (oks, w1)" "list_all canonical (map snd ds)"
  shows "\<exists>n \<le> length ds. oks = replicate n True @ replicate (length ds - n) False \<and>
    (\<exists>image m stop. fst (Writer_close k w1) = Some image \<and>
       read_journal (snd (load (Some (image, False)) out)) =
         Some (Ok, cap, take m (map snd ds), stop, length (journal_of cap (take m (map snd ds)))) \<and>
       (m = n \<or> m = Suc n \<and> n < length ds) \<and> stop \<in> {End, Truncated})"
proof -
  from appends_good [OF open_good [OF assms(1)] assms(2), unfolded append_Nil] obtain n where n: "n \<le> length ds"
      "oks = replicate n True @ replicate (length ds - n) False"
      "if n = length ds then good_writer cap (map snd ds) w1 else torn_writer cap (map snd (take n ds)) (snd (ds ! n)) w1"
    by blast
  have load: "snd (load (Some (image, False)) out) = image" for image
    by (simp add: load_def load_chunks_all)
  show ?thesis
  proof (cases "n = length ds")
    case True
    then have "fst (Writer_close k w1) = Some (journal_of cap (map snd ds))"
      using n(3) by (simp add: good_writer_def Writer_close_def fclose_def spill_def)
    moreover have "read_journal (journal_of cap (map snd ds)) =
        Some (Ok, cap, map snd ds, End, length (journal_of cap (map snd ds)))"
      using read_journal_open [OF jf.read_all_concat [OF assms(3) jf.rd_nil]] by (simp add: journal_of_def)
    ultimately show ?thesis
      using n(1,2) True load by (intro exI [of _ n]) auto
  next
    case False
    let ?cs = "map snd (take n ds)" and ?c = "snd (ds ! n)"
    obtain f a b where f: "w_file w1 = Some f" "f_disk f = journal_of cap ?cs @ take a (encode ?c)"
        "f_pending f = take b (drop a (encode ?c))"
      using n(3) False by (auto simp: torn_writer_def)
    obtain a' where img: "fst (Writer_close k w1) = Some (journal_of cap ?cs @ take a' (encode ?c))"
      using torn_file [OF f(2,3), of k] f(1) by (auto simp: Writer_close_def fclose_def)
    have split: "?cs @ [?c] = take (Suc n) (map snd ds)" "length ?cs = n" "n < length ds"
      using n(1) False by (simp_all add: take_Suc_conv_app_nth take_map)
    have "list_all canonical ?cs" "canonical ?c"
      using assms(3) split(3) by (auto simp: list_all_iff dest: in_set_takeD)
    from torn_image [OF this, of cap a'] obtain m stop where
      "read_journal (journal_of cap ?cs @ take a' (encode ?c)) = Some (Ok, cap, take m (?cs @ [?c]), stop,
         length (journal_of cap (take m (?cs @ [?c]))))" "m = n \<or> m = Suc n" "stop \<in> {End, Truncated}"
      using split(2) by auto
    moreover from this(2) have "take m (?cs @ [?c]) = take m (map snd ds)"
      unfolding split(1) by auto
    ultimately show ?thesis
      using n(1,2) img load split(3) by (intro exI [of _ n]) auto
  qed
qed

definition io_fine :: Io where
  "io_fine = \<lparr>io_accepted = 100, io_early = 0, io_flush_ok = True, io_flushed = 0\<rparr>"

definition io_full :: Io where
  "io_full = \<lparr>io_accepted = 100, io_early = 2, io_flush_ok = False, io_flushed = 3\<rparr>"

definition sample_appends :: "(Io \<times> Command) list" where
  "sample_appends = [(io_fine, cancel_command 1), (io_full, cancel_command 2), (io_fine, cancel_command 3)]"

theorem acknowledged_commands_survive_witness:
  "\<exists>n \<le> 3. [True, False, False] = replicate n True @ replicate (3 - n) False \<and>
    (\<exists>image m stop. fst (Writer_close 1 (snd (appends (snd (Writer_open True 0 io_fine Writer_new 4)) sample_appends))) = Some image \<and>
       read_journal (snd (load (Some (image, False)) [])) =
         Some (Ok, 4, take m (map snd sample_appends), stop, length (journal_of 4 (take m (map snd sample_appends)))) \<and>
       (m = n \<or> m = Suc n \<and> n < 3) \<and> stop \<in> {End, Truncated})"
proof -
  let ?w0 = "snd (Writer_open True 0 io_fine Writer_new 4)"
  have op: "Writer_open True 0 io_fine Writer_new 4 = (True, ?w0)"
    by (simp add: Writer_open_def Writer_close_def Writer_new_def Writer_write_def fwrite_def fflush_def io_fine_def Let_def)
  have len: "length (encode (cancel_command i)) = 13" for i
    by (simp add: length_encode cancel_command_def)
  have "fst (appends ?w0 sample_appends) = [True, False, False]"
    by (simp add: sample_appends_def Writer_open_def Writer_close_def Writer_new_def Writer_append_def Writer_write_def
        fwrite_def fflush_def io_fine_def io_full_def spill_def Let_def len)
  then have "appends ?w0 sample_appends = ([True, False, False], snd (appends ?w0 sample_appends))"
    by (metis prod.collapse)
  moreover have "list_all canonical (map snd sample_appends)" "length sample_appends = 3"
    by (simp_all add: sample_appends_def)
  ultimately show ?thesis
    using acknowledged_commands_survive [OF op, of sample_appends "[True, False, False]" _ 1 "[]"] by simp
qed

end
