(* ===== verification/Replay.thy ===== *)
theory Replay
  imports Engine_Run Journal
begin

text \<open>
  \<open>include/engine/replay.hpp\<close>: the text the engine's output is written down in, and the replay of a
  journal into a fresh book. The conversions of \<open>printf\<close> are functions to strings.
\<close>

section \<open>Text\<close>

definition digit :: "nat \<Rightarrow> char" where
  "digit d = char_of (48 + d)"

fun show_nat :: "nat \<Rightarrow> string" where
  "show_nat n = (if n < 10 then [digit n] else show_nat (n div 10) @ [digit (n mod 10)])"

declare show_nat.simps [simp del]

text \<open>\<open>%llu\<close>, \<open>%u\<close> and \<open>%zu\<close>; \<open>%lld\<close>; \<open>%d\<close> of a truth value.\<close>

definition show_unsigned :: "'a :: len word \<Rightarrow> string" where
  "show_unsigned w = show_nat (unat w)"

definition show_signed :: "64 word \<Rightarrow> string" where
  "show_signed w = (if sint w < 0 then ''-'' @ show_nat (nat (- sint w)) else show_nat (nat (sint w)))"

definition show_bool :: "bool \<Rightarrow> string" where
  "show_bool b = (if b then ''1'' else ''0'')"

definition side_text :: "Side \<Rightarrow> string" where
  "side_text s = (if s = Buy then ''buy'' else ''sell'')"

definition tif_text :: "TimeInForce \<Rightarrow> string" where
  "tif_text t = (if t = GTC then ''gtc'' else if t = IOC then ''ioc'' else ''fok'')"

text \<open>
  \<open>detail::line\<close> formats into a buffer of 256 bytes and appends as many bytes as the whole text has, so a
  text that does not fit, with its final zero, would be read past the buffer.
\<close>

definition line :: "string \<Rightarrow> string \<Rightarrow> string option" where
  "line out formatted = (if length formatted < 256 then Some (out @ formatted @ [CHR 0x0A]) else None)"

definition command_text :: "64 word \<Rightarrow> Command \<Rightarrow> Outcome \<Rightarrow> string" where
  "command_text pos c out =
     (case kind c of
        Limit \<Rightarrow> ''#'' @ show_unsigned pos @ '' limit id='' @ show_unsigned (c_id c) @ '' side='' @ side_text (c_side c) @
          '' price='' @ show_signed (ticks (c_price c)) @ '' qty='' @ show_unsigned (c_qty c) @
          '' account='' @ show_unsigned (c_account c) @ '' tif='' @ tif_text (c_tif c) @ '' ok='' @ show_bool (o_ok out) @
          '' rest='' @ show_unsigned (o_resting_qty out) @ '' stp='' @ show_bool (o_stp_rejected out) @
          '' full='' @ show_bool (o_pool_exhausted out)
      | Market \<Rightarrow> ''#'' @ show_unsigned pos @ '' market id='' @ show_unsigned (c_id c) @ '' side='' @ side_text (c_side c) @
          '' qty='' @ show_unsigned (c_qty c) @ '' account='' @ show_unsigned (c_account c) @
          '' ok='' @ show_bool (o_ok out) @ '' rest='' @ show_unsigned (o_resting_qty out) @
          '' stp='' @ show_bool (o_stp_rejected out) @ '' full='' @ show_bool (o_pool_exhausted out)
      | Cancel \<Rightarrow> ''#'' @ show_unsigned pos @ '' cancel id='' @ show_unsigned (c_id c) @ '' ok='' @ show_bool (o_ok out)
      | Modify \<Rightarrow> ''#'' @ show_unsigned pos @ '' modify id='' @ show_unsigned (c_id c) @
          '' price='' @ show_signed (ticks (c_price c)) @ '' qty='' @ show_unsigned (c_qty c) @
          '' ok='' @ show_bool (o_ok out))"

definition trade_text :: "Trade \<Rightarrow> string" where
  "trade_text t = ''  trade seq='' @ show_unsigned (tr_seq_no t) @ '' id='' @ show_unsigned (trade_id t) @
     '' maker='' @ show_unsigned (maker_order_id t) @ '' taker='' @ show_unsigned (taker_order_id t) @
     '' price='' @ show_signed (ticks (tr_price t)) @ '' qty='' @ show_unsigned (tr_qty t)"

fun append_lines :: "('a \<Rightarrow> string) \<Rightarrow> string \<Rightarrow> 'a list \<Rightarrow> string option" where
  "append_lines f out [] = Some out"
| "append_lines f out (x # xs) = do { out \<leftarrow> line out (f x); append_lines f out xs }"

definition append_events :: "string \<Rightarrow> 64 word \<Rightarrow> Command \<Rightarrow> Outcome \<Rightarrow> Trade list \<Rightarrow> string option" where
  "append_events log position c out ts =
     do { log \<leftarrow> line log (command_text position c out); append_lines trade_text log ts }"

definition order_text :: "RestingOrder \<Rightarrow> string" where
  "order_text x = (if r_side x = Buy then ''bid'' else ''ask'') @ '' price='' @ show_signed (ticks (r_price x)) @
     '' id='' @ show_unsigned (r_order_id x) @ '' qty='' @ show_unsigned (r_qty x) @
     '' account='' @ show_unsigned (r_account x) @ '' seq='' @ show_unsigned (r_seq_no x)"

definition serialize_book :: "Book \<Rightarrow> string option" where
  "serialize_book book =
     do {
       orders \<leftarrow> snapshot book;
       out \<leftarrow> append_lines order_text [] orders;
       line out (''orders='' @ show_nat (length orders))
     }"

section \<open>Replay\<close>

record Replayed =
  rp_log :: string
  rp_book :: string
  rp_commands :: "64 word"
  rp_stop :: Status
  rp_valid_bytes :: nat

definition default_Replayed :: Replayed where
  "default_Replayed = \<lparr>rp_log = [], rp_book = [], rp_commands = 0, rp_stop = End, rp_valid_bytes = 0\<rparr>"

partial_function (option) replay_loop ::
  "Reader \<Rightarrow> Book \<Rightarrow> AddResult \<Rightarrow> Command \<Rightarrow> string \<Rightarrow> 64 word \<Rightarrow> (Status \<times> Reader \<times> Book \<times> string \<times> 64 word) option" where
  "replay_loop reader book scratch c log commands =
     do {
       (stop, c, reader) \<leftarrow> Reader_next reader c;
       if stop = Ok then
         do {
           (out, book, scratch) \<leftarrow> apply_command book c scratch;
           log \<leftarrow> append_events log commands c out (trades scratch);
           replay_loop reader book scratch c log (commands + 1)
         }
       else Some (stop, reader, book, log, commands)
     }"

declare replay_loop.simps [code]

definition replay :: "byte list \<Rightarrow> (bool \<times> Replayed) option" where
  "replay data =
     do {
       (stop, reader) \<leftarrow> Reader_open (Reader_new data);
       if stop \<noteq> Ok then Some (False, default_Replayed\<lparr>rp_stop := stop\<rparr>)
       else do {
         let book = Book_new (pool_capacity reader);
         (stop, reader, book, log, commands) \<leftarrow> replay_loop reader book empty_result default_Command [] 0;
         text \<leftarrow> serialize_book book;
         Some (True, \<lparr>rp_log = log, rp_book = text, rp_commands = commands, rp_stop = stop, rp_valid_bytes = valid_bytes reader\<rparr>)
       }
     }"

section \<open>Lines fit\<close>

lemma length_show_nat: "n < 10 ^ k \<Longrightarrow> 0 < k \<Longrightarrow> length (show_nat n) \<le> k"
proof (induction n arbitrary: k rule: show_nat.induct)
  case (1 n)
  show ?case
  proof (cases "n < 10")
    case True
    then show ?thesis
      using "1.prems"(2) by (simp add: show_nat.simps [of n])
  next
    case False
    then obtain j where k: "k = Suc j" "0 < j"
      using "1.prems" by (cases k; cases "k - 1") auto
    then have "n div 10 < 10 ^ j"
      using "1.prems"(1) by (simp add: div_less_iff_less_mult mult.commute)
    then show ?thesis
      using "1.IH" [OF False, of j] k False by (simp add: show_nat.simps [of n])
  qed
qed

lemma length_show_64: "length (show_unsigned (w :: 64 word)) \<le> 20"
  unfolding show_unsigned_def using unsigned_less [of w, where ?'a = nat]
  by (intro length_show_nat) auto

lemma length_show_32: "length (show_unsigned (w :: 32 word)) \<le> 10"
  unfolding show_unsigned_def using unsigned_less [of w, where ?'a = nat]
  by (intro length_show_nat) auto

lemma length_show_signed: "length (show_signed w) \<le> 20"
proof -
  have "- (2 ^ 63) \<le> sint w" "sint w < 2 ^ 63"
    using sint_ge [of w] sint_lt [of w] by simp_all
  then have "nat (sint w) < 10 ^ 20" "nat (- sint w) < 10 ^ 19"
    by simp_all
  then show ?thesis
    using length_show_nat [of "nat (sint w)" 20] length_show_nat [of "nat (- sint w)" 19] by (simp add: show_signed_def)
qed

lemma length_texts: "length (show_bool b) = 1" "length (side_text s) \<le> 4" "length (tif_text t) = 3"
  by (simp_all add: show_bool_def side_text_def tif_text_def)

lemmas text_lengths = length_show_64 length_show_32 length_show_signed length_texts

end
