(* ===== verification/Replay_Properties.thy ===== *)
theory Replay_Properties
  imports Replay Journal_Properties
begin

text \<open>
  Replay is total on any bytes, writes down the run of the engine on the commands of the journal, and is not
  affected by what follows the good part of a journal.
\<close>

section \<open>Lines fit\<close>

lemma command_text_fits: "length (command_text pos c out) < 256"
  using length_show_64 [of pos] length_show_64 [of "c_id c"] length_texts(2) [of "c_side c"] length_show_signed [of "ticks (c_price c)"]
    length_show_32 [of "c_qty c"] length_show_32 [of "c_account c"] length_show_32 [of "o_resting_qty out"]
  by (cases "kind c") (simp_all add: command_text_def length_texts(1,3))

lemma trade_text_fits: "length (trade_text t) < 256"
  using length_show_64 [of "tr_seq_no t"] length_show_64 [of "trade_id t"] length_show_64 [of "maker_order_id t"]
    length_show_64 [of "taker_order_id t"] length_show_signed [of "ticks (tr_price t)"] length_show_32 [of "tr_qty t"]
  by (simp add: trade_text_def)

lemma order_text_fits: "length (order_text x) < 256"
  using length_show_signed [of "ticks (r_price x)"] length_show_64 [of "r_order_id x"] length_show_32 [of "r_qty x"]
    length_show_32 [of "r_account x"] length_show_64 [of "r_seq_no x"]
  by (simp add: order_text_def)

text \<open>Without the check of the buffer: the lines one after the other.\<close>

definition lines_of :: "('a \<Rightarrow> string) \<Rightarrow> 'a list \<Rightarrow> string" where
  "lines_of f xs = concat (map (\<lambda>x. f x @ [CHR 0x0A]) xs)"

lemma append_lines_fit: "(\<And>x. length (f x) < 256) \<Longrightarrow> append_lines f out xs = Some (out @ lines_of f xs)"
  by (induction xs arbitrary: out) (simp_all add: lines_of_def line_def)

definition event_text :: "64 word \<Rightarrow> Command \<Rightarrow> event \<Rightarrow> string" where
  "event_text pos c ev = command_text pos c (fst ev) @ [CHR 0x0A] @ lines_of trade_text (snd ev)"

lemma append_events_fit: "append_events log pos c out ts = Some (log @ event_text pos c (out, ts))"
  by (simp add: append_events_def line_def command_text_fits append_lines_fit [OF trade_text_fits] event_text_def)

definition book_text :: "queue \<Rightarrow> string" where
  "book_text xs = lines_of order_text xs @ ''orders='' @ show_nat (length xs) @ [CHR 0x0A]"

lemma serialize_book_text:
  assumes "book_abs b sb"
  shows "serialize_book b = Some (book_text (s_orders sb))"
proof -
  obtain L where L: "book_ok b L" "\<And>s. s_queue sb s = queue_of (orders b) (L s)"
    using assms by (rule book_absE) blast
  have inv: "pool_inv (pool b)"
    using book_okD [OF L(1)] book_reprD by blast
  have "length (s_orders sb) < 10 ^ 20"
    using length_orders [OF L] card_orders_le [OF inv] inv by (auto simp: pool_inv_def free_repr_def)
  then have "length (show_nat (length (s_orders sb))) \<le> 20"
    by (intro length_show_nat) auto
  then show ?thesis
    by (simp add: serialize_book_def snapshot_refines [OF assms] append_lines_fit [OF order_text_fits] line_def book_text_def)
qed

section \<open>Replay is a run of the engine\<close>

text \<open>The log of a run: the events of each command, numbered from \<open>pos\<close>.\<close>

fun log_text :: "64 word \<Rightarrow> (Command \<times> event) list \<Rightarrow> string" where
  "log_text pos [] = []"
| "log_text pos ((c, ev) # evs) = event_text pos c ev @ log_text (pos + 1) evs"

lemma replay_loop_run:
  assumes "drain r c = Some (cs, st, r')" "engine_abs (b, s) sb"
  shows "\<exists>evs e. run_steps engine_step (b, s) cs = Some (evs, e) \<and>
    replay_loop r b s c log n = Some (st, r', fst e, log @ log_text n (zip cs evs), n + of_nat (length cs))"
  using assms
proof (induction cs arbitrary: r c b s sb log n)
  case Nil
  then have "st \<noteq> Ok \<and> (\<exists>c'. Reader_next r c = Some (st, c', r'))"
    by (subst (asm) drain.simps) (auto split: if_splits)
  then show ?case
    by (subst replay_loop.simps) auto
next
  case (Cons d cs)
  obtain r1 where rd: "Reader_next r c = Some (Ok, d, r1)" "drain r1 d = Some (cs, st, r')"
    using Cons.prems(1) by (subst (asm) drain.simps) (auto split: if_splits)
  obtain out ts b1 s1 where step: "engine_step (b, s) d = Some ((out, ts), b1, s1)"
      "engine_abs (b1, s1) (snd (spec_step wrap32 sb d))"
    using engine_step_refines [OF Cons.prems(2), of d] by (metis prod.exhaust)
  then have app: "apply_command b d s = Some (out, b1, s1)" "ts = trades s1"
    by (auto simp: engine_step_def)
  obtain evs e where ih: "run_steps engine_step (b1, s1) cs = Some (evs, e)"
      "replay_loop r1 b1 s1 d (log @ event_text n d (out, ts)) (n + 1) =
         Some (st, r', fst e, (log @ event_text n d (out, ts)) @ log_text (n + 1) (zip cs evs), n + 1 + of_nat (length cs))"
    using Cons.IH [OF rd(2) step(2)] by blast
  show ?case
    using step(1) ih rd(1) app by (subst replay_loop.simps) (simp add: append_events_fit algebra_simps)
qed

lemma replay_run:
  assumes "read_journal data = Some (Ok, cap, cs, st, n)"
  shows "\<exists>evs e. run_steps engine_step (engine_new cap) cs = Some (evs, e) \<and>
    replay data = Some (True, \<lparr>rp_log = log_text 0 (zip cs evs),
      rp_book = book_text (s_orders (snd (run_spec (spec_step wrap32) (spec_new (unat cap)) cs))),
      rp_commands = of_nat (length cs), rp_stop = st, rp_valid_bytes = n\<rparr>)"
proof -
  obtain r r' where op: "Reader_open (Reader_new data) = Some (Ok, r)" "drain r default_Command = Some (cs, st, r')"
      "pool_capacity r' = cap" "valid_bytes r' = n"
    using assms by (auto simp: read_journal_def split: if_splits)
  note hdr = Reader_open_sound [OF op(1)]
  obtain cs' st' m where "read_all read_record (drop 20 data) = Some (cs', st', m)"
    using jf.read_all_sound by blast
  then have "r' = r\<lparr>rd_pos := rd_pos r + m\<rparr>"
    using drain_all [of r cs' st' m default_Command] hdr op(2) by simp
  then have cap: "pool_capacity r = cap"
    using op(3) by (simp add: pool_capacity_def)
  have new: "engine_abs (Book_new cap, empty_result) (spec_new (unat cap))"
    using engine_new_abs [of cap] by (simp add: engine_new_def)
  obtain evs e where run: "run_steps engine_step (engine_new cap) cs = Some (evs, e)"
      "replay_loop r (Book_new cap) empty_result default_Command [] 0 = Some (st, r', fst e, log_text 0 (zip cs evs), of_nat (length cs))"
    using replay_loop_run [OF op(2) new, of "[]" 0] by (auto simp: engine_new_def)
  have "book_abs (fst e) (snd (run_spec (spec_step wrap32) (spec_new (unat cap)) cs))"
    using engine_sim.run_refines [OF engine_new_abs, of cap cs] run(1) by (auto simp: engine_abs_def)
  from serialize_book_text [OF this] show ?thesis
    using op(1,4) cap run by (simp add: replay_def)
qed

lemma replay_unopened:
  assumes "read_journal data = Some (st, cap, cs, st', n)" "st \<noteq> Ok"
  shows "replay data = Some (False, default_Replayed\<lparr>rp_stop := st\<rparr>)"
  using assms by (auto simp: read_journal_def replay_def split: if_splits)

lemma replay_journal:
  assumes "list_all canonical cs"
  shows "\<exists>evs e. run_steps engine_step (engine_new cap) cs = Some (evs, e) \<and>
    snapshot (fst e) = Some (s_orders (snd (run_spec (spec_step wrap32) (spec_new (unat cap)) cs))) \<and>
    replay (journal_of cap cs) = Some (True, \<lparr>rp_log = log_text 0 (zip cs evs),
      rp_book = book_text (s_orders (snd (run_spec (spec_step wrap32) (spec_new (unat cap)) cs))),
      rp_commands = of_nat (length cs), rp_stop = End, rp_valid_bytes = length (journal_of cap cs)\<rparr>)"
proof -
  have "read_journal (journal_of cap cs) = Some (Ok, cap, cs, End, length (journal_of cap cs))"
    using read_journal_open [OF jf.read_all_concat [OF assms jf.rd_nil]] by (simp add: journal_of_def)
  from replay_run [OF this] show ?thesis
    using engine_sim.run_refines [OF engine_new_abs, of cap cs] snapshot_refines by (auto simp: engine_abs_def)
qed

text \<open>C29. Replaying the journal of a run gives, byte for byte, the log of that run and the book it left: the
  engine run on the same commands, its events as text, and its final resting orders as text.\<close>

theorem replay_reproduces_run:
  assumes "list_all canonical cs"
  shows "\<exists>evs e xs. run_steps engine_step (engine_new cap) cs = Some (evs, e) \<and> snapshot (fst e) = Some xs \<and>
    replay (journal_of cap cs) = Some (True, \<lparr>rp_log = log_text 0 (zip cs evs), rp_book = book_text xs,
      rp_commands = of_nat (length cs), rp_stop = End, rp_valid_bytes = length (journal_of cap cs)\<rparr>)"
  using replay_journal [OF assms, of cap] by blast

theorem replay_reproduces_run_witness:
  "\<exists>evs e xs. run_steps engine_step (engine_new 4) sample_journal = Some (evs, e) \<and> snapshot (fst e) = Some xs \<and>
    replay (journal_of 4 sample_journal) = Some (True, \<lparr>rp_log = log_text 0 (zip sample_journal evs), rp_book = book_text xs,
      rp_commands = 4, rp_stop = End, rp_valid_bytes = 111\<rparr>)"
proof -
  have "(of_nat (length sample_journal) :: 64 word) = 4"
    by (simp add: sample_journal_def)
  then show ?thesis
    using replay_reproduces_run [OF sample_journal_canonical, of 4] by (simp add: length_sample_journal)
qed

text \<open>Replay ends on any bytes at all, with every line inside its buffer. It answers false exactly when the
  header cannot be read, and then nothing was replayed.\<close>

theorem replay_total:
  "\<exists>ok out. replay data = Some (ok, out) \<and> rp_valid_bytes out \<le> length data \<and> rp_stop out \<noteq> Ok \<and>
    (ok \<longleftrightarrow> (\<exists>r. Reader_open (Reader_new data) = Some (Ok, r))) \<and>
    (\<not> ok \<longrightarrow> rp_log out = [] \<and> rp_book out = [] \<and> rp_commands out = 0)"
proof (cases rule: journal_cases [of data])
  case (unopened st cap)
  have "\<not> (\<exists>r. Reader_open (Reader_new data) = Some (Ok, r))"
    using unopened by (auto simp: read_journal_def)
  then show ?thesis
    using replay_unopened [OF unopened] unopened(2) by (auto simp: default_Replayed_def)
next
  case (opened cap cs st n)
  have "\<exists>r. Reader_open (Reader_new data) = Some (Ok, r)"
    using opened(1) by (auto simp: read_journal_def split: if_splits)
  then show ?thesis
    using replay_run [OF opened(1)] opened(3,5) by auto
qed

theorem replay_total_witness:
  "\<exists>out. replay [0x4C, 0x4F] = Some (False, out) \<and> rp_log out = [] \<and> rp_book out = [] \<and> rp_commands out = 0"
proof -
  have "\<not> (\<exists>r. Reader_open (Reader_new [0x4C, 0x4F]) = Some (Ok, r))"
    by (simp add: Reader_open_def Reader_new_def kHeaderSize_def)
  then show ?thesis
    using replay_total [of "[0x4C, 0x4F]"] by auto
qed

text \<open>What follows the good part of a journal does not matter: cut off at \<open>valid_bytes\<close> it replays to the
  same log and the same book, and then ends cleanly.\<close>

theorem replay_ignores_bad_tail:
  assumes "replay data = Some (True, out)"
  shows "replay (take (rp_valid_bytes out) data) = Some (True, out\<lparr>rp_stop := End\<rparr>)"
proof (cases rule: journal_cases [of data])
  case (unopened st cap)
  then show ?thesis
    using replay_unopened [OF unopened] assms by simp
next
  case (opened cap cs st n)
  have n: "n = length (journal_of cap cs)"
    using opened(3,4) by (metis length_take min.absorb2)
  have "read_journal (journal_of cap cs) = Some (Ok, cap, cs, End, n)"
    using read_journal_open [OF jf.read_all_concat [OF opened(2) jf.rd_nil]] n by (simp add: journal_of_def)
  from replay_run [OF this] replay_run [OF opened(1)] show ?thesis
    using assms opened(4) by auto
qed

theorem replay_ignores_bad_tail_witness:
  "\<exists>out. replay (journal_of 4 sample_journal @ [0xFF]) = Some (True, out) \<and> rp_stop out = BadKind \<and>
     replay (take (rp_valid_bytes out) (journal_of 4 sample_journal @ [0xFF])) = Some (True, out\<lparr>rp_stop := End\<rparr>)"
proof -
  have "read_record [0xFF] = Inl BadKind"
    by (simp add: read_record_def payload_size_def)
  from jf.read_all_concat [OF sample_journal_canonical this] have
    "read_journal (journal_of 4 sample_journal @ [0xFF]) = Some (Ok, 4, sample_journal, BadKind, 111)"
    using read_journal_open [where cap = 4] length_sample_journal by (simp add: journal_of_def)
  from replay_run [OF this] obtain out where "replay (journal_of 4 sample_journal @ [0xFF]) = Some (True, out)" "rp_stop out = BadKind"
    by auto
  then show ?thesis
    using replay_ignores_bad_tail by blast
qed

end
