(* ===== verification/Oracle.thy ===== *)
theory Oracle
  imports Engine_Run
begin

text \<open>
  \<open>tests/support/oracle.hpp\<close>: the reference implementation the differential tests compare the book with.
  Its state is one flat list of resting orders; every question is answered by scanning it. An index that
  is \<open>npos\<close> is \<open>None\<close>.
\<close>

record Oracle =
  ora_capacity :: nat
  ora_orders :: "RestingOrder list"
  ora_seq :: SeqNo
  ora_tid :: TradeId

definition Oracle_new :: "nat \<Rightarrow> Oracle" where
  "Oracle_new cap = \<lparr>ora_capacity = cap, ora_orders = [], ora_seq = 0, ora_tid = 0\<rparr>"

text \<open>\<open>std::sort\<close> with a comparison.\<close>

fun insert_by :: "('a \<Rightarrow> 'a \<Rightarrow> bool) \<Rightarrow> 'a \<Rightarrow> 'a list \<Rightarrow> 'a list" where
  "insert_by lt x [] = [x]"
| "insert_by lt x (y # ys) = (if lt x y then x # y # ys else y # insert_by lt x ys)"

definition sort_by :: "('a \<Rightarrow> 'a \<Rightarrow> bool) \<Rightarrow> 'a list \<Rightarrow> 'a list" where
  "sort_by lt xs = foldr (insert_by lt) xs []"

fun find_from_index :: "OrderId \<Rightarrow> RestingOrder list \<Rightarrow> nat \<Rightarrow> nat option" where
  "find_from_index oid [] i = None"
| "find_from_index oid (x # xs) i = (if r_order_id x = oid then Some i else find_from_index oid xs (i + 1))"

definition Oracle_find :: "Oracle \<Rightarrow> OrderId \<Rightarrow> nat option" where
  "Oracle_find ora oid = find_from_index oid (ora_orders ora) 0"

definition Oracle_has :: "Oracle \<Rightarrow> OrderId \<Rightarrow> bool" where
  "Oracle_has ora oid \<longleftrightarrow> Oracle_find ora oid \<noteq> None"

definition erase_at :: "nat \<Rightarrow> 'a list \<Rightarrow> 'a list" where
  "erase_at i xs = take i xs @ drop (i + 1) xs"

definition Oracle_crosses :: "Side \<Rightarrow> Price \<Rightarrow> Price \<Rightarrow> bool" where
  "Oracle_crosses taker resting limit = (if taker = Buy then resting \<le> limit else resting \<ge> limit)"

definition Oracle_better :: "Side \<Rightarrow> RestingOrder \<Rightarrow> RestingOrder \<Rightarrow> bool" where
  "Oracle_better taker a b =
     (if r_price a \<noteq> r_price b then (if taker = Buy then r_price a < r_price b else r_price a > r_price b)
      else r_seq_no a < r_seq_no b)"

text \<open>The body of the loop of \<open>best_opposite\<close>, and the loop.\<close>

definition better_candidate :: "Side \<Rightarrow> bool \<Rightarrow> Price \<Rightarrow> RestingOrder list \<Rightarrow> nat option \<Rightarrow> nat \<Rightarrow> nat option" where
  "better_candidate taker has_limit limit os best i =
     (if r_side (os ! i) = taker then best
      else if has_limit \<and> \<not> Oracle_crosses taker (r_price (os ! i)) limit then best
      else case best of
             None \<Rightarrow> Some i
           | Some j \<Rightarrow> if Oracle_better taker (os ! i) (os ! j) then Some i else best)"

definition best_opposite :: "Side \<Rightarrow> bool \<Rightarrow> Price \<Rightarrow> RestingOrder list \<Rightarrow> nat option" where
  "best_opposite taker has_limit limit os = foldl (better_candidate taker has_limit limit os) None [0..<length os]"

fun total_before :: "Account \<Rightarrow> RestingOrder list \<Rightarrow> 64 word \<Rightarrow> 64 word" where
  "total_before acct [] n = n"
| "total_before acct (x # xs) n = (if r_account x = acct then n else total_before acct xs (n + ucast (r_qty x)))"

definition fillable_before_self_trade :: "Oracle \<Rightarrow> Side \<Rightarrow> Price \<Rightarrow> Account \<Rightarrow> 64 word" where
  "fillable_before_self_trade ora taker limit acct =
     (let candidates = filter (\<lambda>x. r_side x \<noteq> taker \<and> Oracle_crosses taker (r_price x) limit) (ora_orders ora)
      in total_before acct (sort_by (Oracle_better taker) candidates) 0)"

text \<open>The loop answers an index of the list: the best of those it has seen.\<close>

lemma Oracle_better_irrefl [simp]: "\<not> Oracle_better taker a a"
  by (simp add: Oracle_better_def)

lemma Oracle_better_trans: "Oracle_better taker a b \<Longrightarrow> Oracle_better taker b c \<Longrightarrow> Oracle_better taker a c"
  by (auto simp: Oracle_better_def split: if_splits)

lemma best_opposite_prefix:
  assumes "k \<le> length os"
  shows "case foldl (better_candidate taker has_limit limit os) None [0..<k] of
      None \<Rightarrow> \<forall>i < k. r_side (os ! i) = taker \<or> has_limit \<and> \<not> Oracle_crosses taker (r_price (os ! i)) limit
    | Some m \<Rightarrow> m < k \<and> r_side (os ! m) \<noteq> taker \<and> (has_limit \<longrightarrow> Oracle_crosses taker (r_price (os ! m)) limit) \<and>
        (\<forall>i < k. r_side (os ! i) = taker \<or> has_limit \<and> \<not> Oracle_crosses taker (r_price (os ! i)) limit \<or>
           \<not> Oracle_better taker (os ! i) (os ! m))"
  using assms
proof (induction k)
  case (Suc k)
  let ?best = "foldl (better_candidate taker has_limit limit os) None [0..<k]"
  have step: "foldl (better_candidate taker has_limit limit os) None [0..<Suc k] = better_candidate taker has_limit limit os ?best k"
    by simp
  show ?case
  proof (cases ?best)
    case None
    then have "\<And>i. i < k \<Longrightarrow> r_side (os ! i) = taker \<or> has_limit \<and> \<not> Oracle_crosses taker (r_price (os ! i)) limit"
      using Suc by simp
    then show ?thesis
      unfolding step None by (auto simp: better_candidate_def less_Suc_eq)
  next
    case (Some j)
    then have j: "j < k" "r_side (os ! j) \<noteq> taker" "has_limit \<longrightarrow> Oracle_crosses taker (r_price (os ! j)) limit"
        "\<And>i. i < k \<Longrightarrow> r_side (os ! i) = taker \<or> has_limit \<and> \<not> Oracle_crosses taker (r_price (os ! i)) limit \<or>
           \<not> Oracle_better taker (os ! i) (os ! j)"
      using Suc by auto
    then show ?thesis
      unfolding step Some by (auto simp: better_candidate_def less_Suc_eq dest: Oracle_better_trans)
  qed
qed simp

lemmas best_opposite_cases = best_opposite_prefix [OF order_refl, folded best_opposite_def]

lemma best_opposite_less: "best_opposite taker has_limit limit os = Some m \<Longrightarrow> m < length os"
  using best_opposite_cases [of os taker has_limit limit] by simp

lemma length_erase_at: "m < length xs \<Longrightarrow> length (erase_at m xs) = length xs - 1"
  by (simp add: erase_at_def)

text \<open>The matching loop: trades so far, orders, quantity left, next trade id, and whether it met its own account.\<close>

function Oracle_match ::
  "Side \<Rightarrow> bool \<Rightarrow> Price \<Rightarrow> Account \<Rightarrow> OrderId \<Rightarrow> SeqNo \<Rightarrow> Trade list \<Rightarrow> RestingOrder list \<Rightarrow> Qty \<Rightarrow> TradeId \<Rightarrow>
   bool \<times> Trade list \<times> RestingOrder list \<times> Qty \<times> TradeId" where
  "Oracle_match taker has_limit limit acct oid seq ts os q tid =
     (if q > 0 then
        case best_opposite taker has_limit limit os of
          None \<Rightarrow> (False, ts, os, q, tid)
        | Some m \<Rightarrow>
            if r_account (os ! m) = acct then (True, ts, os, q, tid)
            else let fill = min q (r_qty (os ! m));
                     ts = ts @ [\<lparr>maker_order_id = r_order_id (os ! m), taker_order_id = oid, tr_price = r_price (os ! m),
                                 tr_qty = fill, trade_id = tid, tr_seq_no = seq\<rparr>];
                     os = os[m := (os ! m)\<lparr>r_qty := r_qty (os ! m) - fill\<rparr>];
                     os = (if r_qty (os ! m) = 0 then erase_at m os else os)
                 in Oracle_match taker has_limit limit acct oid seq ts os (q - fill) (tid + 1)
      else (False, ts, os, q, tid))"
  by pat_completeness auto
termination
proof (relation "measure (\<lambda>(taker, has_limit, limit, acct, oid, seq, ts, os, q, tid). length os + (if q = 0 then 0 else 1))",
    goal_cases)
  case (2 taker has_limit limit acct oid seq ts os q tid m fill ts' os1 os2)
  then have m: "m < length os"
    using best_opposite_less by blast
  show ?case
  proof (cases "r_qty (os ! m) \<le> q")
    case True
    then have "length os2 = length os - 1"
      using 2 m by (simp add: min_def length_erase_at)
    then show ?thesis
      using 2 m by auto
  next
    case False
    then have "q - fill = 0" "length os2 \<le> length os"
      using 2 m by (auto simp: min_def length_erase_at)
    then show ?thesis
      using 2 by auto
  qed
qed simp

declare Oracle_match.simps [simp del]

definition Oracle_submit ::
  "Oracle \<Rightarrow> OrderId \<Rightarrow> Side \<Rightarrow> bool \<Rightarrow> Price \<Rightarrow> Qty \<Rightarrow> Account \<Rightarrow> TimeInForce \<Rightarrow> AddResult \<times> Oracle" where
  "Oracle_submit ora oid s has_limit limit q acct tif =
     (let r = empty_result;
          seq = ora_seq ora;
          ora = ora\<lparr>ora_seq := seq + 1\<rparr>
      in if q = 0 \<or> Oracle_find ora oid \<noteq> None then (r, ora)
         else let r = r\<lparr>accepted := True\<rparr>
              in if tif = FOK \<and> fillable_before_self_trade ora s limit acct < ucast q then (r, ora)
                 else case Oracle_match s has_limit limit acct oid seq [] (ora_orders ora) q (ora_tid ora) of
                        (stp, ts, os, q, tid) \<Rightarrow>
                          let r = r\<lparr>trades := ts, stp_rejected := stp\<rparr>;
                              ora = ora\<lparr>ora_orders := os, ora_tid := tid\<rparr>
                          in if tif = GTC \<and> has_limit \<and> \<not> stp \<and> q > 0 then
                               if length os \<ge> ora_capacity ora then (r\<lparr>pool_exhausted := True\<rparr>, ora)
                               else (r\<lparr>resting_qty := q\<rparr>,
                                     ora\<lparr>ora_orders := os @ [\<lparr>r_side = s, r_price = limit, r_order_id = oid,
                                       r_qty = q, r_account = acct, r_seq_no = seq\<rparr>]\<rparr>)
                             else (r, ora))"

definition add_limit :: "Oracle \<Rightarrow> OrderId \<Rightarrow> Side \<Rightarrow> Price \<Rightarrow> Qty \<Rightarrow> Account \<Rightarrow> TimeInForce \<Rightarrow> AddResult \<times> Oracle" where
  "add_limit ora oid s limit q acct tif = Oracle_submit ora oid s True limit q acct tif"

definition add_market :: "Oracle \<Rightarrow> OrderId \<Rightarrow> Side \<Rightarrow> Qty \<Rightarrow> Account \<Rightarrow> AddResult \<times> Oracle" where
  "add_market ora oid s q acct = Oracle_submit ora oid s False (Price 0) q acct IOC"

definition Oracle_cancel :: "Oracle \<Rightarrow> OrderId \<Rightarrow> bool \<times> Oracle" where
  "Oracle_cancel ora oid =
     (let ora = ora\<lparr>ora_seq := ora_seq ora + 1\<rparr>
      in case Oracle_find ora oid of
           None \<Rightarrow> (False, ora)
         | Some i \<Rightarrow> (True, ora\<lparr>ora_orders := erase_at i (ora_orders ora)\<rparr>))"

definition Oracle_modify :: "Oracle \<Rightarrow> OrderId \<Rightarrow> Price \<Rightarrow> Qty \<Rightarrow> bool \<times> Oracle" where
  "Oracle_modify ora oid new_price new_qty =
     (let seq = ora_seq ora;
          ora = ora\<lparr>ora_seq := seq + 1\<rparr>
      in if new_qty = 0 then (False, ora)
         else case Oracle_find ora oid of
                None \<Rightarrow> (False, ora)
              | Some i \<Rightarrow>
                  let x = ora_orders ora ! i
                  in if new_price = r_price x \<and> new_qty \<le> r_qty x
                     then (True, ora\<lparr>ora_orders := (ora_orders ora)[i := x\<lparr>r_qty := new_qty\<rparr>]\<rparr>)
                     else if best_opposite (r_side x) True new_price (ora_orders ora) \<noteq> None then (False, ora)
                     else (True, ora\<lparr>ora_orders := (ora_orders ora)[i :=
                       x\<lparr>r_price := new_price, r_qty := new_qty, r_seq_no := seq\<rparr>]\<rparr>))"

definition snapshot_less :: "RestingOrder \<Rightarrow> RestingOrder \<Rightarrow> bool" where
  "snapshot_less a b =
     (if r_side a \<noteq> r_side b then r_side a = Buy
      else if r_price a \<noteq> r_price b then (if r_side a = Buy then r_price a > r_price b else r_price a < r_price b)
      else r_seq_no a < r_seq_no b)"

definition Oracle_snapshot :: "Oracle \<Rightarrow> RestingOrder list" where
  "Oracle_snapshot ora = sort_by snapshot_less (ora_orders ora)"

text \<open>One command on the oracle, as the differential harness (\<open>tests/support/diff.hpp\<close>) gives it.\<close>

definition oracle_step :: "Oracle \<Rightarrow> Command \<Rightarrow> event \<times> Oracle" where
  "oracle_step ora c =
     (case kind c of
        Limit \<Rightarrow> map_prod added_event id (add_limit ora (c_id c) (c_side c) (c_price c) (c_qty c) (c_account c) (c_tif c))
      | Market \<Rightarrow> map_prod added_event id (add_market ora (c_id c) (c_side c) (c_qty c) (c_account c))
      | Cancel \<Rightarrow> map_prod flag_event id (Oracle_cancel ora (c_id c))
      | Modify \<Rightarrow> map_prod flag_event id (Oracle_modify ora (c_id c) (c_price c) (c_qty c)))"

end
