(* ===== verification/Oracle_Refinement.thy ===== *)
theory Oracle_Refinement
  imports Oracle Matching_Properties
begin

text \<open>
  The reference implementation of the tests follows the same specification as the book, with the exact
  total of the fill-or-kill check.
\<close>

section \<open>Positions in a list\<close>

lemma split_at: "m < length xs \<Longrightarrow> \<exists>as bs. xs = as @ xs ! m # bs \<and> m = length as"
  using id_take_nth_drop [of m xs] by (intro exI [of _ "take m xs"] exI [of _ "drop (Suc m) xs"]) simp

lemma erase_at_mid [simp]: "erase_at (length as) (as @ x # bs) = as @ bs"
  by (simp add: erase_at_def)

lemma find_from_index_None: "find_from_index oid xs i = None \<longleftrightarrow> oid \<notin> r_order_id ` set xs"
  by (induction xs arbitrary: i) auto

lemma find_from_index_Some:
  "find_from_index oid xs i = Some j \<Longrightarrow> \<exists>as x bs. xs = as @ x # bs \<and> j = i + length as \<and> r_order_id x = oid"
proof (induction xs arbitrary: i)
  case (Cons y ys)
  show ?case
  proof (cases "r_order_id y = oid")
    case True
    then show ?thesis
      using Cons.prems by (intro exI [of _ "[]"]) auto
  next
    case False
    then obtain as x bs where "ys = as @ x # bs" "j = i + 1 + length as" "r_order_id x = oid"
      using Cons by fastforce
    then show ?thesis
      by (intro exI [of _ "y # as"]) auto
  qed
qed simp

section \<open>Sorting\<close>

text \<open>Sorting a list of distinct elements with an asymmetric comparison gives the one list that is in order.\<close>

lemma insert_by_mid:
  assumes "\<And>a. a \<in> set as \<Longrightarrow> \<not> lt c a" "\<And>b. b \<in> set bs \<Longrightarrow> lt c b"
  shows "insert_by lt c (as @ bs) = as @ c # bs"
  using assms(1)
proof (induction as)
  case Nil
  then show ?case
    using assms(2) by (cases bs) auto
qed simp

lemma sort_by_unique:
  assumes asym: "\<And>a b. lt a b \<Longrightarrow> \<not> lt b a"
  shows "distinct cs \<Longrightarrow> sorted_wrt lt ys \<Longrightarrow> set cs = set ys \<Longrightarrow> sort_by lt cs = ys"
proof (induction cs arbitrary: ys)
  case (Cons c cs)
  then obtain as bs where ys: "ys = as @ c # bs"
    by (metis list.set_intros(1) split_list)
  have dist: "distinct ys"
    using Cons.prems(2) asym by (induction ys) auto
  have "set cs = set (as @ bs)"
    using Cons.prems(1,3) dist unfolding ys by auto
  moreover have "sorted_wrt lt (as @ bs)"
    using Cons.prems(2) unfolding ys by (auto simp: sorted_wrt_append)
  ultimately have "sort_by lt cs = as @ bs"
    using Cons.IH Cons.prems(1) by simp
  moreover have "insert_by lt c (as @ bs) = as @ c # bs"
    using Cons.prems(2) asym unfolding ys by (intro insert_by_mid) (auto simp: sorted_wrt_append)
  ultimately show ?case
    by (simp add: sort_by_def ys)
qed (simp add: sort_by_def)

section \<open>The best opposite order\<close>

lemma Oracle_better_priority: "Oracle_better s a b \<longleftrightarrow> in_priority (opposite s) a b"
  by (cases s) (auto simp: Oracle_better_def in_priority_def better_cases)

lemma Oracle_crosses_limit: "Oracle_crosses s p limit \<longleftrightarrow> limit_crosses s p limit"
  by (cases s) (simp_all add: Oracle_crosses_def limit_crosses_def)

lemma Oracle_better_asym: "Oracle_better s a b \<Longrightarrow> \<not> Oracle_better s b a"
  using Oracle_better_trans Oracle_better_irrefl by blast

definition acceptable :: "Side \<Rightarrow> bool \<Rightarrow> Price \<Rightarrow> Price \<Rightarrow> bool" where
  "acceptable s has_limit limit p \<longleftrightarrow> (has_limit \<longrightarrow> limit_crosses s p limit)"

lemma acceptable_mono:
  assumes "sorted_wrt (in_priority (opposite s)) (x # xs)" "y \<in> set xs" "acceptable s has_limit limit (r_price y)"
  shows "acceptable s has_limit limit (r_price x)"
  using assms limit_crosses_antimono [of s "r_price x" "r_price y" limit] by (auto simp: acceptable_def in_priority_def)

text \<open>\<open>os\<close> holds the orders of both sides: \<open>xs\<close> is the queue opposite of a taker on side \<open>s\<close>, \<open>ys\<close> its own side.\<close>

definition holds_queues :: "Side \<Rightarrow> RestingOrder list \<Rightarrow> queue \<Rightarrow> queue \<Rightarrow> bool" where
  "holds_queues s os xs ys \<longleftrightarrow> set os = set xs \<union> set ys \<and> distinct (map r_order_id os) \<and> distinct (map r_order_id (xs @ ys)) \<and>
     sorted_wrt (in_priority (opposite s)) xs \<and> (\<forall>x \<in> set xs. r_side x = opposite s \<and> r_qty x > 0) \<and> (\<forall>y \<in> set ys. r_side y = s)"

lemma best_opposite_None:
  assumes q: "holds_queues s os xs ys" and "best_opposite s has_limit limit os = None"
  shows "\<forall>x \<in> set xs. \<not> acceptable s has_limit limit (r_price x)"
proof
  fix x
  assume x: "x \<in> set xs"
  then obtain i where i: "i < length os" "os ! i = x"
    using q by (metis UnI1 holds_queues_def in_set_conv_nth)
  have "r_side x \<noteq> s"
    using q x by (simp add: holds_queues_def)
  then show "\<not> acceptable s has_limit limit (r_price x)"
    using best_opposite_cases [of os s has_limit limit, unfolded assms(2) option.case, rule_format, OF i(1)] i(2)
    by (simp add: acceptable_def Oracle_crosses_limit)
qed

lemma best_opposite_Some:
  assumes q: "holds_queues s os xs ys" and best: "best_opposite s has_limit limit os = Some m"
  shows "\<exists>x xs' as bs. xs = x # xs' \<and> acceptable s has_limit limit (r_price x) \<and> os = as @ x # bs \<and> m = length as"
proof -
  note m = best_opposite_cases [of os s has_limit limit, unfolded best option.case]
  have mem: "os ! m \<in> set xs" and ok: "acceptable s has_limit limit (r_price (os ! m))"
    using m q nth_mem [of m os] by (auto simp: holds_queues_def acceptable_def Oracle_crosses_limit)
  obtain x xs' where xs: "xs = x # xs'"
    using mem by (cases xs) auto
  have sorted: "sorted_wrt (in_priority (opposite s)) (x # xs')"
    using q xs by (simp add: holds_queues_def)
  have "os ! m = x"
  proof (rule ccontr)
    assume neq: "os ! m \<noteq> x"
    then have y: "os ! m \<in> set xs'"
      using mem xs by simp
    then have "Oracle_better s x (os ! m)"
      using sorted by (simp add: Oracle_better_priority)
    moreover have "acceptable s has_limit limit (r_price x)"
      using acceptable_mono [OF sorted y ok] .
    moreover obtain i where "i < length os" "os ! i = x"
      using q xs by (metis UnI1 holds_queues_def in_set_conv_nth list.set_intros(1))
    moreover have "r_side x \<noteq> s"
      using q xs by (simp add: holds_queues_def)
    ultimately show False
      using m by (auto simp: acceptable_def Oracle_crosses_limit)
  qed
  then show ?thesis
    using xs ok split_at [of m os] m by auto
qed

section \<open>Matching\<close>

lemma holds_queues_consumed:
  assumes "holds_queues s (as @ x # bs) (x # xs) ys"
  shows "holds_queues s (as @ bs) xs ys"
proof -
  have "set (as @ bs) = set xs \<union> set ys"
    using assms unfolding holds_queues_def by (auto simp: image_iff)
  then show ?thesis
    using assms by (simp add: holds_queues_def)
qed

lemma holds_queues_reduced:
  assumes "holds_queues s (as @ x # bs) (x # xs) ys"
  shows "set (as @ x\<lparr>r_qty := n\<rparr> # bs) = set (x\<lparr>r_qty := n\<rparr> # xs) \<union> set ys"
proof -
  have "set (as @ bs) = set xs \<union> set ys"
    using holds_queues_consumed [OF assms] by (simp add: holds_queues_def)
  then show ?thesis
    by auto
qed

lemma Oracle_match_refines:
  assumes "holds_queues s os xs ys"
    "match_queue (acceptable s has_limit limit) acct oid seq tid q xs = (stp, ts', xs', q', tid')"
  shows "\<exists>os'. Oracle_match s has_limit limit acct oid seq ts os q tid = (stp, ts @ ts', os', q', tid') \<and>
    set os' = set xs' \<union> set ys \<and> distinct (map r_order_id os')"
  using assms
proof (induction xs arbitrary: os ts q tid ts')
  case Nil
  have dist: "distinct (map r_order_id os)" and set: "set os = set ys"
    using Nil.prems(1) by (simp_all add: holds_queues_def)
  have "best_opposite s has_limit limit os = None"
    using best_opposite_Some [OF Nil.prems(1)] by (cases "best_opposite s has_limit limit os") auto
  then show ?case
    using Nil.prems(2) dist set by (subst Oracle_match.simps) auto
next
  case (Cons x xs)
  have dist: "distinct (map r_order_id os)" and set: "set os = set (x # xs) \<union> set ys"
    using Cons.prems(1) by (simp_all add: holds_queues_def)
  from Cons.prems(2) show ?case
  proof (cases rule: match_step_cases)
    case stop
    have "best_opposite s has_limit limit os = None" if "\<not> acceptable s has_limit limit (r_price x)"
      using best_opposite_Some [OF Cons.prems(1)] that by (cases "best_opposite s has_limit limit os") auto
    then show ?thesis
      using stop dist set by (subst Oracle_match.simps) auto
  next
    case self
    then obtain m where m: "best_opposite s has_limit limit os = Some m"
      using best_opposite_None [OF Cons.prems(1)] by (cases "best_opposite s has_limit limit os") auto
    from best_opposite_Some [OF Cons.prems(1) m] have "os ! m = x"
      by auto
    then show ?thesis
      using self m dist set by (subst Oracle_match.simps) auto
  next
    case (full ts1)
    then obtain m where m: "best_opposite s has_limit limit os = Some m"
      using best_opposite_None [OF Cons.prems(1)] by (cases "best_opposite s has_limit limit os") auto
    from best_opposite_Some [OF Cons.prems(1) m] obtain as bs where os: "os = as @ x # bs" "m = length as"
      by auto
    have q: "holds_queues s (as @ bs) xs ys"
      using Cons.prems(1) unfolding os by (rule holds_queues_consumed)
    have step: "Oracle_match s has_limit limit acct oid seq ts os q tid =
        Oracle_match s has_limit limit acct oid seq (ts @ [fill_trade x oid (r_qty x) tid seq]) (as @ bs) (q - r_qty x) (tid + 1)"
      using full m os by (subst Oracle_match.simps) (simp add: min_absorb2 fill_trade_def Let_def)
    from Cons.IH [OF q full(5), of "ts @ [fill_trade x oid (r_qty x) tid seq]"] show ?thesis
      unfolding step using full(6) by auto
  next
    case part
    then obtain m where m: "best_opposite s has_limit limit os = Some m"
      using best_opposite_None [OF Cons.prems(1)] by (cases "best_opposite s has_limit limit os") auto
    from best_opposite_Some [OF Cons.prems(1) m] obtain as bs where os: "os = as @ x # bs" "m = length as"
      by auto
    have "r_qty x - q \<noteq> 0"
      using part(4) by simp
    then have "Oracle_match s has_limit limit acct oid seq ts os q tid =
        Oracle_match s has_limit limit acct oid seq (ts @ [fill_trade x oid q tid seq]) (as @ x\<lparr>r_qty := r_qty x - q\<rparr> # bs) 0 (tid + 1)"
      using part m os by (subst Oracle_match.simps) (simp add: min_absorb1 less_imp_le fill_trade_def Let_def)
    also have "\<dots> = (False, ts @ [fill_trade x oid q tid seq], as @ x\<lparr>r_qty := r_qty x - q\<rparr> # bs, 0, tid + 1)"
      by (subst Oracle_match.simps) simp
    finally have step: "Oracle_match s has_limit limit acct oid seq ts os q tid =
        (False, ts @ [fill_trade x oid q tid seq], as @ x\<lparr>r_qty := r_qty x - q\<rparr> # bs, 0, tid + 1)" .
    have "set (as @ x\<lparr>r_qty := r_qty x - q\<rparr> # bs) = set xs' \<union> set ys"
      using Cons.prems(1) holds_queues_reduced part(7) unfolding os by simp
    moreover have "distinct (map r_order_id (as @ x\<lparr>r_qty := r_qty x - q\<rparr> # bs))"
      using dist os by simp
    ultimately show ?thesis
      using step part by simp
  qed
qed

section \<open>Fill-or-kill\<close>

lemma fillable_takeWhile:
  "fillable ok acct xs = fillable (\<lambda>_. True) acct (takeWhile (\<lambda>x. ok (r_price x)) xs)"
  by (induction xs) auto

lemma filter_takeWhile:
  assumes "sorted_wrt (in_priority (opposite s)) xs"
  shows "filter (\<lambda>x. acceptable s has_limit limit (r_price x)) xs = takeWhile (\<lambda>x. acceptable s has_limit limit (r_price x)) xs"
  using assms
proof (induction xs)
  case (Cons x xs)
  show ?case
  proof (cases "acceptable s has_limit limit (r_price x)")
    case True
    then show ?thesis
      using Cons by simp
  next
    case False
    then show ?thesis
      using acceptable_mono [OF Cons.prems] by (auto simp: filter_empty_conv)
  qed
qed simp

lemma total_before_fillable:
  "unat n + length xs * 2 ^ 32 < 2 ^ 64 \<Longrightarrow> unat (total_before acct xs n) = unat n + fillable (\<lambda>_. True) acct xs"
proof (induction xs arbitrary: n)
  case (Cons x xs)
  have lt: "unat (r_qty x) < 2 ^ 32"
    using unsigned_less [of "r_qty x", where ?'a = nat] by simp
  then have "unat (ucast (r_qty x) :: 64 word) = unat (r_qty x)"
    by (simp add: unsigned_ucast_eq take_bit_nat_eq_self)
  then have "unat (n + ucast (r_qty x)) = unat n + unat (r_qty x)"
    using Cons.prems lt by (subst unat_add_lem [THEN iffD1]) simp_all
  then show ?case
    using Cons lt by simp
qed simp

lemma fillable_before_refines:
  assumes q: "holds_queues s (ora_orders ora) xs ys" and small: "length xs < 2 ^ 32"
  shows "unat (fillable_before_self_trade ora s limit acct) = fillable (\<lambda>p. limit_crosses s p limit) acct xs"
proof -
  let ?ok = "\<lambda>x. acceptable s True limit (r_price x)"
  let ?cs = "filter (\<lambda>x. r_side x \<noteq> s \<and> Oracle_crosses s (r_price x) limit) (ora_orders ora)"
  have sorted: "sorted_wrt (in_priority (opposite s)) xs" and dist: "distinct (ora_orders ora)"
    using q by (auto simp: holds_queues_def distinct_map)
  have "set ?cs = set (takeWhile ?ok xs)"
    unfolding filter_takeWhile [OF sorted, symmetric] using q
    by (auto simp: holds_queues_def acceptable_def Oracle_crosses_limit)
  moreover have "sorted_wrt (Oracle_better s) (takeWhile ?ok xs)"
    unfolding filter_takeWhile [OF sorted, symmetric] Oracle_better_priority [abs_def]
    by (rule sorted_wrt_filter) (rule sorted)
  ultimately have sort: "sort_by (Oracle_better s) ?cs = takeWhile ?ok xs"
    using dist Oracle_better_asym by (intro sort_by_unique) auto
  have "length (takeWhile ?ok xs) < 2 ^ 32"
    using small length_takeWhile_le [of ?ok xs] by (rule le_less_trans [rotated])
  then have "length (takeWhile ?ok xs) * 2 ^ 32 < 2 ^ 64"
    by simp
  then show ?thesis
    using total_before_fillable [of 0 "takeWhile ?ok xs" acct] fillable_takeWhile [of "\<lambda>p. limit_crosses s p limit" acct xs]
    by (simp add: fillable_before_self_trade_def Let_def sort acceptable_def)
qed

section \<open>The oracle simulates the specification\<close>

definition oracle_abs :: "Oracle \<Rightarrow> SpecBook \<Rightarrow> bool" where
  "oracle_abs ora sb \<longleftrightarrow> spec_inv sb \<and> s_cap sb < 2 ^ 32 \<and> set (ora_orders ora) = set (s_orders sb) \<and>
     distinct (map r_order_id (ora_orders ora)) \<and> ora_capacity ora = s_cap sb \<and> ora_seq ora = s_seq sb \<and> ora_tid ora = s_tid sb"

lemma oracle_queues:
  assumes "oracle_abs ora sb"
  shows "holds_queues s (ora_orders ora) (s_queue sb (opposite s)) (s_queue sb s)"
proof -
  have inv: "queue_inv t (s_seq sb) (s_queue sb t)" "distinct (map r_order_id (s_orders sb))" for t
    using assms by (simp_all add: oracle_abs_def spec_inv_def)
  have "distinct (map r_order_id (s_queue sb (opposite s) @ s_queue sb s))"
    using inv(2) by (cases s) (auto simp: s_orders_def s_queue_def)
  then show ?thesis
    using assms inv(1) [of s] inv(1) [of "opposite s"]
    by (auto simp: holds_queues_def oracle_abs_def queue_inv_def s_orders_sides [of sb s])
qed

lemma oracle_length:
  assumes "set os = set xs" "distinct (map r_order_id os)" "distinct (map r_order_id xs)"
  shows "length os = length xs"
  using assms by (metis distinct_card distinct_map)

lemma oracle_seq: "ora_orders (ora\<lparr>ora_seq := n\<rparr>) = ora_orders ora" "Oracle_find (ora\<lparr>ora_seq := n\<rparr>) oid = Oracle_find ora oid"
  "fillable_before_self_trade (ora\<lparr>ora_seq := n\<rparr>) s limit acct = fillable_before_self_trade ora s limit acct"
  by (simp_all add: Oracle_find_def fillable_before_self_trade_def)

lemma submit_refines:
  assumes abs: "oracle_abs ora sb" and seq: "s_seq sb \<noteq> - 1" and lim: "tif = IOC \<or> has_limit"
    and inv: "spec_inv (snd (spec_submit id sb oid s (acceptable s has_limit limit) limit q acct tif))"
  shows "\<exists>ora'. Oracle_submit ora oid s has_limit limit q acct tif =
      (fst (spec_submit id sb oid s (acceptable s has_limit limit) limit q acct tif), ora') \<and>
    oracle_abs ora' (snd (spec_submit id sb oid s (acceptable s has_limit limit) limit q acct tif))"
proof -
  let ?ok = "acceptable s has_limit limit"
  obtain r sb' where sub: "spec_submit id sb oid s ?ok limit q acct tif = (r, sb')"
    by (metis prod.exhaust)
  have inv': "spec_inv sb'" "s_seq sb' = s_seq sb + 1" "s_cap sb' = s_cap sb"
    using inv sub spec_submit_frame [of id sb oid s ?ok limit q acct tif] by simp_all
  note st = abs [unfolded oracle_abs_def] and hq = oracle_queues [OF abs, of s]
  have find: "Oracle_find ora oid \<noteq> None \<longleftrightarrow> oid \<in> r_order_id ` set (s_orders sb)"
    using st by (simp add: Oracle_find_def find_from_index_None)
  have len: "length (s_queue sb (opposite s)) < 2 ^ 32"
    using st by (auto simp: spec_inv_def length_s_orders [of sb s])
  have fok: "fillable_before_self_trade ora s limit acct < ucast q \<longleftrightarrow> fillable ?ok acct (s_queue sb (opposite s)) < unat q"
    if "tif = FOK"
  proof -
    have "unat (ucast q :: 64 word) = unat q"
      using unsigned_less [of q, where ?'a = nat] by (simp add: unsigned_ucast_eq take_bit_nat_eq_self)
    moreover have "?ok = (\<lambda>p. limit_crosses s p limit)"
      using lim that by (auto simp: acceptable_def)
    ultimately show ?thesis
      using fillable_before_refines [OF hq len, of limit acct] by (simp add: word_less_nat_alt)
  qed
  from sub show ?thesis
  proof (cases rule: spec_submit_cases)
    case rejected
    then show ?thesis
      unfolding sub using find st inv' by (auto simp: Oracle_submit_def oracle_seq oracle_abs_def)
  next
    case killed
    then have "q \<noteq> 0" "fillable_before_self_trade ora s limit acct < ucast q" "Oracle_find ora oid = None"
      using fok find by auto
    then have "Oracle_submit ora oid s has_limit limit q acct tif = (r, ora\<lparr>ora_seq := ora_seq ora + 1\<rparr>)"
      using killed by (simp add: Oracle_submit_def oracle_seq Let_def)
    then show ?thesis
      unfolding sub using killed st inv' by (simp add: oracle_abs_def)
  next
    case (matched stp ts ys q' tid')
    from Oracle_match_refines [OF hq matched(4), of "[]"] obtain os where os:
        "Oracle_match s has_limit limit acct oid (s_seq sb) [] (ora_orders ora) q (s_tid sb) = (stp, ts, os, q', tid')"
        "set os = set ys \<union> set (s_queue sb s)" "distinct (map r_order_id os)"
      by auto
    have go: "q \<noteq> 0" "Oracle_find ora oid = None" "\<not> (tif = FOK \<and> fillable_before_self_trade ora s limit acct < ucast q)"
      using matched(1-3) fok find by auto
    obtain ks where ks: "map r_order_id (s_queue sb (opposite s)) = ks @ map r_order_id ys"
      using matched_ids [OF match_queue_matched [OF matched(4)]] by blast
    then have "distinct (map r_order_id (ys @ s_queue sb s))"
      using hq by (simp add: holds_queues_def)
    then have len': "length os = length (s_queue sb s) + length ys"
      using oracle_length [of os "ys @ s_queue sb s"] os(2,3) by simp
    define rests where "rests \<longleftrightarrow> tif = GTC \<and> \<not> stp \<and> q' > 0 \<and> length os < s_cap sb"
    define x where "x = \<lparr>r_side = s, r_price = limit, r_order_id = oid, r_qty = q', r_account = acct, r_seq_no = s_seq sb\<rparr>"
    define ora' where "ora' = ora\<lparr>ora_seq := s_seq sb + 1, ora_orders := (if rests then os @ [x] else os), ora_tid := tid'\<rparr>"
    have r: "r = \<lparr>accepted = True, trades = ts, resting_qty = (if rests then q' else 0), stp_rejected = stp,
        pool_exhausted = (tif = GTC \<and> \<not> stp \<and> q' > 0 \<and> \<not> rests)\<rparr>"
      using matched(7-11) len' by (cases "q' = 0"; cases r) (auto simp: rests_def word_neq_0_conv)
    have "Oracle_submit ora oid s has_limit limit q acct tif = (r, ora')"
      using go os(1) lim st by (auto simp: Oracle_submit_def oracle_seq Let_def r ora'_def rests_def x_def empty_result_def)
    moreover have "set (ora_orders ora') = set (s_orders sb')"
      using os(2) matched(5,12) r by (auto simp: ora'_def s_orders_sides [of sb' s] x_def rests_def)
    moreover have "r_order_id ` set os \<subseteq> r_order_id ` set (s_orders sb)"
      using arg_cong [OF ks, of set] os(2) by (auto simp: s_orders_sides [of sb s] image_Un)
    then have "distinct (map r_order_id (ora_orders ora'))"
      using os(3) matched(2) by (auto simp: ora'_def x_def)
    ultimately show ?thesis
      unfolding sub using st inv' matched(6) by (simp add: oracle_abs_def ora'_def)
  qed
qed

lemma find_refines_lookup:
  assumes "oracle_abs ora sb"
  shows "Oracle_find ora oid = None \<Longrightarrow> lookup_id sb oid = None"
    "Oracle_find ora oid = Some i \<Longrightarrow> \<exists>as x bs. ora_orders ora = as @ x # bs \<and> i = length as \<and> lookup_id sb oid = Some x"
proof -
  have os: "set (ora_orders ora) = set (s_orders sb)" and dist: "distinct (map r_order_id (s_orders sb))"
    using assms by (simp_all add: oracle_abs_def spec_inv_def)
  show "lookup_id sb oid = None" if "Oracle_find ora oid = None"
    using that os by (auto simp: Oracle_find_def find_from_index_None lookup_id_def find_None_iff)
  assume "Oracle_find ora oid = Some i"
  then obtain as x bs where x: "ora_orders ora = as @ x # bs" "i = length as" "r_order_id x = oid"
    using find_from_index_Some [of oid "ora_orders ora" 0 i] by (auto simp: Oracle_find_def)
  then have mem: "x \<in> set (s_orders sb)"
    using os by auto
  have "lookup_id sb oid = Some x"
  proof (cases "lookup_id sb oid")
    case None
    then show ?thesis
      using mem x(3) by (auto simp: lookup_id_def find_None_iff)
  next
    case (Some y)
    then show ?thesis
      using lookup_id_Some [OF Some] mem x(3) dist by (auto simp: distinct_map inj_on_def)
  qed
  then show "\<exists>as x bs. ora_orders ora = as @ x # bs \<and> i = length as \<and> lookup_id sb oid = Some x"
    using x by blast
qed

lemma oracle_cancel_refines:
  assumes abs: "oracle_abs ora sb" and inv: "spec_inv (snd (spec_cancel sb oid))"
  shows "\<exists>ora'. Oracle_cancel ora oid = (fst (spec_cancel sb oid), ora') \<and> oracle_abs ora' (snd (spec_cancel sb oid))"
proof (cases "Oracle_find ora oid")
  case None
  then show ?thesis
    using find_refines_lookup(1) [OF abs None] abs inv
    by (auto simp: Oracle_cancel_def spec_cancel_def oracle_abs_def Oracle_find_def lookup_id_def)
next
  case (Some i)
  obtain as x bs where x: "ora_orders ora = as @ x # bs" "i = length as" "lookup_id sb oid = Some x"
    using find_refines_lookup(2) [OF abs Some] by blast
  have sp: "spec_cancel sb oid = (True, set_queue (sb\<lparr>s_seq := s_seq sb + 1\<rparr>) (r_side x) (remove_id oid (s_queue sb (r_side x))))"
    using x(3) by (simp add: spec_cancel_def lookup_id_def)
  note st = abs [unfolded oracle_abs_def]
  have "set (as @ bs) = set (s_orders (snd (spec_cancel sb oid)))"
    using s_orders_rewritten [OF _ x(3), of "remove_id oid (s_queue sb (r_side x))" "{}"] st x(1) by (auto simp: sp distinct_map)
  moreover have "Oracle_cancel ora oid = (True, ora\<lparr>ora_seq := ora_seq ora + 1, ora_orders := as @ bs\<rparr>)"
    using Some x(1,2) by (simp add: Oracle_cancel_def oracle_seq Let_def)
  ultimately show ?thesis
    using st inv x(1) by (auto simp: sp oracle_abs_def)
qed

lemma would_cross_oracle:
  assumes "oracle_abs ora sb"
  shows "best_opposite s True p (ora_orders ora) \<noteq> None \<longleftrightarrow> spec_would_cross sb s p"
proof (cases "best_opposite s True p (ora_orders ora)")
  case None
  then show ?thesis
    using best_opposite_None [OF oracle_queues [OF assms] None]
    by (auto simp: spec_would_cross_def acceptable_def split: list.splits)
next
  case (Some m)
  then show ?thesis
    using best_opposite_Some [OF oracle_queues [OF assms] Some]
    by (auto simp: spec_would_cross_def acceptable_def)
qed

lemma oracle_modify_refines:
  assumes abs: "oracle_abs ora sb" and inv: "spec_inv (snd (spec_modify sb oid p q))"
  shows "\<exists>ora'. Oracle_modify ora oid p q = (fst (spec_modify sb oid p q), ora') \<and> oracle_abs ora' (snd (spec_modify sb oid p q))"
proof (cases "q = 0 \<or> Oracle_find ora oid = None")
  case True
  then have "spec_modify sb oid p q = (False, sb\<lparr>s_seq := s_seq sb + 1\<rparr>)"
    using find_refines_lookup(1) [OF abs] by (auto simp: spec_modify_def lookup_id_def Let_def)
  moreover have "Oracle_modify ora oid p q = (False, ora\<lparr>ora_seq := ora_seq ora + 1\<rparr>)"
    using True by (auto simp: Oracle_modify_def oracle_seq Let_def)
  ultimately show ?thesis
    using abs inv by (simp add: oracle_abs_def)
next
  case False
  then obtain i where i: "Oracle_find ora oid = Some i" and q: "q \<noteq> 0"
    by auto
  obtain as x bs where x: "ora_orders ora = as @ x # bs" "i = length as" "lookup_id sb oid = Some x"
    using find_refines_lookup(2) [OF abs i] by blast
  note st = abs [unfolded oracle_abs_def]
  have sbx: "lookup_id (sb\<lparr>s_seq := n\<rparr>) oid = Some x" for n
    using x(3) by (simp add: lookup_id_def)
  have "x \<in> set (s_queue sb (r_side x))" and idx: "r_order_id x = oid"
    using lookup_side [OF _ x(3)] lookup_id_Some [OF x(3)] st by auto
  have finish: ?thesis if sp: "spec_modify sb oid p q = (True, set_queue (sb\<lparr>s_seq := s_seq sb + 1\<rparr>) (r_side x) xs)"
      and new: "set xs = {y} \<union> {z \<in> set (s_queue sb (r_side x)). r_order_id z \<noteq> oid}" "r_order_id y = oid"
      and om: "Oracle_modify ora oid p q = (True, ora\<lparr>ora_seq := ora_seq ora + 1, ora_orders := as @ y # bs\<rparr>)" for xs y
  proof -
    have "set (as @ y # bs) = set (s_orders (snd (spec_modify sb oid p q)))"
      using s_orders_rewritten [OF _ x(3) new(1)] st x(1) by (auto simp: sp distinct_map)
    moreover have "distinct (map r_order_id (as @ y # bs))"
      using st x(1) new(2) idx by auto
    ultimately show ?thesis
      using st inv om by (auto simp: sp oracle_abs_def)
  qed
  consider "p = r_price x \<and> q \<le> r_qty x" | "\<not> (p = r_price x \<and> q \<le> r_qty x)" "spec_would_cross sb (r_side x) p"
    | "\<not> (p = r_price x \<and> q \<le> r_qty x)" "\<not> spec_would_cross sb (r_side x) p"
    by blast
  then show ?thesis
  proof cases
    case 1
    have "z = x" if "z \<in> set (s_queue sb (r_side x))" "r_order_id z = oid" for z
      using that st lookup_id_Some [OF x(3)]
      by (auto simp: spec_inv_def distinct_map inj_on_def s_orders_sides [of sb "r_side x"])
    then have "set (set_qty oid q (s_queue sb (r_side x))) =
        {x\<lparr>r_qty := q\<rparr>} \<union> {z \<in> set (s_queue sb (r_side x)). r_order_id z \<noteq> oid}"
      using \<open>x \<in> set (s_queue sb (r_side x))\<close> idx by (auto simp: set_qty_def image_iff)
    with 1 show ?thesis
      using q i x(1,2) sbx idx
      by (intro finish [of "set_qty oid q (s_queue sb (r_side x))" "x\<lparr>r_qty := q\<rparr>"])
        (auto simp: spec_modify_def Oracle_modify_def oracle_seq Let_def)
  next
    case 2
    then have "best_opposite (r_side x) True p (ora_orders ora) \<noteq> None"
      using would_cross_oracle [OF abs] by simp
    then have "Oracle_modify ora oid p q = (False, ora\<lparr>ora_seq := ora_seq ora + 1\<rparr>)"
      using 2 q i x(1,2) by (auto simp: Oracle_modify_def oracle_seq Let_def)
    moreover have "spec_modify sb oid p q = (False, sb\<lparr>s_seq := s_seq sb + 1\<rparr>)"
      using 2 q sbx by (auto simp: spec_modify_def Let_def)
    ultimately show ?thesis
      using st inv by (auto simp: oracle_abs_def)
  next
    case 3
    let ?y = "x\<lparr>r_price := p, r_qty := q, r_seq_no := s_seq sb\<rparr>"
    have "best_opposite (r_side x) True p (ora_orders ora) = None"
      using 3 would_cross_oracle [OF abs, of "r_side x" p] by simp
    then show ?thesis
      using 3 q i x(1,2) sbx idx st
      by (intro finish [of "enqueue (r_side x) ?y (remove_id oid (s_queue sb (r_side x)))" ?y])
        (auto simp: spec_modify_def Oracle_modify_def oracle_seq Let_def)
  qed
qed

lemma oracle_step_refines:
  assumes abs: "oracle_abs ora sb" and seq: "s_seq sb \<noteq> - 1"
  shows "\<exists>ora'. oracle_step ora c = (fst (spec_step id sb c), ora') \<and> oracle_abs ora' (snd (spec_step id sb c))"
proof -
  have "spec_inv sb"
    using abs by (simp add: oracle_abs_def)
  note inv = spec_step_inv [OF this seq, of id c]
  show ?thesis
  proof (cases "kind c")
    case Limit
    have "acceptable (c_side c) True (c_price c) = (\<lambda>r. limit_crosses (c_side c) r (c_price c))"
      by (auto simp: acceptable_def)
    then show ?thesis
      using submit_refines [OF abs seq, of "c_tif c" True "c_id c" "c_side c" "c_price c" "c_qty c" "c_account c"] inv Limit
      by (auto simp: oracle_step_def spec_step_def add_limit_def)
  next
    case Market
    have "acceptable (c_side c) False (Price 0) = (\<lambda>_. True)"
      by (auto simp: acceptable_def)
    then show ?thesis
      using submit_refines [OF abs seq, of IOC False "c_id c" "c_side c" "Price 0" "c_qty c" "c_account c"] inv Market
      by (auto simp: oracle_step_def spec_step_def add_market_def)
  next
    case Cancel
    then show ?thesis
      using oracle_cancel_refines [OF abs, of "c_id c"] inv by (auto simp: oracle_step_def spec_step_def)
  next
    case Modify
    then show ?thesis
      using oracle_modify_refines [OF abs, of "c_id c" "c_price c" "c_qty c"] inv by (auto simp: oracle_step_def spec_step_def)
  qed
qed

lemma Oracle_new_abs: "n < 2 ^ 32 \<Longrightarrow> oracle_abs (Oracle_new n) (spec_new n)"
  using spec_new_inv [of n] by (simp add: oracle_abs_def Oracle_new_def spec_new_def s_orders_def)

lemma snapshot_less_asym: "snapshot_less a b \<Longrightarrow> \<not> snapshot_less b a"
  by (cases "r_side a"; cases "r_side b") (auto simp: snapshot_less_def split: if_splits)

lemma snapshot_less_priority: "r_side a = s \<Longrightarrow> r_side b = s \<Longrightarrow> snapshot_less a b \<longleftrightarrow> in_priority s a b"
  by (cases s) (auto simp: snapshot_less_def in_priority_def better_cases)

lemma Oracle_snapshot_abs:
  assumes "oracle_abs ora sb"
  shows "Oracle_snapshot ora = s_orders sb"
proof -
  have q: "queue_inv Buy (s_seq sb) (s_bids sb)" "queue_inv Sell (s_seq sb) (s_asks sb)"
    using assms by (auto simp: oracle_abs_def spec_inv_def s_queue_def dest: spec [of _ Buy] spec [of _ Sell])
  have side: "sorted_wrt snapshot_less xs" if "queue_inv s n xs" for s n xs
    by (rule sorted_wrt_mono_rel [of _ "in_priority s"]) (use that snapshot_less_priority in \<open>auto simp: queue_inv_def\<close>)
  have "sorted_wrt snapshot_less (s_orders sb)"
    using side [OF q(1)] side [OF q(2)] q by (auto simp: s_orders_def sorted_wrt_append queue_inv_def snapshot_less_def)
  then show ?thesis
    using assms snapshot_less_asym unfolding Oracle_snapshot_def
    by (intro sort_by_unique) (auto simp: oracle_abs_def distinct_map)
qed

section \<open>Engine and oracle\<close>

text \<open>The engine's total of a fill-or-kill check is the oracle's as long as that fits in 32 bits.\<close>

definition fok_fits :: "Oracle \<Rightarrow> Command \<Rightarrow> bool" where
  "fok_fits ora c \<longleftrightarrow> (kind c = Limit \<and> c_tif c = FOK \<longrightarrow>
     fillable_before_self_trade ora (c_side c) (c_price c) (c_account c) < 2 ^ 32)"

lemma spec_step_fits:
  assumes abs: "oracle_abs ora sb" and fits: "fok_fits ora c"
  shows "spec_step wrap32 sb c = spec_step id sb c"
proof (cases "kind c = Limit \<and> c_tif c = FOK")
  case True
  let ?xs = "s_queue sb (opposite (c_side c))"
  have "length ?xs < 2 ^ 32"
    using abs by (auto simp: oracle_abs_def spec_inv_def length_s_orders [of sb "c_side c"])
  from fillable_before_refines [OF oracle_queues [OF abs] this, of "c_price c" "c_account c"]
  have "fillable (\<lambda>r. limit_crosses (c_side c) r (c_price c)) (c_account c) ?xs < 2 ^ 32"
    using fits True by (simp add: fok_fits_def word_less_nat_alt)
  then have "wrap32 (fillable (\<lambda>r. limit_crosses (c_side c) r (c_price c)) (c_account c) ?xs) =
      id (fillable (\<lambda>r. limit_crosses (c_side c) r (c_price c)) (c_account c) ?xs)"
    by (simp add: wrap32_def)
  then show ?thesis
    using True by (simp add: spec_step_def spec_submit_def Let_def)
next
  case False
  then show ?thesis
    by (auto simp: spec_step_def spec_submit_def Let_def split: CommandKind.splits)
qed

definition agree :: "engine \<Rightarrow> Oracle \<Rightarrow> bool" where
  "agree e ora \<longleftrightarrow> (\<exists>sb. engine_abs e sb \<and> oracle_abs ora sb)"

interpretation differential: simulation agree engine_step oracle_step "\<lambda>ora c. fok_fits ora c \<and> ora_seq ora \<noteq> - 1"
proof unfold_locales
  fix e ora c
  assume "agree e ora" and guard: "fok_fits ora c \<and> ora_seq ora \<noteq> - 1"
  then obtain sb where sb: "engine_abs e sb" "oracle_abs ora sb"
    by (auto simp: agree_def)
  have "s_seq sb \<noteq> - 1"
    using guard sb(2) by (simp add: oracle_abs_def)
  from oracle_step_refines [OF sb(2) this, of c] engine_step_refines [OF sb(1), of c] spec_step_fits [OF sb(2), of c] guard
  show "\<exists>e'. engine_step e c = Some (fst (oracle_step ora c), e') \<and> agree e' (snd (oracle_step ora c))"
    by (auto simp: agree_def)
qed

end
