(* ===== verification/Differential.thy ===== *)
theory Differential
  imports Oracle_Refinement
begin

text \<open>
  The claim the differential tests sample, for all inputs: the engine and the oracle agree on every outcome,
  every trade and every snapshot, unless the total of a fill-or-kill check leaves 32 bits.
\<close>

lemma run_guard_conj: "run_guard P spec t cs \<Longrightarrow> run_guard Q spec t cs \<Longrightarrow> run_guard (\<lambda>t c. P t c \<and> Q t c) spec t cs"
  by (induction cs arbitrary: t) auto

lemma Oracle_submit_seq: "ora_seq (snd (Oracle_submit ora oid s has_limit limit q acct tif)) = ora_seq ora + 1"
  by (simp add: Oracle_submit_def Let_def split: prod.splits)

lemma oracle_step_seq: "ora_seq (snd (oracle_step ora c)) = ora_seq ora + 1"
  by (auto simp: oracle_step_def add_limit_def add_market_def Oracle_submit_seq Oracle_cancel_def Oracle_modify_def Let_def
      split: CommandKind.split option.split)

lemma oracle_run_seq:
  "ora_seq ora = of_nat n \<Longrightarrow> n + length cs < 2 ^ 64 \<Longrightarrow> run_guard (\<lambda>ora _. ora_seq ora \<noteq> - 1) oracle_step ora cs"
proof (induction cs arbitrary: ora n)
  case (Cons c cs)
  have "ora_seq ora \<noteq> - 1"
    using Cons.prems seq_not_last [of n] by simp
  moreover have "run_guard (\<lambda>ora _. ora_seq ora \<noteq> - 1) oracle_step (snd (oracle_step ora c)) cs"
    using Cons.prems by (intro Cons.IH [of _ "Suc n"]) (simp_all add: oracle_step_seq add.commute)
  ultimately show ?case
    by simp
qed simp

lemma new_agree: "agree (engine_new cap) (Oracle_new (unat cap))"
proof -
  have "unat cap < 2 ^ 32"
    using unsigned_less [of cap, where ?'a = nat] by simp
  then show ?thesis
    using engine_new_abs [of cap] Oracle_new_abs unfolding agree_def by blast
qed

lemma oracle_run:
  assumes "run_guard fok_fits oracle_step (Oracle_new (unat cap)) cs" "length cs < 2 ^ 64"
  obtains e where "run_steps engine_step (engine_new cap) cs = Some (fst (run_spec oracle_step (Oracle_new (unat cap)) cs), e)"
    "snapshot (fst e) = Some (Oracle_snapshot (snd (run_spec oracle_step (Oracle_new (unat cap)) cs)))"
proof -
  have "run_guard (\<lambda>ora _. ora_seq ora \<noteq> - 1) oracle_step (Oracle_new (unat cap)) cs"
    using assms(2) by (intro oracle_run_seq [of _ 0]) (simp_all add: Oracle_new_def)
  from differential.run_refines [OF new_agree run_guard_conj [OF assms(1) this]] obtain e where
    "run_steps engine_step (engine_new cap) cs = Some (fst (run_spec oracle_step (Oracle_new (unat cap)) cs), e)"
    "agree e (snd (run_spec oracle_step (Oracle_new (unat cap)) cs))"
    by blast
  then show ?thesis
    using that snapshot_refines Oracle_snapshot_abs by (fastforce simp: agree_def engine_abs_def)
qed

text \<open>C2. On every sequence of fewer than 2^64 commands, in which no fill-or-kill check finds 2^32 or more available,
  the engine returns the same outcomes and trades as the reference implementation and ends with the same
  snapshot.\<close>

theorem engine_matches_oracle:
  assumes "run_guard fok_fits oracle_step (Oracle_new (unat cap)) cs" "length cs < 2 ^ 64"
  shows "\<exists>e. run_steps engine_step (engine_new cap) cs = Some (fst (run_spec oracle_step (Oracle_new (unat cap)) cs), e) \<and>
    snapshot (fst e) = Some (Oracle_snapshot (snd (run_spec oracle_step (Oracle_new (unat cap)) cs)))"
  using oracle_run [OF assms] by metis

definition sample_stream :: "Command list" where
  "sample_stream = sample_commands @ [limit_command 4 Buy (Price 102) 7 1 FOK, modify_command 3 (Price 99) 6, cancel_command 1]"

theorem engine_matches_oracle_witness:
  "\<exists>e. run_steps engine_step (engine_new 4) sample_stream = Some (fst (run_spec oracle_step (Oracle_new 4) sample_stream), e) \<and>
    snapshot (fst e) = Some (Oracle_snapshot (snd (run_spec oracle_step (Oracle_new 4) sample_stream)))"
proof -
  have "run_guard fok_fits oracle_step (Oracle_new 4) sample_stream"
    by code_simp
  moreover have "length sample_stream < 2 ^ 64"
    by (simp add: sample_stream_def sample_commands_def)
  ultimately show ?thesis
    using engine_matches_oracle [of 4 sample_stream] by simp
qed

end
