(* ===== verification/Workload.thy ===== *)
theory Workload
  imports Engine_Run
begin

unbundle bit_operations_syntax

text \<open>
  \<open>bench/workload.hpp\<close>: the generator of the baseline workload W1. It runs a book of its own to know which
  orders rest, so that a cancel always hits one. An \<open>unordered_map\<close> is a map; its \<open>operator[]\<close> reads
  a missing key as zero.
\<close>

section \<open>The code\<close>

datatype CmdKind = LimitCmd | CancelCmd

record Cmd =
  cmd_kind :: CmdKind
  cmd_side :: Side
  cmd_id :: OrderId
  cmd_price :: Price
  cmd_qty :: Qty
  cmd_account :: Account

definition default_Cmd :: Cmd where
  "default_Cmd = \<lparr>cmd_kind = LimitCmd, cmd_side = Buy, cmd_id = 0, cmd_price = Price 0, cmd_qty = 0, cmd_account = 0\<rparr>"

record W1Params =
  mid :: Price
  max_offset :: "32 word"
  cross_shift :: "32 word"
  cancel_percent :: "32 word"
  target_resting :: "32 word"
  max_qty :: Qty

definition default_W1Params :: W1Params where
  "default_W1Params = \<lparr>mid = Price 100000, max_offset = 5000, cross_shift = 50, cancel_percent = 30,
     target_resting = 3000, max_qty = 100\<rparr>"

type_synonym Rng = "64 word"

definition Rng_next :: "Rng \<Rightarrow> 64 word \<times> Rng" where
  "Rng_next state =
     (let state = state + 0x9E3779B97F4A7C15;
          z = state;
          z = (z XOR drop_bit 30 z) * 0xBF58476D1CE4E5B9;
          z = (z XOR drop_bit 27 z) * 0x94D049BB133111EB
      in (z XOR drop_bit 31 z, state))"

definition Rng_below :: "Rng \<Rightarrow> 64 word \<Rightarrow> (64 word \<times> Rng) option" where
  "Rng_below state n = (if n = 0 then None else case Rng_next state of (z, state) \<Rightarrow> Some (z mod n, state))"

fun zipf_loop :: "nat \<Rightarrow> nat \<Rightarrow> 64 word \<Rightarrow> 64 word list" where
  "zipf_loop r 0 acc = []"
| "zipf_loop r (Suc k) acc = (let acc = acc + push_bit 40 1 div of_nat r in acc # zipf_loop (r + 1) k acc)"

definition zipf_cdf :: "32 word \<Rightarrow> 64 word list" where
  "zipf_cdf n = zipf_loop 1 (unat n) 0"

definition kPpm :: "64 word" where
  "kPpm = 1000000"

definition kMaxCancelPpm :: "64 word" where
  "kMaxCancelPpm = 900000"

definition kBookCapacity :: Index where
  "kBookCapacity = push_bit 16 1"

text \<open>What the generator knows of the resting orders.\<close>

record Tracker =
  live :: "OrderId list"
  where_ix :: "OrderId \<Rightarrow> nat option"
  remaining :: "OrderId \<Rightarrow> Qty option"

definition forget :: "Tracker \<Rightarrow> OrderId \<Rightarrow> Tracker option" where
  "forget t oid =
     (let i = (case where_ix t oid of None \<Rightarrow> 0 | Some i \<Rightarrow> i)
      in if live t = [] \<or> length (live t) \<le> i then None
         else let lv = (live t)[i := last (live t)];
                  wh = (where_ix t)(lv ! i \<mapsto> i)
              in Some \<lparr>live = butlast lv, where_ix = wh(oid := None), remaining = (remaining t)(oid := None)\<rparr>)"

fun forget_filled :: "Tracker \<Rightarrow> Trade list \<Rightarrow> Tracker option" where
  "forget_filled t [] = Some t"
| "forget_filled t (tr # ts) =
     (let left = (case remaining t (maker_order_id tr) of None \<Rightarrow> 0 | Some q \<Rightarrow> q) - tr_qty tr;
          t = t\<lparr>remaining := (remaining t)(maker_order_id tr \<mapsto> left)\<rparr>
      in if left = 0 then do { t \<leftarrow> forget t (maker_order_id tr); forget_filled t ts }
         else forget_filled t ts)"

definition note_resting :: "Tracker \<Rightarrow> OrderId \<Rightarrow> Qty \<Rightarrow> Tracker" where
  "note_resting t oid q =
     \<lparr>live = live t @ [oid], where_ix = (where_ix t)(oid \<mapsto> length (live t)), remaining = (remaining t)(oid \<mapsto> q)\<rparr>"

record Gen =
  g_rng :: Rng
  g_book :: Book
  g_track :: Tracker
  g_next_id :: OrderId

definition cancel_ppm :: "W1Params \<Rightarrow> nat \<Rightarrow> 64 word option" where
  "cancel_ppm p n =
     (if target_resting p = 0 then None
      else Some (min kMaxCancelPpm (ucast (cancel_percent p) * (kPpm div 100) * of_nat n div ucast (target_resting p))))"

text \<open>\<open>std::upper_bound\<close> is the binary search for the first entry above \<open>u\<close>.\<close>

definition draw_limit :: "W1Params \<Rightarrow> 64 word list \<Rightarrow> Rng \<Rightarrow> OrderId \<Rightarrow> (Cmd \<times> Rng) option" where
  "draw_limit p cdf rng oid =
     do {
       (coin, rng) \<leftarrow> Rng_below rng 2;
       let s = (if coin = 0 then Buy else Sell);
       assert_that (cdf \<noteq> []);
       (u, rng) \<leftarrow> Rng_below rng (last cdf);
       i \<leftarrow> lower_bound (\<lambda>x. x \<le> u) cdf 0 (length cdf);
       let rank = of_nat i + 1;
       let offset = rank - ucast (cross_shift p);
       (q, rng) \<leftarrow> Rng_below rng (ucast (max_qty p));
       Some (default_Cmd\<lparr>cmd_kind := LimitCmd, cmd_side := s,
         cmd_price := Price (if s = Buy then ticks (mid p) - offset else ticks (mid p) + offset),
         cmd_qty := ucast (q + 1), cmd_id := oid, cmd_account := ucast oid\<rparr>, rng)
     }"

definition gen_step :: "W1Params \<Rightarrow> 64 word list \<Rightarrow> Gen \<Rightarrow> (Cmd \<times> Gen) option" where
  "gen_step p cdf g =
     do {
       ppm \<leftarrow> cancel_ppm p (length (live (g_track g)));
       (roll, rng) \<leftarrow> (if live (g_track g) = [] then Some (ppm, g_rng g) else Rng_below (g_rng g) kPpm);
       if live (g_track g) \<noteq> [] \<and> roll < ppm then
         do {
           (i, rng) \<leftarrow> Rng_below rng (of_nat (length (live (g_track g))));
           oid \<leftarrow> nth_opt (live (g_track g)) (unat i);
           (_, book) \<leftarrow> cancel_order (g_book g) oid;
           track \<leftarrow> forget (g_track g) oid;
           Some (default_Cmd\<lparr>cmd_kind := CancelCmd, cmd_id := oid\<rparr>, g\<lparr>g_rng := rng, g_book := book, g_track := track\<rparr>)
         }
       else
         do {
           (c, rng) \<leftarrow> draw_limit p cdf rng (g_next_id g);
           (r, book) \<leftarrow> add_limit_order empty_result (g_book g) (cmd_id c) (cmd_side c) (cmd_price c) (cmd_qty c)
                          (cmd_account c) GTC;
           track \<leftarrow> forget_filled (g_track g) (trades r);
           let track = (if resting_qty r > 0 then note_resting track (cmd_id c) (resting_qty r) else track);
           Some (c, \<lparr>g_rng = rng, g_book = book, g_track = track, g_next_id = g_next_id g + 1\<rparr>)
         }
     }"

fun gen_loop :: "W1Params \<Rightarrow> 64 word list \<Rightarrow> Gen \<Rightarrow> nat \<Rightarrow> (Cmd list \<times> Gen) option" where
  "gen_loop p cdf g 0 = Some ([], g)"
| "gen_loop p cdf g (Suc ops) =
     do { (c, g) \<leftarrow> gen_step p cdf g; (cs, g) \<leftarrow> gen_loop p cdf g ops; Some (c # cs, g) }"

definition gen_new :: "64 word \<Rightarrow> Gen" where
  "gen_new seed = \<lparr>g_rng = seed, g_book = Book_new kBookCapacity,
     g_track = \<lparr>live = [], where_ix = (\<lambda>_. None), remaining = (\<lambda>_. None)\<rparr>, g_next_id = 1\<rparr>"

definition generate :: "W1Params \<Rightarrow> 64 word \<Rightarrow> nat \<Rightarrow> Cmd list option" where
  "generate p seed ops = map_option fst (gen_loop p (zipf_cdf (max_offset p)) (gen_new seed) ops)"

end
