(* ===== verification/Timing.thy ===== *)
theory Timing
  imports Engine_Types Complex_Main "HOL-Library.Signed_Division"
begin

text \<open>
  \<open>bench/timing.hpp\<close>: the cycle counter, its calibration against \<open>steady_clock\<close> and the conversion of ticks.

  What the machine answers is an argument: the readings of the two clocks as a sequence, and the result of
  \<open>cpuid\<close>. So is the arithmetic of \<open>double\<close>, a record of the operations the harness uses; a property that
  needs a law of it names the law. Times of \<open>steady_clock\<close> are integers, far from the limits of 64 bits.
\<close>

section \<open>The code\<close>

record 'd fp =
  fp_of_u64 :: "64 word \<Rightarrow> 'd"
  fp_of_i64 :: "int \<Rightarrow> 'd"
  fp_mul :: "'d \<Rightarrow> 'd \<Rightarrow> 'd"
  fp_div :: "'d \<Rightarrow> 'd \<Rightarrow> 'd"
  fp_sub :: "'d \<Rightarrow> 'd \<Rightarrow> 'd"
  fp_less :: "'d \<Rightarrow> 'd \<Rightarrow> bool"
  fp_le :: "'d \<Rightarrow> 'd \<Rightarrow> bool"
  fp_fixed :: "nat \<Rightarrow> 'd \<Rightarrow> string"

text \<open>One try of \<open>sample_pair\<close>: the counter read between two reads of the clock.\<close>

record Reading =
  rd_before :: int
  rd_ticks :: "64 word"
  rd_after :: int

record TscSample =
  ts_ticks :: "64 word"
  ts_ns :: int

fun sample_loop :: "nat \<Rightarrow> (nat \<Rightarrow> Reading) \<Rightarrow> nat \<Rightarrow> TscSample \<Rightarrow> int \<Rightarrow> TscSample" where
  "sample_loop 0 rd k best best_gap = best"
| "sample_loop (Suc n) rd k best best_gap =
     (let gap = rd_after (rd k) - rd_before (rd k)
      in if gap < best_gap
         then sample_loop n rd (k + 1) \<lparr>ts_ticks = rd_ticks (rd k), ts_ns = rd_before (rd k) + gap sdiv 2\<rparr> gap
         else sample_loop n rd (k + 1) best best_gap)"

definition sample_pair :: "(nat \<Rightarrow> Reading) \<Rightarrow> nat \<Rightarrow> TscSample" where
  "sample_pair rd k = sample_loop 16 rd k \<lparr>ts_ticks = 0, ts_ns = 0\<rparr> (2 ^ 63 - 1)"

definition kWindowNs :: int where
  "kWindowNs = 20000000"

partial_function (option) calibrate :: "(nat \<Rightarrow> Reading) \<Rightarrow> nat \<Rightarrow> TscSample \<Rightarrow> TscSample \<Rightarrow> TscSample option" where
  "calibrate rd k start stop =
     (if ts_ns stop - ts_ns start < kWindowNs then calibrate rd (k + 16) start (sample_pair rd k) else Some stop)"

definition TscClock :: "'d fp \<Rightarrow> (nat \<Rightarrow> Reading) \<Rightarrow> 'd option" where
  "TscClock fp rd =
     do {
       let start = sample_pair rd 0;
       stop \<leftarrow> calibrate rd 16 start start;
       Some (fp_div fp (fp_of_u64 fp (ts_ticks stop - ts_ticks start)) (fp_of_i64 fp (ts_ns stop - ts_ns start)))
     }"

definition to_ns :: "'d fp \<Rightarrow> 'd \<Rightarrow> 64 word \<Rightarrow> 'd" where
  "to_ns fp ticks_per_ns t = fp_div fp (fp_of_u64 fp t) ticks_per_ns"

definition tsc_is_invariant :: "(32 word \<Rightarrow> (32 word \<times> 32 word \<times> 32 word \<times> 32 word) option) \<Rightarrow> bool" where
  "tsc_is_invariant cpuid = (case cpuid 0x80000007 of None \<Rightarrow> False | Some (a, b, c, d) \<Rightarrow> drop_bit 8 d AND 1 \<noteq> 0)"

section \<open>The narrowest pair wins\<close>

definition sampled :: "(nat \<Rightarrow> Reading) \<Rightarrow> nat \<Rightarrow> TscSample \<Rightarrow> bool" where
  "sampled rd i s \<longleftrightarrow> ts_ticks s = rd_ticks (rd i) \<and> rd_before (rd i) \<le> ts_ns s \<and> ts_ns s \<le> rd_after (rd i)"

definition gap_of :: "(nat \<Rightarrow> Reading) \<Rightarrow> nat \<Rightarrow> int" where
  "gap_of rd k = rd_after (rd k) - rd_before (rd k)"

lemma midpoint_sampled:
  assumes "0 \<le> gap_of rd k"
  shows "sampled rd k \<lparr>ts_ticks = rd_ticks (rd k), ts_ns = rd_before (rd k) + gap_of rd k sdiv 2\<rparr>"
proof -
  have "gap_of rd k sdiv 2 = gap_of rd k div 2"
    using assms by (cases "gap_of rd k = 0") (simp_all add: signed_divide_int_def sgn_if)
  then show ?thesis
    using assms by (simp add: sampled_def gap_of_def)
qed

lemma sample_loop_narrowest:
  assumes "\<And>j. 0 \<le> gap_of rd j" "best_gap = gap_of rd i" "sampled rd i best"
  shows "\<exists>m. (m = i \<or> m \<in> {k..<k + n}) \<and> sampled rd m (sample_loop n rd k best best_gap) \<and> gap_of rd m \<le> gap_of rd i \<and>
    (\<forall>j \<in> {k..<k + n}. gap_of rd m \<le> gap_of rd j)"
  using assms(2,3)
proof (induction n arbitrary: k best best_gap i)
  case (Suc n)
  have split: "{k..<k + Suc n} = insert k {k + 1..<k + 1 + n}"
    by auto
  show ?case
  proof (cases "gap_of rd k < best_gap")
    case True
    let ?s = "\<lparr>ts_ticks = rd_ticks (rd k), ts_ns = rd_before (rd k) + gap_of rd k sdiv 2\<rparr>"
    obtain m where "m = k \<or> m \<in> {k + 1..<k + 1 + n}" "sampled rd m (sample_loop n rd (k + 1) ?s (gap_of rd k))"
        "gap_of rd m \<le> gap_of rd k" "\<forall>j \<in> {k + 1..<k + 1 + n}. gap_of rd m \<le> gap_of rd j"
      using Suc.IH [OF refl midpoint_sampled [OF assms(1) [of k]], of "k + 1"] by auto
    then show ?thesis
      using True Suc.prems(1) unfolding split by (intro exI [of _ m]) (auto simp: Let_def gap_of_def)
  next
    case False
    obtain m where "m = i \<or> m \<in> {k + 1..<k + 1 + n}" "sampled rd m (sample_loop n rd (k + 1) best best_gap)"
        "gap_of rd m \<le> gap_of rd i" "\<forall>j \<in> {k + 1..<k + 1 + n}. gap_of rd m \<le> gap_of rd j"
      using Suc.IH [OF Suc.prems, of "k + 1"] by auto
    then show ?thesis
      using False Suc.prems(1) unfolding split by (intro exI [of _ m]) (auto simp: Let_def gap_of_def)
  qed
qed auto

lemma sample_pair_narrowest:
  assumes "\<And>j. 0 \<le> gap_of rd j \<and> gap_of rd j < 2 ^ 63 - 1"
  shows "\<exists>m \<in> {k..<k + 16}. sampled rd m (sample_pair rd k) \<and> (\<forall>j \<in> {k..<k + 16}. gap_of rd m \<le> gap_of rd j)"
proof -
  let ?s = "\<lparr>ts_ticks = rd_ticks (rd k), ts_ns = rd_before (rd k) + gap_of rd k sdiv 2\<rparr>"
  have "sampled rd k ?s"
    using assms [of k] by (intro midpoint_sampled) simp
  moreover have six: "(16 :: nat) = Suc 15"
    by simp
  have "sample_pair rd k = sample_loop 15 rd (k + 1) ?s (gap_of rd k)"
    unfolding sample_pair_def six sample_loop.simps(2) using assms [of k] by (simp add: gap_of_def Let_def)
  moreover have "{k..<k + 16} = insert k {k + 1..<k + 1 + 15}"
    by auto
  ultimately show ?thesis
    using sample_loop_narrowest [of rd "gap_of rd k" k ?s "k + 1" 15] assms by auto
qed

section \<open>Calibration ends\<close>

text \<open>What \<open>steady_clock\<close> promises: it never goes back, and time passes.\<close>

definition steady :: "(nat \<Rightarrow> Reading) \<Rightarrow> bool" where
  "steady rd \<longleftrightarrow> (\<forall>k. rd_before (rd k) \<le> rd_after (rd k) \<and> rd_after (rd k) \<le> rd_before (rd (k + 1)) \<and> gap_of rd k < 2 ^ 63 - 1)"

definition advances :: "(nat \<Rightarrow> Reading) \<Rightarrow> bool" where
  "advances rd \<longleftrightarrow> (\<forall>t. \<exists>k. t \<le> rd_before (rd k))"

lemma steady_mono: "steady rd \<Longrightarrow> i \<le> j \<Longrightarrow> rd_before (rd i) \<le> rd_before (rd j)"
proof (induction j)
  case (Suc j)
  have "rd_before (rd j) \<le> rd_before (rd (Suc j))"
    using Suc.prems(1) unfolding steady_def by (metis Suc_eq_plus1 order_trans)
  then show ?case
    using Suc by (cases "i = Suc j") auto
qed simp

lemma steady_gap: "steady rd \<Longrightarrow> 0 \<le> gap_of rd j \<and> gap_of rd j < 2 ^ 63 - 1"
  by (simp add: steady_def gap_of_def)

text \<open>The loop ends at the first sample that lies the window behind the start.\<close>

lemma calibrate_first:
  assumes "\<And>i. i < n \<Longrightarrow> ts_ns (if i = 0 then stop else sample_pair rd (k + 16 * (i - 1))) - ts_ns start < kWindowNs"
    "kWindowNs \<le> ts_ns (if n = 0 then stop else sample_pair rd (k + 16 * (n - 1))) - ts_ns start"
  shows "calibrate rd k start stop = Some (if n = 0 then stop else sample_pair rd (k + 16 * (n - 1)))"
  using assms
proof (induction n arbitrary: k stop)
  case 0
  then show ?case
    by (subst calibrate.simps) simp
next
  case (Suc n)
  have "calibrate rd (k + 16) start (sample_pair rd k) =
      Some (if n = 0 then sample_pair rd k else sample_pair rd (k + 16 + 16 * (n - 1)))"
  proof (rule Suc.IH)
    fix i
    assume "i < n"
    then show "ts_ns (if i = 0 then sample_pair rd k else sample_pair rd (k + 16 + 16 * (i - 1))) - ts_ns start < kWindowNs"
      using Suc.prems(1) [of "Suc i"] by (cases i) (simp_all add: algebra_simps)
  next
    show "kWindowNs \<le> ts_ns (if n = 0 then sample_pair rd k else sample_pair rd (k + 16 + 16 * (n - 1))) - ts_ns start"
      using Suc.prems(2) by (cases n) (simp_all add: algebra_simps)
  qed
  then show ?case
    using Suc.prems(1) [of 0] by (subst calibrate.simps) (cases n, simp_all add: algebra_simps)
qed

lemma calibration_window:
  assumes "steady rd" "advances rd"
  shows "\<exists>n. let start = sample_pair rd 0; stop = sample_pair rd (16 * n) in
    TscClock fp rd = Some (fp_div fp (fp_of_u64 fp (ts_ticks stop - ts_ticks start)) (fp_of_i64 fp (ts_ns stop - ts_ns start))) \<and>
    kWindowNs \<le> ts_ns stop - ts_ns start \<and> (\<forall>i < n. ts_ns (sample_pair rd (16 * i)) - ts_ns start < kWindowNs)"
proof -
  let ?start = "sample_pair rd 0"
  let ?P = "\<lambda>n. kWindowNs \<le> ts_ns (sample_pair rd (16 * n)) - ts_ns ?start"
  obtain k where k: "ts_ns ?start + kWindowNs \<le> rd_before (rd k)"
    using assms(2) by (auto simp: advances_def)
  obtain m where "m \<in> {16 * k..<16 * k + 16}" and s: "sampled rd m (sample_pair rd (16 * k))"
    using sample_pair_narrowest [OF steady_gap [OF assms(1)], of "16 * k"] by blast
  then have m: "k \<le> m"
    by simp
  from s have "?P k"
    using k steady_mono [OF assms(1) m] by (simp add: sampled_def)
  then obtain n where n: "?P n" "\<And>i. i < n \<Longrightarrow> \<not> ?P i"
    using exists_least_iff [of ?P] by blast
  have "n \<noteq> 0"
    using n(1) by (cases n) (simp_all add: kWindowNs_def)
  have "calibrate rd 16 ?start ?start = Some (if n = 0 then ?start else sample_pair rd (16 + 16 * (n - 1)))"
  proof (rule calibrate_first)
    fix i
    assume "i < n"
    then show "ts_ns (if i = 0 then ?start else sample_pair rd (16 + 16 * (i - 1))) - ts_ns ?start < kWindowNs"
      using n(2) [of i] by (cases i) (simp_all add: kWindowNs_def)
  qed (use n(1) \<open>n \<noteq> 0\<close> in \<open>cases n; simp\<close>)
  then have "calibrate rd 16 ?start ?start = Some (sample_pair rd (16 * n))"
    using \<open>n \<noteq> 0\<close> by (cases n) simp_all
  then show ?thesis
    using n by (intro exI [of _ n]) (auto simp: TscClock_def Let_def not_le)
qed

text \<open>C36. When \<open>steady_clock\<close> never goes back and time passes, the constructor of \<open>TscClock\<close> ends. It divides the
  ticks by the nanoseconds between its first sample and the first later one at least 20 ms behind it, so it
  never divides by zero.\<close>

theorem clock_calibrates:
  assumes "steady rd" "advances rd"
  shows "\<exists>n. let start = sample_pair rd 0; stop = sample_pair rd (16 * n) in
    TscClock fp rd = Some (fp_div fp (fp_of_u64 fp (ts_ticks stop - ts_ticks start)) (fp_of_i64 fp (ts_ns stop - ts_ns start))) \<and>
    kWindowNs \<le> ts_ns stop - ts_ns start \<and> (\<forall>i < n. ts_ns (sample_pair rd (16 * i)) - ts_ns start < kWindowNs)"
  using assms by (rule calibration_window)

text \<open>A clock that moves by a millisecond from one reading to the next.\<close>

definition sample_clock :: "nat \<Rightarrow> Reading" where
  "sample_clock k = \<lparr>rd_before = 1000000 * int k, rd_ticks = of_nat (3000000 * k), rd_after = 1000000 * int k + 40\<rparr>"

lemma sample_clock_steady: "steady sample_clock" "advances sample_clock"
proof -
  show "steady sample_clock"
    by (simp add: steady_def sample_clock_def gap_of_def)
  have "t \<le> rd_before (sample_clock (nat t))" for t
    by (simp add: sample_clock_def)
  then show "advances sample_clock"
    unfolding advances_def by blast
qed

text \<open>Exact arithmetic, for the examples.\<close>

definition exact_fp :: "real fp" where
  "exact_fp = \<lparr>fp_of_u64 = real \<circ> unat, fp_of_i64 = real_of_int, fp_mul = (*), fp_div = (/), fp_sub = (-), fp_less = (<), fp_le = (\<le>),
     fp_fixed = (\<lambda>_ _. ''0'')\<rparr>"

theorem clock_calibrates_witness:
  "\<exists>n. let start = sample_pair sample_clock 0; stop = sample_pair sample_clock (16 * n) in
    TscClock exact_fp sample_clock =
      Some (fp_div exact_fp (fp_of_u64 exact_fp (ts_ticks stop - ts_ticks start)) (fp_of_i64 exact_fp (ts_ns stop - ts_ns start))) \<and>
    kWindowNs \<le> ts_ns stop - ts_ns start \<and> (\<forall>i < n. ts_ns (sample_pair sample_clock (16 * i)) - ts_ns start < kWindowNs)"
  by (rule clock_calibrates [OF sample_clock_steady])

text \<open>A calibration sample takes the narrowest of its sixteen tries: the ticks read there, with a time between
  the two clock reads around it.\<close>

theorem sample_is_narrowest:
  assumes "steady rd"
  shows "\<exists>m \<in> {k..<k + 16}. ts_ticks (sample_pair rd k) = rd_ticks (rd m) \<and>
    rd_before (rd m) \<le> ts_ns (sample_pair rd k) \<and> ts_ns (sample_pair rd k) \<le> rd_after (rd m) \<and>
    (\<forall>j \<in> {k..<k + 16}. rd_after (rd m) - rd_before (rd m) \<le> rd_after (rd j) - rd_before (rd j))"
  using sample_pair_narrowest [OF steady_gap [OF assms], of k] unfolding sampled_def gap_of_def by blast

theorem sample_is_narrowest_witness:
  "\<exists>m \<in> {0..<0 + 16}. ts_ticks (sample_pair sample_clock 0) = rd_ticks (sample_clock m) \<and>
    rd_before (sample_clock m) \<le> ts_ns (sample_pair sample_clock 0) \<and> ts_ns (sample_pair sample_clock 0) \<le> rd_after (sample_clock m) \<and>
    (\<forall>j \<in> {0..<0 + 16}. rd_after (sample_clock m) - rd_before (sample_clock m) \<le> rd_after (sample_clock j) - rd_before (sample_clock j))"
  by (rule sample_is_narrowest [OF sample_clock_steady(1)])

end
