(* ===== verification/Runner.thy ===== *)
theory Runner
  imports Workload Timing Replay "HOL-Library.Multiset"
begin

text \<open>
  \<open>bench/runner.hpp\<close>: a command stream run against the engine, in two passes. Reads of the cycle counter are
  the values of a sequence, and a pass carries the position in it. \<open>std::sort\<close> on numbers is \<open>sort\<close>.
\<close>

section \<open>The code\<close>

definition kMethodologyVersion :: nat where
  "kMethodologyVersion = 1"

definition kMinTailSamples :: nat where
  "kMinTailSamples = 100"

definition kRunnerCapacity :: Index where
  "kRunnerCapacity = push_bit 16 1"

record 'd RunConfig =
  cfg_label :: string
  cfg_seed :: "64 word"
  cfg_warmup :: "64 word"
  cfg_measured :: "64 word"
  cfg_timer_overhead_ns :: 'd

definition default_RunConfig :: "'d fp \<Rightarrow> 'd RunConfig" where
  "default_RunConfig fp = \<lparr>cfg_label = [], cfg_seed = 1, cfg_warmup = 100000, cfg_measured = 1000000,
     cfg_timer_overhead_ns = fp_of_i64 fp 0\<rparr>"

record 'd LatencyStats =
  st_samples :: nat
  st_p50 :: 'd
  st_p99 :: 'd
  st_p999 :: 'd
  st_p9999 :: 'd
  st_max :: 'd

definition default_LatencyStats :: "'d fp \<Rightarrow> 'd LatencyStats" where
  "default_LatencyStats fp = \<lparr>st_samples = 0, st_p50 = fp_of_i64 fp 0, st_p99 = fp_of_i64 fp 0, st_p999 = fp_of_i64 fp 0,
     st_p9999 = fp_of_i64 fp 0, st_max = fp_of_i64 fp 0\<rparr>"

record 'd RunResult =
  rr_limit :: "'d LatencyStats"
  rr_cancel :: "'d LatencyStats"
  rr_ops_per_sec :: 'd
  rr_per_op_mean_ns :: 'd
  rr_trades :: "64 word"

record KindCounts =
  kc_limit :: nat
  kc_cancel :: nat

fun count_loop :: "KindCounts \<Rightarrow> Cmd list \<Rightarrow> KindCounts" where
  "count_loop k [] = k"
| "count_loop k (c # cs) =
     count_loop (if cmd_kind c = CancelCmd then k\<lparr>kc_cancel := kc_cancel k + 1\<rparr> else k\<lparr>kc_limit := kc_limit k + 1\<rparr>) cs"

definition count_kinds :: "Cmd list \<Rightarrow> nat \<Rightarrow> KindCounts" where
  "count_kinds cmds start = count_loop \<lparr>kc_limit = 0, kc_cancel = 0\<rparr> (drop start cmds)"

definition p999_has_enough_samples :: "nat \<Rightarrow> bool" where
  "p999_has_enough_samples n \<longleftrightarrow> n div 1000 \<ge> kMinTailSamples"

definition percentile :: "64 word list \<Rightarrow> 32 word \<Rightarrow> 64 word option" where
  "percentile xs per_10k =
     (let rank = (of_nat (length xs) * ucast per_10k + 9999) div 10000 :: 64 word
      in nth_opt xs (unat (rank - 1)))"

definition stats_from :: "'d fp \<Rightarrow> 'd \<Rightarrow> 64 word list \<Rightarrow> 'd LatencyStats option" where
  "stats_from fp clock tks =
     (let s = (default_LatencyStats fp)\<lparr>st_samples := length tks\<rparr>
      in if tks = [] then Some s
         else do {
           let sorted_ticks = sort tks;
           a \<leftarrow> percentile sorted_ticks 5000;
           b \<leftarrow> percentile sorted_ticks 9900;
           c \<leftarrow> percentile sorted_ticks 9990;
           d \<leftarrow> percentile sorted_ticks 9999;
           Some (s\<lparr>st_p50 := to_ns fp clock a, st_p99 := to_ns fp clock b, st_p999 := to_ns fp clock c,
                   st_p9999 := to_ns fp clock d, st_max := to_ns fp clock (last sorted_ticks)\<rparr>)
         })"

text \<open>\<open>apply\<close>: the number of trades, and the book and the result buffer behind it.\<close>

definition bench_apply :: "Book \<Rightarrow> Cmd \<Rightarrow> AddResult \<Rightarrow> (nat \<times> Book \<times> AddResult) option" where
  "bench_apply book c result =
     (if cmd_kind c = CancelCmd
      then do { (_, book) \<leftarrow> cancel_order book (cmd_id c); Some (0, book, result) }
      else do {
        (result, book) \<leftarrow> add_limit_order result book (cmd_id c) (cmd_side c) (cmd_price c) (cmd_qty c) (cmd_account c) GTC;
        Some (length (trades result), book, result)
      })"

text \<open>The loops: commands with their trades added up, and the same with each command timed on its own.\<close>

fun apply_all :: "Book \<Rightarrow> AddResult \<Rightarrow> 64 word \<Rightarrow> Cmd list \<Rightarrow> (64 word \<times> Book \<times> AddResult) option" where
  "apply_all book result n [] = Some (n, book, result)"
| "apply_all book result n (c # cs) =
     do { (k, book, result) \<leftarrow> bench_apply book c result; apply_all book result (n + of_nat k) cs }"

fun timed_all ::
  "(nat \<Rightarrow> 64 word) \<Rightarrow> nat \<Rightarrow> Book \<Rightarrow> AddResult \<Rightarrow> 64 word \<Rightarrow> 64 word list \<Rightarrow> 64 word list \<Rightarrow> Cmd list \<Rightarrow>
   (64 word \<times> 64 word list \<times> 64 word list) option" where
  "timed_all tsc t book result n limit_ticks cancel_ticks [] = Some (n, limit_ticks, cancel_ticks)"
| "timed_all tsc t book result n limit_ticks cancel_ticks (c # cs) =
     do {
       (k, book, result) \<leftarrow> bench_apply book c result;
       let ticked = tsc (t + 1) - tsc t;
       if cmd_kind c = CancelCmd
       then timed_all tsc (t + 2) book result (n + of_nat k) limit_ticks (cancel_ticks @ [ticked]) cs
       else timed_all tsc (t + 2) book result (n + of_nat k) (limit_ticks @ [ticked]) cancel_ticks cs
     }"

datatype 'd RunOutcome = Disagree "64 word" "64 word" | Finished "'d RunResult"

definition run_batched :: "(nat \<Rightarrow> 64 word) \<Rightarrow> nat \<Rightarrow> Cmd list \<Rightarrow> nat \<Rightarrow> (64 word \<times> 64 word) option" where
  "run_batched tsc t cmds warmup =
     do {
       (_, book, result) \<leftarrow> apply_all (Book_new kRunnerCapacity) empty_result 0 (take warmup cmds);
       (whole_trades, _, _) \<leftarrow> apply_all book result 0 (drop warmup cmds);
       Some (whole_trades, tsc (t + 1) - tsc t)
     }"

definition run_timed :: "(nat \<Rightarrow> 64 word) \<Rightarrow> nat \<Rightarrow> Cmd list \<Rightarrow> nat \<Rightarrow> (64 word \<times> 64 word list \<times> 64 word list) option" where
  "run_timed tsc t cmds warmup =
     do {
       (_, book, result) \<leftarrow> apply_all (Book_new kRunnerCapacity) empty_result 0 (take warmup cmds);
       timed_all tsc t book result 0 [] [] (drop warmup cmds)
     }"

text \<open>A warm-up longer than the stream reads behind its end.\<close>

definition run :: "'d fp \<Rightarrow> (nat \<Rightarrow> 64 word) \<Rightarrow> nat \<Rightarrow> Cmd list \<Rightarrow> nat \<Rightarrow> 'd \<Rightarrow> 'd RunOutcome option" where
  "run fp tsc t cmds warmup clock =
     do {
       assert_that (warmup \<le> length cmds);
       let measured = (of_nat (length cmds - warmup) :: 64 word);
       (whole_trades, elapsed) \<leftarrow> run_batched tsc t cmds warmup;
       let ops_per_sec = fp_div fp (fp_of_u64 fp measured) (fp_div fp (to_ns fp clock elapsed) (fp_of_i64 fp 1000000000));
       (n, limit_ticks, cancel_ticks) \<leftarrow> run_timed tsc (t + 2) cmds warmup;
       if n \<noteq> whole_trades then Some (Disagree n whole_trades)
       else do {
         let total_ticks = foldl (+) (foldl (+) 0 limit_ticks) cancel_ticks;
         limit \<leftarrow> stats_from fp clock limit_ticks;
         cancel \<leftarrow> stats_from fp clock cancel_ticks;
         Some (Finished \<lparr>rr_limit = limit, rr_cancel = cancel, rr_ops_per_sec = ops_per_sec,
           rr_per_op_mean_ns = fp_div fp (to_ns fp clock total_ticks) (fp_of_u64 fp measured), rr_trades = n\<rparr>)
       }
     }"

text \<open>\<open>snprintf\<close> keeps what fits into the buffer with its final zero.\<close>

definition snprintf :: "nat \<Rightarrow> string \<Rightarrow> string" where
  "snprintf n text = take (n - 1) text"

definition newline :: string where
  "newline = [CHR 0x0A]"

definition stats_row :: "'d fp \<Rightarrow> string \<Rightarrow> 'd LatencyStats \<Rightarrow> string" where
  "stats_row fp row_kind s = snprintf 160 (row_kind @ '','' @ show_nat (st_samples s) @ '','' @ fp_fixed fp 1 (st_p50 s) @ '','' @
     fp_fixed fp 1 (st_p99 s) @ '','' @ fp_fixed fp 1 (st_p999 s) @ '','' @ fp_fixed fp 1 (st_p9999 s) @ '','' @
     fp_fixed fp 1 (st_max s) @ newline)"

definition results_csv :: "'d fp \<Rightarrow> string \<Rightarrow> 'd RunConfig \<Rightarrow> 'd RunResult \<Rightarrow> string" where
  "results_csv fp env_block cfg r =
     env_block @
     ''# methodology_version: '' @ show_nat kMethodologyVersion @ newline @
     ''# label: '' @ cfg_label cfg @ newline @
     ''# workload: W1'' @ newline @
     ''# seed: '' @ show_unsigned (cfg_seed cfg) @ newline @
     ''# warmup_ops: '' @ show_unsigned (cfg_warmup cfg) @ newline @
     ''# measured_ops: '' @ show_unsigned (cfg_measured cfg) @ newline @
     ''# latency_timing: per-op rdtscp+lfence, timer overhead not subtracted'' @ newline @
     snprintf 160 (''# timer_overhead_p50_ns: '' @ fp_fixed fp 1 (cfg_timer_overhead_ns cfg) @ newline) @
     ''# throughput_timing: batched, one rdtscp pair around all measured ops'' @ newline @
     ''# trades: '' @ show_unsigned (rr_trades r) @ newline @
     snprintf 160 (''# throughput_ops_per_sec: '' @ fp_fixed fp 0 (rr_ops_per_sec r) @ newline) @
     ''kind,samples,p50_ns,p99_ns,p999_ns,p9999_ns,max_ns'' @ newline @
     stats_row fp ''limit'' (rr_limit r) @
     stats_row fp ''cancel'' (rr_cancel r)"

end
