(* ===== verification/Differential_Harness.thy ===== *)
theory Differential_Harness
  imports Differential Replay Runner
begin

text \<open>
  \<open>tests/support/diff.hpp\<close> and \<open>tests/support/command_stream.hpp\<close>: the random command stream of the tests and the
  harness that runs each operation on the engine and on the oracle and says where they differ. A
  failure is a text, and no failure the empty one. The random generator is textually the one of
  \<open>bench/workload.hpp\<close> (\<open>Rng_next\<close> and \<open>Rng_below\<close> of theory \<open>Workload\<close>).
\<close>

section \<open>Operations\<close>

datatype OpKind = LimitOp | MarketOp | CancelOp | ModifyOp

record Op =
  op_kind :: OpKind
  op_id :: OrderId
  op_side :: Side
  op_price :: Price
  op_qty :: Qty
  op_account :: Account
  op_tif :: TimeInForce

definition default_Op :: Op where
  "default_Op = \<lparr>op_kind = LimitOp, op_id = 0, op_side = Buy, op_price = Price 0, op_qty = 0, op_account = 0, op_tif = GTC\<rparr>"

definition op_kind_text :: "OpKind \<Rightarrow> string" where
  "op_kind_text k = (case k of LimitOp \<Rightarrow> ''limit'' | MarketOp \<Rightarrow> ''market'' | CancelOp \<Rightarrow> ''cancel'' | ModifyOp \<Rightarrow> ''modify'')"

definition op_tif_text :: "TimeInForce \<Rightarrow> string" where
  "op_tif_text t = (case t of GTC \<Rightarrow> ''GTC'' | IOC \<Rightarrow> ''IOC'' | FOK \<Rightarrow> ''FOK'')"

definition describe :: "Op \<Rightarrow> string" where
  "describe op = snprintf 160 (op_kind_text (op_kind op) @ '' id='' @ show_unsigned (op_id op) @
     '' side='' @ (if op_side op = Buy then ''buy'' else ''sell'') @ '' price='' @ show_signed (ticks (op_price op)) @
     '' qty='' @ show_unsigned (op_qty op) @ '' acct='' @ show_unsigned (op_account op) @ '' tif='' @ op_tif_text (op_tif op))"

record Stats =
  sn_ops :: "64 word"
  sn_trades :: "64 word"
  sn_stp :: "64 word"
  sn_fok_rejected :: "64 word"
  sn_pool_exhausted :: "64 word"
  sn_modify_ok :: "64 word"
  sn_cancel_ok :: "64 word"
  sn_invalid_rejected :: "64 word"
  sn_modify_crossing_rejected :: "64 word"

definition zero_Stats :: Stats where
  "zero_Stats = \<lparr>sn_ops = 0, sn_trades = 0, sn_stp = 0, sn_fok_rejected = 0, sn_pool_exhausted = 0, sn_modify_ok = 0,
     sn_cancel_ok = 0, sn_invalid_rejected = 0, sn_modify_crossing_rejected = 0\<rparr>"

definition Stats_add :: "Stats \<Rightarrow> Stats \<Rightarrow> Stats" where
  "Stats_add s d = \<lparr>sn_ops = sn_ops s + sn_ops d, sn_trades = sn_trades s + sn_trades d, sn_stp = sn_stp s + sn_stp d,
     sn_fok_rejected = sn_fok_rejected s + sn_fok_rejected d, sn_pool_exhausted = sn_pool_exhausted s + sn_pool_exhausted d,
     sn_modify_ok = sn_modify_ok s + sn_modify_ok d, sn_cancel_ok = sn_cancel_ok s + sn_cancel_ok d,
     sn_invalid_rejected = sn_invalid_rejected s + sn_invalid_rejected d,
     sn_modify_crossing_rejected = sn_modify_crossing_rejected s + sn_modify_crossing_rejected d\<rparr>"

section \<open>Engine and oracle side by side\<close>

record Pair =
  pr_book :: Book
  pr_ref :: Oracle
  pr_stats :: Stats
  pr_result :: AddResult

definition Pair_new :: "Index \<Rightarrow> Pair" where
  "Pair_new cap = \<lparr>pr_book = Book_new cap, pr_ref = Oracle_new (unat cap), pr_stats = zero_Stats, pr_result = empty_result\<rparr>"

definition flag :: "string \<Rightarrow> bool \<Rightarrow> bool \<Rightarrow> string" where
  "flag what engine_v oracle_v = what @ '' result engine='' @ (if engine_v then ''true'' else ''false'') @
     '' oracle='' @ (if oracle_v then ''true'' else ''false'')"

definition same_trade :: "Trade \<Rightarrow> Trade \<Rightarrow> bool" where
  "same_trade x y \<longleftrightarrow> maker_order_id x = maker_order_id y \<and> taker_order_id x = taker_order_id y \<and> tr_price x = tr_price y \<and>
     tr_qty x = tr_qty y \<and> trade_id x = trade_id y \<and> tr_seq_no x = tr_seq_no y"

definition trade_fields :: "Trade \<Rightarrow> string" where
  "trade_fields x = ''maker='' @ show_unsigned (maker_order_id x) @ '' taker='' @ show_unsigned (taker_order_id x) @
     '' px='' @ show_signed (ticks (tr_price x)) @ '' qty='' @ show_unsigned (tr_qty x) @ '' tid='' @ show_unsigned (trade_id x) @
     '' seq='' @ show_unsigned (tr_seq_no x)"

text \<open>The two loops compare position by position and read the second list at the index of the first.\<close>

fun trade_difference :: "nat \<Rightarrow> Trade list \<Rightarrow> Trade list \<Rightarrow> string option" where
  "trade_difference i [] ys = Some []"
| "trade_difference i (x # xs) [] = None"
| "trade_difference i (x # xs) (y # ys) =
     (if same_trade x y then trade_difference (i + 1) xs ys
      else Some (snprintf 256 (''trade['' @ show_nat i @ ''] engine{'' @ trade_fields x @ ''} oracle{'' @ trade_fields y @ ''}'')))"

definition count_result :: "Op \<Rightarrow> AddResult \<Rightarrow> Stats \<Rightarrow> Stats" where
  "count_result op a st =
     (let st = (if \<not> accepted a then st\<lparr>sn_invalid_rejected := sn_invalid_rejected st + 1\<rparr> else st);
          st = (if stp_rejected a then st\<lparr>sn_stp := sn_stp st + 1\<rparr> else st);
          st = (if pool_exhausted a then st\<lparr>sn_pool_exhausted := sn_pool_exhausted st + 1\<rparr> else st);
          st = (if op_tif op = FOK \<and> op_kind op = LimitOp \<and> accepted a \<and> trades a = []
                then st\<lparr>sn_fok_rejected := sn_fok_rejected st + 1\<rparr> else st)
      in st\<lparr>sn_trades := sn_trades st + of_nat (length (trades a))\<rparr>)"

definition compare_add :: "AddResult \<Rightarrow> AddResult \<Rightarrow> string option" where
  "compare_add a b =
     (if accepted a \<noteq> accepted b then Some (flag ''accepted'' (accepted a) (accepted b))
      else if stp_rejected a \<noteq> stp_rejected b then Some (flag ''stp_rejected'' (stp_rejected a) (stp_rejected b))
      else if pool_exhausted a \<noteq> pool_exhausted b then Some (flag ''pool_exhausted'' (pool_exhausted a) (pool_exhausted b))
      else if resting_qty a \<noteq> resting_qty b then
        Some (''resting_qty engine='' @ show_unsigned (resting_qty a) @ '' oracle='' @ show_unsigned (resting_qty b))
      else if length (trades a) \<noteq> length (trades b) then
        Some (''trade count engine='' @ show_nat (length (trades a)) @ '' oracle='' @ show_nat (length (trades b)))
      else trade_difference 0 (trades a) (trades b))"

text \<open>\<open>stats.cancel_ok += a\<close> for a truth value.\<close>

definition bump :: "bool \<Rightarrow> 64 word" where
  "bump b = (if b then 1 else 0)"

definition Pair_apply :: "Pair \<Rightarrow> Op \<Rightarrow> (string \<times> Pair) option" where
  "Pair_apply p op =
     (let st = (pr_stats p)\<lparr>sn_ops := sn_ops (pr_stats p) + 1\<rparr>
      in case op_kind op of
           LimitOp \<Rightarrow> do {
             (a, book) \<leftarrow> add_limit_order (pr_result p) (pr_book p) (op_id op) (op_side op) (op_price op) (op_qty op)
                            (op_account op) (op_tif op);
             let (b, ref) = add_limit (pr_ref p) (op_id op) (op_side op) (op_price op) (op_qty op) (op_account op) (op_tif op);
             err \<leftarrow> compare_add a b;
             Some (err, \<lparr>pr_book = book, pr_ref = ref, pr_stats = count_result op a st, pr_result = a\<rparr>)
           }
         | MarketOp \<Rightarrow> do {
             (a, book) \<leftarrow> add_market_order (pr_result p) (pr_book p) (op_id op) (op_side op) (op_qty op) (op_account op);
             let (b, ref) = add_market (pr_ref p) (op_id op) (op_side op) (op_qty op) (op_account op);
             err \<leftarrow> compare_add a b;
             Some (err, \<lparr>pr_book = book, pr_ref = ref, pr_stats = count_result op a st, pr_result = a\<rparr>)
           }
         | CancelOp \<Rightarrow> do {
             (a, book) \<leftarrow> cancel_order (pr_book p) (op_id op);
             let (b, ref) = Oracle_cancel (pr_ref p) (op_id op);
             if a \<noteq> b then Some (flag ''cancel'' a b, p\<lparr>pr_book := book, pr_ref := ref, pr_stats := st\<rparr>)
             else Some ([], p\<lparr>pr_book := book, pr_ref := ref, pr_stats := st\<lparr>sn_cancel_ok := sn_cancel_ok st + bump a\<rparr>\<rparr>)
           }
         | ModifyOp \<Rightarrow> do {
             (a, book) \<leftarrow> modify_order (pr_book p) (op_id op) (op_price op) (op_qty op);
             let (b, ref) = Oracle_modify (pr_ref p) (op_id op) (op_price op) (op_qty op);
             if a \<noteq> b then Some (flag ''modify'' a b, p\<lparr>pr_book := book, pr_ref := ref, pr_stats := st\<rparr>)
             else Some ([], p\<lparr>pr_book := book, pr_ref := ref,
               pr_stats := st\<lparr>sn_modify_ok := sn_modify_ok st + bump a, sn_modify_crossing_rejected :=
                 sn_modify_crossing_rejected st + bump (\<not> a \<and> op_qty op > 0 \<and> Oracle_has ref (op_id op))\<rparr>\<rparr>)
           })"

definition same_order :: "RestingOrder \<Rightarrow> RestingOrder \<Rightarrow> bool" where
  "same_order x y \<longleftrightarrow> r_side x = r_side y \<and> r_price x = r_price y \<and> r_order_id x = r_order_id y \<and> r_qty x = r_qty y \<and>
     r_account x = r_account y \<and> r_seq_no x = r_seq_no y"

definition order_fields :: "RestingOrder \<Rightarrow> string" where
  "order_fields x = ''id='' @ show_unsigned (r_order_id x) @ '' px='' @ show_signed (ticks (r_price x)) @
     '' qty='' @ show_unsigned (r_qty x) @ '' acct='' @ show_unsigned (r_account x) @ '' seq='' @ show_unsigned (r_seq_no x)"

fun order_difference :: "nat \<Rightarrow> RestingOrder list \<Rightarrow> RestingOrder list \<Rightarrow> string option" where
  "order_difference i [] ys = Some []"
| "order_difference i (x # xs) [] = None"
| "order_difference i (x # xs) (y # ys) =
     (if same_order x y then order_difference (i + 1) xs ys
      else Some (snprintf 256 (''book['' @ show_nat i @ ''] engine{'' @ order_fields x @ ''} oracle{'' @ order_fields y @ ''}'')))"

definition check_state :: "Pair \<Rightarrow> string option" where
  "check_state p =
     do {
       v \<leftarrow> invariant_violation (pr_book p);
       case v of
         Some v \<Rightarrow> Some (''invariant: '' @ v)
       | None \<Rightarrow> do {
           a \<leftarrow> snapshot (pr_book p);
           let b = Oracle_snapshot (pr_ref p);
           if length a \<noteq> length b
           then Some (''resting order count engine='' @ show_nat (length a) @ '' oracle='' @ show_nat (length b))
           else order_difference 0 a b
         }
     }"

section \<open>The random stream\<close>

record Generator =
  gn_rng :: Rng
  gn_next_id :: OrderId
  gn_issued :: "OrderId list"
  gn_price :: "Price list"

definition Generator_new :: "64 word \<Rightarrow> Generator" where
  "Generator_new seed = \<lparr>gn_rng = seed, gn_next_id = 0, gn_issued = [], gn_price = []\<rparr>"

definition draw :: "Generator \<Rightarrow> 64 word \<Rightarrow> (64 word \<times> Generator) option" where
  "draw g n = do { (x, rng) \<leftarrow> Rng_below (gn_rng g) n; Some (x, g\<lparr>gn_rng := rng\<rparr>) }"

definition pick_price :: "Generator \<Rightarrow> (Price \<times> Generator) option" where
  "pick_price g =
     do {
       (r, g) \<leftarrow> draw g 100;
       if r < 5 then do { (x, g) \<leftarrow> draw g 41; Some (Price (80 + x), g) }
       else do { (x, g) \<leftarrow> draw g 11; Some (Price (95 + x), g) }
     }"

definition pick_known :: "Generator \<Rightarrow> (64 word \<times> Generator) option" where
  "pick_known g =
     (if gn_issued g = [] then Some (0, g)
      else do {
        let n = (of_nat (length (gn_issued g)) :: 64 word);
        (r, g) \<leftarrow> draw g 100;
        if r < 85 then do {
          let window = (if n < 64 then n else 64);
          (x, g) \<leftarrow> draw g window;
          Some (n - 1 - x, g)
        } else draw g n
      })"

definition fresh :: "Generator \<Rightarrow> (OrderId \<times> Generator) option" where
  "fresh g = Some (gn_next_id g + 1, g\<lparr>gn_next_id := gn_next_id g + 1\<rparr>)"

definition known_id :: "Generator \<Rightarrow> (OrderId \<times> Generator) option" where
  "known_id g = do { (k, g) \<leftarrow> pick_known g; oid \<leftarrow> nth_opt (gn_issued g) (unat k); Some (oid, g) }"

definition fresh_or_reused :: "Generator \<Rightarrow> (OrderId \<times> Generator) option" where
  "fresh_or_reused g =
     (if gn_issued g = [] then fresh g
      else do { (r, g) \<leftarrow> draw g 100; if r < 4 then known_id g else fresh g })"

text \<open>\<open>issued_.empty() ? otherwise : issued_[pick_known()]\<close>\<close>

definition known_or :: "OrderId \<Rightarrow> Generator \<Rightarrow> (OrderId \<times> Generator) option" where
  "known_or otherwise g = (if gn_issued g = [] then Some (otherwise, g) else known_id g)"

definition remember :: "OrderId \<Rightarrow> Price \<Rightarrow> Generator \<Rightarrow> Generator" where
  "remember oid p g = g\<lparr>gn_issued := gn_issued g @ [oid], gn_price := gn_price g @ [p]\<rparr>"

text \<open>The four branches of \<open>Generator::next\<close>.\<close>

definition next_order :: "Op \<Rightarrow> 64 word \<Rightarrow> Generator \<Rightarrow> (Op \<times> Generator) option" where
  "next_order op r g =
     do {
       let op = op\<lparr>op_kind := (if r < 56 then LimitOp else MarketOp),
                   op_tif := (if r < 40 then GTC else if r < 48 then IOC else FOK)\<rparr>;
       let op = (if op_kind op = MarketOp then op\<lparr>op_tif := IOC\<rparr> else op);
       (oid, g) \<leftarrow> fresh_or_reused g;
       (p, g) \<leftarrow> pick_price g;
       (q, g) \<leftarrow> draw g 8;
       Some (op\<lparr>op_id := oid, op_price := p, op_qty := 1 + ucast q\<rparr>, remember oid p g)
     }"

definition next_modify :: "Op \<Rightarrow> Generator \<Rightarrow> (Op \<times> Generator) option" where
  "next_modify op g =
     do {
       let op = op\<lparr>op_kind := ModifyOp\<rparr>;
       (k, g) \<leftarrow> pick_known g;
       oid \<leftarrow> (if gn_issued g = [] then Some 0 else nth_opt (gn_issued g) (unat k));
       (same, g) \<leftarrow> (if gn_issued g = [] then Some (False, g) else do { (r, g) \<leftarrow> draw g 10; Some (r < 4, g) });
       (p, g) \<leftarrow> (if same then do { p \<leftarrow> nth_opt (gn_price g) (unat k); Some (p, g) } else pick_price g);
       (q, g) \<leftarrow> draw g 10;
       g \<leftarrow> (if gn_issued g = [] then Some g else do { ps \<leftarrow> upd_opt (gn_price g) (unat k) p; Some (g\<lparr>gn_price := ps\<rparr>) });
       Some (op\<lparr>op_id := oid, op_price := p, op_qty := 1 + ucast q\<rparr>, g)
     }"

definition next_invalid :: "Op \<Rightarrow> Generator \<Rightarrow> (Op \<times> Generator) option" where
  "next_invalid op g =
     do {
       (which, g) \<leftarrow> draw g 3;
       if which = 0 then do {
         (oid, g) \<leftarrow> fresh_or_reused g;
         (p, g) \<leftarrow> pick_price g;
         Some (op\<lparr>op_kind := LimitOp, op_id := oid, op_price := p, op_qty := 0\<rparr>, g)
       } else if which = 1 then do {
         (oid, g) \<leftarrow> known_or 0 g;
         (p, g) \<leftarrow> pick_price g;
         Some (op\<lparr>op_kind := ModifyOp, op_id := oid, op_price := p, op_qty := 0\<rparr>, g)
       } else do {
         (oid, g) \<leftarrow> known_or 1 g;
         (p, g) \<leftarrow> pick_price g;
         (q, g) \<leftarrow> draw g 8;
         Some (op\<lparr>op_kind := LimitOp, op_id := oid, op_price := p, op_qty := 1 + ucast q\<rparr>, g)
       }
     }"

definition Generator_next :: "Generator \<Rightarrow> (Op \<times> Generator) option" where
  "Generator_next g =
     do {
       (acct, g) \<leftarrow> draw g 4;
       (coin, g) \<leftarrow> draw g 2;
       let op = default_Op\<lparr>op_account := 1 + ucast acct, op_side := (if coin \<noteq> 0 then Buy else Sell)\<rparr>;
       (r, g) \<leftarrow> draw g 100;
       if r < 62 then next_order op r g
       else if r < 79 then do { (oid, g) \<leftarrow> known_or 0 g; Some (op\<lparr>op_kind := CancelOp, op_id := oid\<rparr>, g) }
       else if r < 97 then next_modify op g
       else next_invalid op g
     }"

section \<open>Streams of journalable commands\<close>

definition to_command :: "Op \<Rightarrow> Command" where
  "to_command op =
     (case op_kind op of
        LimitOp \<Rightarrow> limit_command (op_id op) (op_side op) (op_price op) (op_qty op) (op_account op) (op_tif op)
      | MarketOp \<Rightarrow> market_command (op_id op) (op_side op) (op_qty op) (op_account op)
      | CancelOp \<Rightarrow> cancel_command (op_id op)
      | ModifyOp \<Rightarrow> modify_command (op_id op) (op_price op) (op_qty op))"

fun stream_ops :: "nat \<Rightarrow> Generator \<Rightarrow> (Op list \<times> Generator) option" where
  "stream_ops 0 g = Some ([], g)"
| "stream_ops (Suc n) g = do { (op, g) \<leftarrow> Generator_next g; (ops, g) \<leftarrow> stream_ops n g; Some (op # ops, g) }"

definition stream_make :: "64 word \<Rightarrow> nat \<Rightarrow> Command list option" where
  "stream_make seed n = map_option (map to_command \<circ> fst) (stream_ops n (Generator_new seed))"

fun stream_records :: "byte list \<Rightarrow> Command list \<Rightarrow> byte list" where
  "stream_records out [] = out"
| "stream_records out (c # cs) = stream_records (out @ encode c) cs"

definition stream_journal_bytes :: "Index \<Rightarrow> Command list \<Rightarrow> byte list" where
  "stream_journal_bytes cap cs = stream_records (encode_header cap) cs"

end
