(* ===== verification/Harness_Properties.thy ===== *)
theory Harness_Properties
  imports Differential_Harness
begin

text \<open>
  One operation of the harness, and a run of it. As long as all quantities are small enough for the capacity no
  fill-or-kill total leaves 32 bits, so engine and oracle agree and every comparison comes out empty.
\<close>

section \<open>Comparing equal things\<close>

lemma trade_difference_same: "trade_difference i ts ts = Some []"
  by (induction ts arbitrary: i) (simp_all add: same_trade_def)

lemma order_difference_same: "order_difference i xs xs = Some []"
  by (induction xs arbitrary: i) (simp_all add: same_order_def)

lemma compare_add_same: "compare_add a a = Some []"
  by (simp add: compare_add_def trade_difference_same)

lemma added_event_inj: "added_event a = added_event b \<Longrightarrow> a = b"
  by (cases a; cases b) (simp add: added_event_def)

abbreviation pair_engine :: "Pair \<Rightarrow> engine" where
  "pair_engine p \<equiv> (pr_book p, pr_result p)"

lemma agree_result: "agree (b, r) ora \<Longrightarrow> agree (b, r') ora"
  by (simp add: agree_def engine_abs_def)

lemma Pair_apply_agrees:
  assumes "agree (pair_engine p) (pr_ref p)" "fok_fits (pr_ref p) (to_command op)" "ora_seq (pr_ref p) \<noteq> - 1"
  shows "\<exists>p'. Pair_apply p op = Some ([], p') \<and> agree (pair_engine p') (pr_ref p') \<and>
    pr_ref p' = snd (oracle_step (pr_ref p) (to_command op)) \<and> sn_ops (pr_stats p') = sn_ops (pr_stats p) + 1"
proof -
  obtain b r where e: "engine_step (pair_engine p) (to_command op) = Some (fst (oracle_step (pr_ref p) (to_command op)), (b, r))"
      "agree (b, r) (snd (oracle_step (pr_ref p) (to_command op)))"
    using differential.step_refines [OF assms(1), of "to_command op"] assms(2,3) by auto
  show ?thesis
  proof (cases "op_kind op")
    case LimitOp
    obtain a ref where ora: "add_limit (pr_ref p) (op_id op) (op_side op) (op_price op) (op_qty op) (op_account op) (op_tif op) = (a, ref)"
      by (metis prod.exhaust)
    have "added_event r = added_event a"
      using e(1) ora LimitOp
      by (auto simp: engine_step_def apply_command_def oracle_step_def to_command_def limit_command_def default_Command_def
          added_event_def default_Outcome_def)
    then have "r = a"
      by (rule added_event_inj)
    then show ?thesis
      using e ora LimitOp
      by (auto simp: Pair_apply_def engine_step_def apply_command_def oracle_step_def to_command_def limit_command_def
          default_Command_def compare_add_same count_result_def Let_def)
  next
    case MarketOp
    obtain a ref where ora: "add_market (pr_ref p) (op_id op) (op_side op) (op_qty op) (op_account op) = (a, ref)"
      by (metis prod.exhaust)
    have "added_event r = added_event a"
      using e(1) ora MarketOp
      by (auto simp: engine_step_def apply_command_def oracle_step_def to_command_def market_command_def default_Command_def
          added_event_def default_Outcome_def)
    then have "r = a"
      by (rule added_event_inj)
    then show ?thesis
      using e ora MarketOp
      by (auto simp: Pair_apply_def engine_step_def apply_command_def oracle_step_def to_command_def market_command_def
          default_Command_def compare_add_same count_result_def Let_def)
  next
    case CancelOp
    obtain a ref where ora: "Oracle_cancel (pr_ref p) (op_id op) = (a, ref)"
      by (metis prod.exhaust)
    then show ?thesis
      using e CancelOp agree_result [of b r ref "pr_result p"]
      by (auto simp: Pair_apply_def engine_step_def apply_command_def oracle_step_def to_command_def cancel_command_def
          default_Command_def flag_event_def default_Outcome_def Let_def)
  next
    case ModifyOp
    obtain a ref where ora: "Oracle_modify (pr_ref p) (op_id op) (op_price op) (op_qty op) = (a, ref)"
      by (metis prod.exhaust)
    then show ?thesis
      using e ModifyOp agree_result [of b r ref "pr_result p"]
      by (auto simp: Pair_apply_def engine_step_def apply_command_def oracle_step_def to_command_def modify_command_def
          default_Command_def flag_event_def default_Outcome_def Let_def)
  qed
qed

lemma check_state_agrees:
  assumes "agree (pair_engine p) (pr_ref p)"
  shows "check_state p = Some []"
proof -
  obtain sb where sb: "book_abs (pr_book p) sb" "oracle_abs (pr_ref p) sb"
    using assms by (auto simp: agree_def engine_abs_def)
  have "invariant_violation (pr_book p) = Some None"
    using self_check_passes [OF sb(1)] sb(2) by (simp add: oracle_abs_def)
  then show ?thesis
    using snapshot_refines [OF sb(1)] Oracle_snapshot_abs [OF sb(2)] by (simp add: check_state_def order_difference_same)
qed

section \<open>Small quantities\<close>

lemma match_rest_le: "match_queue ok acct taker seq tid q xs = (stp, ts, ys, q', tid') \<Longrightarrow> q' \<le> q"
proof (induction ok acct taker seq tid q xs arbitrary: ts rule: match_queue.induct)
  case (2 ok acct taker seq tid q x xs)
  have "q - r_qty x \<le> q" if "r_qty x \<le> q"
    using that by (simp add: word_le_nat_alt unat_sub)
  then show ?case
    using 2 by (fastforce split: if_splits prod.splits)
qed simp

definition small_queue :: "nat \<Rightarrow> queue \<Rightarrow> bool" where
  "small_queue B xs \<longleftrightarrow> (\<forall>x \<in> set xs. unat (r_qty x) \<le> B)"

lemma small_queue_simps [simp]:
  "small_queue B []" "small_queue B (x # xs) \<longleftrightarrow> unat (r_qty x) \<le> B \<and> small_queue B xs"
  "small_queue B (enqueue s x xs) \<longleftrightarrow> unat (r_qty x) \<le> B \<and> small_queue B xs"
  by (auto simp: small_queue_def)

lemma small_queue_subset: "set ys \<subseteq> set xs \<Longrightarrow> small_queue B xs \<Longrightarrow> small_queue B ys"
  by (auto simp: small_queue_def)

lemma small_matched: "matched xs ys \<Longrightarrow> small_queue B xs \<Longrightarrow> small_queue B ys"
  by (auto simp: matched_def small_queue_def word_less_nat_alt)

lemma small_orders: "small_queue B (s_orders sb) \<longleftrightarrow> (\<forall>s. small_queue B (s_queue sb s))"
  by (auto simp: small_queue_def s_orders_def s_queue_def split: Side.splits)

lemma spec_submit_small:
  assumes "small_queue B (s_orders sb)" "unat q \<le> B"
  shows "small_queue B (s_orders (snd (spec_submit fok sb oid s ok p q acct tif)))"
proof -
  obtain r sb' where sub: "spec_submit fok sb oid s ok p q acct tif = (r, sb')"
    by (metis prod.exhaust)
  from sub show ?thesis
  proof (cases rule: spec_submit_cases)
    case (matched stp ts ys q' tid')
    have "unat (resting_qty r) \<le> B"
      using match_rest_le [OF matched(4)] matched(10) assms(2) by (auto simp: word_le_nat_alt split: if_splits)
    moreover have "small_queue B ys"
      using small_matched [OF match_queue_matched [OF matched(4)]] assms(1) by (simp add: small_orders)
    ultimately have "small_queue B (s_queue sb' t)" for t
      using matched(5,12) assms(1) by (cases "t = s"; cases s; cases t) (auto simp: small_orders)
    then show ?thesis
      by (simp add: sub small_orders)
  qed (use sub assms in simp_all)
qed

lemma spec_step_small:
  assumes "small_queue B (s_orders sb)" "unat (c_qty c) \<le> B"
  shows "small_queue B (s_orders (snd (spec_step fok sb c)))"
proof (cases "is_submit c")
  case True
  then show ?thesis
    using spec_submit_small [OF assms] by (simp add: spec_step_submit)
next
  case False
  have rem: "small_queue B (remove_id oid (s_queue sb s))" for oid s
    using assms(1) small_queue_subset [of "remove_id oid (s_queue sb s)" "s_queue sb s"] by (auto simp: remove_id_def small_orders)
  have set: "small_queue B (set_qty oid (c_qty c) (s_queue sb s))" for oid s
    using assms(1) [unfolded small_orders, rule_format, of s] assms(2) by (auto simp: set_qty_def small_queue_def)
  have "kind c = Cancel \<or> kind c = Modify"
    using False by (cases "kind c") (auto simp: is_submit_def)
  then show ?thesis
    using assms rem set
    by (auto simp: spec_step_def spec_cancel_def spec_modify_def small_orders Let_def split: option.splits)
qed

section \<open>The total fits\<close>

lemma insert_by_same: "set (insert_by lt x xs) = insert x (set xs)" "length (insert_by lt x xs) = Suc (length xs)"
  by (induction xs) auto

lemma sort_by_same: "set (sort_by lt xs) = set xs" "length (sort_by lt xs) = length xs"
  by (induction xs) (auto simp: sort_by_def insert_by_same)

lemma total_before_le:
  "small_queue B xs \<Longrightarrow> unat (total_before acct xs n) \<le> unat n + length xs * B"
proof (induction xs arbitrary: n)
  case (Cons x xs)
  have "unat (n + ucast (r_qty x)) \<le> unat n + unat (ucast (r_qty x) :: 64 word)"
    by (simp add: unat_word_ariths)
  also have "unat (ucast (r_qty x) :: 64 word) = unat (r_qty x)"
    using unat_bound32 [of "r_qty x"] by (simp add: unsigned_ucast_eq take_bit_nat_eq_self)
  finally show ?case
    using Cons.IH [of "n + ucast (r_qty x)"] Cons.prems by simp
qed simp

lemma small_fok_fits:
  assumes abs: "oracle_abs ora sb" and small: "small_queue B (s_orders sb)" "s_cap sb * B < 2 ^ 32"
  shows "fok_fits ora c"
proof -
  let ?cs = "filter (\<lambda>x. r_side x \<noteq> c_side c \<and> Oracle_crosses (c_side c) (r_price x) (c_price c)) (ora_orders ora)"
  have "small_queue B (ora_orders ora)"
    using abs small(1) by (simp add: oracle_abs_def small_queue_def)
  then have cs: "small_queue B (sort_by (Oracle_better (c_side c)) ?cs)"
    using small_queue_subset [of "sort_by (Oracle_better (c_side c)) ?cs" "ora_orders ora"] by (auto simp: sort_by_same)
  have "length (ora_orders ora) = length (s_orders sb)"
    using abs by (intro oracle_length) (auto simp: oracle_abs_def spec_inv_def)
  then have "length ?cs \<le> s_cap sb"
    using abs length_filter_le [of _ "ora_orders ora"] by (fastforce simp: oracle_abs_def spec_inv_def intro: order_trans)
  then have "length ?cs * B < 2 ^ 32"
    using small(2) mult_le_mono1 [of "length ?cs" "s_cap sb" B] by linarith
  then have "unat (fillable_before_self_trade ora (c_side c) (c_price c) (c_account c)) < 2 ^ 32"
    using total_before_le [OF cs, of "c_account c" 0] by (simp add: fillable_before_self_trade_def Let_def sort_by_same)
  then show ?thesis
    by (simp add: fok_fits_def word_less_nat_alt)
qed

section \<open>Runs of the harness\<close>

text \<open>After \<open>n\<close> operations with quantities up to \<open>B\<close> on a book of capacity \<open>cap\<close>.\<close>

definition pair_ok :: "nat \<Rightarrow> Index \<Rightarrow> nat \<Rightarrow> Pair \<Rightarrow> bool" where
  "pair_ok B cap n p \<longleftrightarrow> (\<exists>sb. engine_abs (pair_engine p) sb \<and> oracle_abs (pr_ref p) sb \<and> s_cap sb = unat cap \<and>
     small_queue B (s_orders sb)) \<and> ora_seq (pr_ref p) = of_nat n \<and> sn_ops (pr_stats p) = of_nat n"

lemma Pair_new_ok: "pair_ok B cap 0 (Pair_new cap)"
proof -
  have "oracle_abs (Oracle_new (unat cap)) (spec_new (unat cap))"
    using unat_bound32 [of cap] by (intro Oracle_new_abs) simp
  then show ?thesis
    using engine_new_abs [of cap] unfolding pair_ok_def
    by (intro conjI exI [of _ "spec_new (unat cap)"])
      (auto simp: Pair_new_def engine_new_def engine_abs_def spec_new_def s_orders_def Oracle_new_def zero_Stats_def)
qed

lemma pair_ok_apply:
  assumes ok: "pair_ok B cap n p" and n: "n < 2 ^ 64 - 1" and cap: "unat cap * B < 2 ^ 32" and q: "unat (op_qty op) \<le> B"
  shows "\<exists>p'. Pair_apply p op = Some ([], p') \<and> pair_ok B cap (Suc n) p' \<and> pr_ref p' = snd (oracle_step (pr_ref p) (to_command op))"
proof -
  obtain sb where sb: "engine_abs (pair_engine p) sb" "oracle_abs (pr_ref p) sb" "s_cap sb = unat cap" "small_queue B (s_orders sb)"
    and seq: "ora_seq (pr_ref p) = of_nat n" "sn_ops (pr_stats p) = of_nat n"
    using ok by (auto simp: pair_ok_def)
  let ?c = "to_command op"
  have fits: "fok_fits (pr_ref p) ?c"
    using small_fok_fits [OF sb(2,4)] sb(3) cap by simp
  have last: "ora_seq (pr_ref p) \<noteq> - 1"
    using seq_not_last [OF n] seq(1) by simp
  have "agree (pair_engine p) (pr_ref p)"
    using sb by (auto simp: agree_def)
  from Pair_apply_agrees [OF this fits last] obtain p' where p': "Pair_apply p op = Some ([], p')"
      "agree (pair_engine p') (pr_ref p')" "pr_ref p' = snd (oracle_step (pr_ref p) ?c)" "sn_ops (pr_stats p') = sn_ops (pr_stats p) + 1"
    by blast
  have abs: "oracle_abs (pr_ref p') (snd (spec_step id sb ?c))"
    using oracle_step_refines [OF sb(2), of ?c] last sb(2) p'(3) by (auto simp: oracle_abs_def)
  obtain sb' where sb': "engine_abs (pair_engine p') sb'" "oracle_abs (pr_ref p') sb'"
    using p'(2) by (auto simp: agree_def)
  have "unat (c_qty ?c) \<le> B"
    using q by (auto simp: to_command_def limit_command_def market_command_def cancel_command_def modify_command_def
        default_Command_def split: OpKind.split)
  then have "small_queue B (s_orders (snd (spec_step id sb ?c)))"
    using spec_step_small [OF sb(4)] by blast
  moreover have "set (s_orders sb') = set (s_orders (snd (spec_step id sb ?c)))" "s_cap sb' = s_cap (snd (spec_step id sb ?c))"
    using abs sb'(2) by (auto simp: oracle_abs_def)
  ultimately have "small_queue B (s_orders sb')" "s_cap sb' = unat cap"
    using sb(3) spec_step_frame(2) [of id sb ?c] by (simp_all add: small_queue_def)
  then have "pair_ok B cap (Suc n) p'"
    using sb' p'(3,4) seq oracle_step_seq [of "pr_ref p" ?c] unfolding pair_ok_def by (auto simp: add.commute)
  then show ?thesis
    using p'(1,3) by blast
qed

lemma pair_ok_check: "pair_ok B cap n p \<Longrightarrow> check_state p = Some []"
  by (rule check_state_agrees) (auto simp: pair_ok_def agree_def)

end
