(* ===== verification/Stream_Properties.thy ===== *)
theory Stream_Properties
  imports Harness_Properties Replay_Properties
begin

text \<open>
  The random stream of the tests: the generator always produces an operation, within the ranges it is written
  for, and the journal of a stream replays to what the oracle says of it.
\<close>

section \<open>Ranges\<close>

definition in_band :: "Price \<Rightarrow> bool" where
  "in_band p \<longleftrightarrow> Price 80 \<le> p \<and> p \<le> Price 120"

text \<open>An operation of a stream that has issued at most \<open>n\<close> ids.\<close>

definition op_in_range :: "nat \<Rightarrow> Op \<Rightarrow> bool" where
  "op_in_range n op \<longleftrightarrow> unat (op_id op) \<le> n \<and> 1 \<le> op_account op \<and> op_account op \<le> 4 \<and> op_qty op \<le> 10 \<and>
     (op_kind op = CancelOp \<or> in_band (op_price op)) \<and> (op_tif op = (case op_kind op of MarketOp \<Rightarrow> IOC | LimitOp \<Rightarrow> op_tif op | _ \<Rightarrow> GTC))"

definition gen_ok :: "nat \<Rightarrow> Generator \<Rightarrow> bool" where
  "gen_ok n g \<longleftrightarrow> length (gn_price g) = length (gn_issued g) \<and> length (gn_issued g) \<le> n \<and> unat (gn_next_id g) \<le> n \<and>
     (\<forall>x \<in> set (gn_issued g). unat x \<le> n) \<and> (\<forall>p \<in> set (gn_price g). in_band p)"

lemma gen_ok_mono: "gen_ok n g \<Longrightarrow> n \<le> m \<Longrightarrow> gen_ok m g"
  by (auto simp: gen_ok_def)

lemma sint_small:
  assumes "unat (w :: 64 word) < 2 ^ 63"
  shows "sint w = int (unat w)"
proof -
  have "int (unat w) < int (2 ^ 63)"
    using assms by (simp only: of_nat_less_iff)
  then have "signed_take_bit 63 (uint w) = uint w"
    by (intro signed_take_bit_int_eq_self) (auto intro: order_trans [of _ 0])
  then show ?thesis
    by (simp add: sint_uint)
qed

lemma in_band_offset: "unat x \<le> 40 \<Longrightarrow> in_band (Price (80 + x))"
proof -
  assume x: "unat x \<le> 40"
  then have "unat (80 + x) = 80 + unat x"
    by (simp add: unat_word_ariths)
  then have "sint (80 + x) = int (80 + unat x)"
    using x by (subst sint_small) simp_all
  moreover have "int (80 + unat x) \<le> int 120" "int 80 \<le> int (80 + unat x)"
    unfolding of_nat_le_iff using x by simp_all
  ultimately have "Price 80 \<le> Price (80 + x)" "Price (80 + x) \<le> Price 120"
    unfolding Price_le_iff word_sle_eq by simp_all
  then show ?thesis
    by (simp only: in_band_def)
qed

section \<open>Drawing\<close>

lemma draw_ok:
  assumes "gen_ok n g" "m \<noteq> 0"
  obtains x g' where "draw g m = Some (x, g')" "x < m" "gen_ok n g'" "gn_issued g' = gn_issued g" "gn_price g' = gn_price g"
proof -
  obtain x rng where x: "Rng_below (gn_rng g) m = Some (x, rng)" "x < m"
    using assms(2) by (cases "Rng_next (gn_rng g)") (auto simp: Rng_below_def word_mod_less_divisor word_neq_0_conv)
  then show ?thesis
    using that [of x "g\<lparr>gn_rng := rng\<rparr>"] assms(1) by (simp add: draw_def gen_ok_def)
qed

lemma pick_price_ok:
  assumes "gen_ok n g"
  obtains p g' where "pick_price g = Some (p, g')" "in_band p" "gen_ok n g'" "gn_issued g' = gn_issued g" "gn_price g' = gn_price g"
proof -
  obtain r g1 where r: "draw g 100 = Some (r, g1)" "gen_ok n g1" "gn_issued g1 = gn_issued g" "gn_price g1 = gn_price g"
    by (rule draw_ok [OF assms, of 100]) auto
  obtain x g2 where x: "draw g1 41 = Some (x, g2)" "x < 41" "gen_ok n g2" "gn_issued g2 = gn_issued g" "gn_price g2 = gn_price g"
    by (rule draw_ok [OF r(2), of 41]) (auto simp: r)
  obtain y g3 where y: "draw g1 11 = Some (y, g3)" "y < 11" "gen_ok n g3" "gn_issued g3 = gn_issued g" "gn_price g3 = gn_price g"
    by (rule draw_ok [OF r(2), of 11]) (auto simp: r)
  have "in_band (Price (80 + x))"
    using x(2) by (intro in_band_offset) (simp add: word_less_nat_alt)
  moreover have "unat (15 + y) = 15 + unat y"
    using y(2) by (simp add: word_less_nat_alt unat_word_ariths)
  then have "in_band (Price (80 + (15 + y)))"
    using y(2) by (intro in_band_offset) (simp add: word_less_nat_alt)
  ultimately show ?thesis
    using r x y that [of "Price (80 + x)" g2] that [of "Price (95 + y)" g3]
    by (cases "r < 5") (simp_all add: pick_price_def)
qed

lemma index_below: "x < w \<Longrightarrow> w \<le> n \<Longrightarrow> n - 1 - x < (n :: 64 word)"
  by unat_arith

lemma pick_known_ok:
  assumes "gen_ok n g" "n < 2 ^ 64" "gn_issued g \<noteq> []"
  obtains k g' where "pick_known g = Some (k, g')" "unat k < length (gn_issued g)" "gen_ok n g'"
    "gn_issued g' = gn_issued g" "gn_price g' = gn_price g"
proof -
  let ?m = "of_nat (length (gn_issued g)) :: 64 word"
  have "length (gn_issued g) < 2 ^ 64"
    using assms(1,2) by (simp add: gen_ok_def)
  then have m: "unat ?m = length (gn_issued g)"
    by (intro unat_of_nat_small) simp
  then have m0: "?m \<noteq> 0"
    using assms(3) by (metis length_0_conv unat_0)
  let ?w = "if ?m < 64 then ?m else 64"
  have w: "?w \<noteq> 0" "?w \<le> ?m"
    using m0 by auto
  obtain r g1 where r: "draw g 100 = Some (r, g1)" "gen_ok n g1" "gn_issued g1 = gn_issued g" "gn_price g1 = gn_price g"
    by (rule draw_ok [OF assms(1), of 100]) auto
  obtain x g2 where x: "draw g1 ?w = Some (x, g2)" "x < ?w" "gen_ok n g2" "gn_issued g2 = gn_issued g" "gn_price g2 = gn_price g"
    by (rule draw_ok [OF r(2) w(1)]) (auto simp: r)
  obtain y g3 where y: "draw g1 ?m = Some (y, g3)" "y < ?m" "gen_ok n g3" "gn_issued g3 = gn_issued g" "gn_price g3 = gn_price g"
    by (rule draw_ok [OF r(2) m0]) (auto simp: r)
  have "unat (?m - 1 - x) < length (gn_issued g)" "unat y < length (gn_issued g)"
    using index_below [OF x(2) w(2)] y(2) m by (simp_all add: word_less_nat_alt)
  then show ?thesis
    using r x y assms(3) that [of "?m - 1 - x" g2] that [of y g3]
    by (cases "r < 85") (simp_all add: pick_known_def)
qed

lemma known_id_ok:
  assumes "gen_ok n g" "n < 2 ^ 64" "gn_issued g \<noteq> []"
  obtains oid g' where "known_id g = Some (oid, g')" "unat oid \<le> n" "gen_ok n g'" "gn_issued g' = gn_issued g" "gn_price g' = gn_price g"
proof -
  obtain k g' where k: "pick_known g = Some (k, g')" "unat k < length (gn_issued g)" "gen_ok n g'"
      "gn_issued g' = gn_issued g" "gn_price g' = gn_price g"
    by (rule pick_known_ok [OF assms]) blast
  then show ?thesis
    using that [of "gn_issued g ! unat k" g'] assms(1) by (simp add: known_id_def gen_ok_def)
qed

lemma known_or_ok:
  assumes "gen_ok n g" "n < 2 ^ 64"
  obtains oid g' where "known_or z g = Some (oid, g')" "unat oid \<le> max n (unat z)" "gen_ok n g'"
proof (cases "gn_issued g = []")
  case True
  then show ?thesis
    using that [of z g] assms by (simp add: known_or_def)
next
  case False
  then obtain oid g' where "known_id g = Some (oid, g')" "unat oid \<le> n" "gen_ok n g'"
    using known_id_ok [OF assms] by metis
  then show ?thesis
    using that [of oid g'] False by (simp add: known_or_def)
qed

lemma fresh_ok:
  assumes "gen_ok n g" "Suc n < 2 ^ 64"
  obtains oid g' where "fresh g = Some (oid, g')" "unat oid \<le> Suc n" "gen_ok (Suc n) g'" "length (gn_issued g') \<le> n"
proof -
  have "unat (gn_next_id g + 1) \<le> Suc n"
    using assms by (simp add: gen_ok_def unat_word_ariths)
  then show ?thesis
    using that [of "gn_next_id g + 1" "g\<lparr>gn_next_id := gn_next_id g + 1\<rparr>"] assms(1)
    by (fastforce simp: fresh_def gen_ok_def)
qed

lemma fresh_or_reused_ok:
  assumes "gen_ok n g" "Suc n < 2 ^ 64"
  obtains oid g' where "fresh_or_reused g = Some (oid, g')" "unat oid \<le> Suc n" "gen_ok (Suc n) g'" "length (gn_issued g') \<le> n"
proof (cases "gn_issued g = []")
  case True
  obtain oid g' where "fresh g = Some (oid, g')" "unat oid \<le> Suc n" "gen_ok (Suc n) g'" "length (gn_issued g') \<le> n"
    by (rule fresh_ok [OF assms])
  then show ?thesis
    using that [of oid g'] True by (simp add: fresh_or_reused_def)
next
  case False
  obtain r g1 where r: "draw g 100 = Some (r, g1)" "gen_ok n g1" "gn_issued g1 = gn_issued g"
    by (rule draw_ok [OF assms(1), of 100]) auto
  obtain oid g2 where k: "known_id g1 = Some (oid, g2)" "unat oid \<le> n" "gen_ok n g2"
    by (rule known_id_ok [OF r(2)]) (use r(3) False assms(2) in auto)
  show ?thesis
  proof (cases "r < 4")
    case True
    then show ?thesis
      using that [of oid g2] r k False gen_ok_mono [OF k(3), of "Suc n"] by (simp add: fresh_or_reused_def gen_ok_def)
  next
    case no: False
    obtain oid g' where "fresh g1 = Some (oid, g')" "unat oid \<le> Suc n" "gen_ok (Suc n) g'" "length (gn_issued g') \<le> n"
      by (rule fresh_ok [OF r(2) assms(2)])
    then show ?thesis
      using that [of oid g'] r(1) no False by (simp add: fresh_or_reused_def)
  qed
qed

section \<open>One operation\<close>

lemma one_plus_le:
  fixes x :: "64 word"
  assumes "x < m" "unat m \<le> 10"
  shows "unat (1 + ucast x :: 32 word) = Suc (unat x)" "Suc (unat x) \<le> unat m"
proof -
  have x: "unat x < 10" "Suc (unat x) \<le> unat m"
    using assms by (simp_all add: word_less_nat_alt)
  then have "unat (ucast x :: 32 word) = unat x"
    by (simp add: unsigned_ucast_eq take_bit_nat_eq_self)
  then show "unat (1 + ucast x :: 32 word) = Suc (unat x)" "Suc (unat x) \<le> unat m"
    using x by (simp_all add: unat_word_ariths)
qed

text \<open>What \<open>next\<close> knows of the operation when it chooses its kind.\<close>

definition op_begun :: "Op \<Rightarrow> bool" where
  "op_begun op \<longleftrightarrow> 1 \<le> op_account op \<and> op_account op \<le> 4 \<and> op_qty op = 0 \<and> op_tif op = GTC"

lemma next_order_ok:
  assumes "gen_ok n g" "Suc n < 2 ^ 64" "op_begun op"
  obtains op' g' where "next_order op r g = Some (op', g')" "op_in_range (Suc n) op'" "gen_ok (Suc n) g'"
proof -
  obtain oid g1 where f: "fresh_or_reused g = Some (oid, g1)" "unat oid \<le> Suc n" "gen_ok (Suc n) g1" "length (gn_issued g1) \<le> n"
    by (rule fresh_or_reused_ok [OF assms(1,2)])
  obtain p g2 where p: "pick_price g1 = Some (p, g2)" "in_band p" "gen_ok (Suc n) g2" "gn_issued g2 = gn_issued g1"
    by (rule pick_price_ok [OF f(3)])
  obtain q g3 where q: "draw g2 8 = Some (q, g3)" "q < 8" "gen_ok (Suc n) g3" "gn_issued g3 = gn_issued g2" "gn_price g3 = gn_price g2"
    by (rule draw_ok [OF p(3), of 8]) auto
  have "gen_ok (Suc n) (remember oid p g3)"
    using q(3) f(2,4) p(2,4) q(4) by (auto simp: gen_ok_def remember_def)
  then show ?thesis
    using f p q that one_plus_le [OF q(2)] assms(3)
    by (auto simp: next_order_def Let_def op_in_range_def op_begun_def word_le_nat_alt)
qed

lemma next_modify_ok:
  assumes "gen_ok n g" "Suc n < 2 ^ 64" "op_begun op"
  obtains op' g' where "next_modify op g = Some (op', g')" "op_in_range (Suc n) op'" "gen_ok (Suc n) g'"
proof (cases "gn_issued g = []")
  case True
  obtain p g2 where p: "pick_price g = Some (p, g2)" "in_band p" "gen_ok n g2" "gn_issued g2 = gn_issued g"
    by (rule pick_price_ok [OF assms(1)])
  obtain q g3 where q: "draw g2 10 = Some (q, g3)" "q < 10" "gen_ok n g3" "gn_issued g3 = gn_issued g2"
    by (rule draw_ok [OF p(3), of 10]) auto
  have "next_modify op g = Some (op\<lparr>op_kind := ModifyOp, op_id := 0, op_price := p, op_qty := 1 + ucast q\<rparr>, g3)"
    using True p q by (simp add: next_modify_def pick_known_def)
  then show ?thesis
    using that gen_ok_mono [OF q(3), of "Suc n"] p(2) one_plus_le [OF q(2)] assms(3)
    by (auto simp: op_in_range_def op_begun_def word_le_nat_alt)
next
  case False
  obtain k g1 where k: "pick_known g = Some (k, g1)" "unat k < length (gn_issued g)" "gen_ok n g1"
      "gn_issued g1 = gn_issued g" "gn_price g1 = gn_price g"
    by (rule pick_known_ok [OF assms(1) _ False]) (use assms(2) in auto)
  have len: "unat k < length (gn_price g)" "unat (gn_issued g ! unat k) \<le> n" "in_band (gn_price g ! unat k)"
    using k(2) assms(1) by (auto simp: gen_ok_def)
  obtain r g2 where r: "draw g1 10 = Some (r, g2)" "gen_ok n g2" "gn_issued g2 = gn_issued g" "gn_price g2 = gn_price g"
    by (rule draw_ok [OF k(3), of 10]) (auto simp: k)
  obtain p g3 where p: "(if r < 4 then do { p \<leftarrow> nth_opt (gn_price g2) (unat k); Some (p, g2) } else pick_price g2) = Some (p, g3)"
      "in_band p" "gen_ok n g3" "gn_issued g3 = gn_issued g" "gn_price g3 = gn_price g"
  proof (cases "r < 4")
    case True
    then show ?thesis
      using that [of "gn_price g ! unat k" g2] r len by simp
  next
    case False
    obtain p0 h where "pick_price g2 = Some (p0, h)" "in_band p0" "gen_ok n h" "gn_issued h = gn_issued g2" "gn_price h = gn_price g2"
      by (rule pick_price_ok [OF r(2)])
    then show ?thesis
      using that [of p0 h] r False by simp
  qed
  obtain q g4 where q: "draw g3 10 = Some (q, g4)" "q < 10" "gen_ok n g4" "gn_issued g4 = gn_issued g" "gn_price g4 = gn_price g"
    by (rule draw_ok [OF p(3), of 10]) (auto simp: p)
  have "next_modify op g = Some (op\<lparr>op_kind := ModifyOp, op_id := gn_issued g ! unat k, op_price := p, op_qty := 1 + ucast q\<rparr>,
      g4\<lparr>gn_price := (gn_price g)[unat k := p]\<rparr>)"
    using False k r p q len by (simp add: next_modify_def split: if_splits)
  moreover have "gen_ok (Suc n) (g4\<lparr>gn_price := (gn_price g)[unat k := p]\<rparr>)"
    using q p(2) set_update_subset_insert [of "gn_price g" "unat k" p] by (fastforce simp: gen_ok_def)
  ultimately show ?thesis
    using that p(2) len(2) one_plus_le [OF q(2)] assms(3)
    by (auto simp: op_in_range_def op_begun_def word_le_nat_alt)
qed

lemma next_invalid_ok:
  assumes "gen_ok n g" "Suc n < 2 ^ 64" "op_begun op"
  obtains op' g' where "next_invalid op g = Some (op', g')" "op_in_range (Suc n) op'" "gen_ok (Suc n) g'"
proof -
  have n: "n < 2 ^ 64"
    using assms(2) by simp
  obtain w g1 where w: "draw g 3 = Some (w, g1)" "gen_ok n g1"
    by (rule draw_ok [OF assms(1), of 3]) auto
  obtain oid g2 where f: "fresh_or_reused g1 = Some (oid, g2)" "unat oid \<le> Suc n" "gen_ok (Suc n) g2"
    by (rule fresh_or_reused_ok [OF w(2) assms(2)])
  obtain p g3 where fp: "pick_price g2 = Some (p, g3)" "in_band p" "gen_ok (Suc n) g3"
    by (rule pick_price_ok [OF f(3)])
  obtain oid0 g4 where k0: "known_or 0 g1 = Some (oid0, g4)" "unat oid0 \<le> max n (unat (0 :: OrderId))" "gen_ok n g4"
    by (rule known_or_ok [OF w(2) n])
  obtain p0 g5 where p0: "pick_price g4 = Some (p0, g5)" "in_band p0" "gen_ok n g5"
    by (rule pick_price_ok [OF k0(3)])
  obtain oid1 g6 where k1: "known_or 1 g1 = Some (oid1, g6)" "unat oid1 \<le> max n (unat (1 :: OrderId))" "gen_ok n g6"
    by (rule known_or_ok [OF w(2) n])
  obtain p1 g7 where p1: "pick_price g6 = Some (p1, g7)" "in_band p1" "gen_ok n g7"
    by (rule pick_price_ok [OF k1(3)])
  obtain q g8 where q: "draw g7 8 = Some (q, g8)" "q < 8" "gen_ok n g8"
    by (rule draw_ok [OF p1(3), of 8]) auto
  have "gen_ok (Suc n) g5" "gen_ok (Suc n) g8"
    using p0(3) q(3) gen_ok_mono by (metis le_SucI le_refl)+
  then show ?thesis
    using w f fp k0 p0 k1 p1 q one_plus_le [OF q(2)] assms(3) that
    by (cases "w = 0"; cases "w = 1")
      (auto simp: next_invalid_def op_in_range_def op_begun_def word_le_nat_alt max_def split: if_splits)
qed

lemma Generator_next_ok:
  assumes "gen_ok n g" "Suc n < 2 ^ 64"
  obtains op g' where "Generator_next g = Some (op, g')" "op_in_range (Suc n) op" "gen_ok (Suc n) g'"
proof -
  obtain a g1 where a: "draw g 4 = Some (a, g1)" "a < 4" "gen_ok n g1"
    by (rule draw_ok [OF assms(1), of 4]) auto
  obtain coin g2 where c: "draw g1 2 = Some (coin, g2)" "gen_ok n g2"
    by (rule draw_ok [OF a(3), of 2]) auto
  obtain r g3 where r: "draw g2 100 = Some (r, g3)" "gen_ok n g3"
    by (rule draw_ok [OF c(2), of 100]) auto
  let ?op = "default_Op\<lparr>op_account := 1 + ucast a, op_side := (if coin \<noteq> 0 then Buy else Sell)\<rparr>"
  have op: "op_begun ?op"
    using one_plus_le [OF a(2)] by (simp add: op_begun_def default_Op_def word_le_nat_alt)
  obtain op1 h1 where o1: "next_order ?op r g3 = Some (op1, h1)" "op_in_range (Suc n) op1" "gen_ok (Suc n) h1"
    by (rule next_order_ok [OF r(2) assms(2) op])
  obtain op2 h2 where o2: "next_modify ?op g3 = Some (op2, h2)" "op_in_range (Suc n) op2" "gen_ok (Suc n) h2"
    by (rule next_modify_ok [OF r(2) assms(2) op])
  obtain op3 h3 where o3: "next_invalid ?op g3 = Some (op3, h3)" "op_in_range (Suc n) op3" "gen_ok (Suc n) h3"
    by (rule next_invalid_ok [OF r(2) assms(2) op])
  obtain oid h4 where o4: "known_or 0 g3 = Some (oid, h4)" "unat oid \<le> max n (unat (0 :: OrderId))" "gen_ok n h4"
    by (rule known_or_ok [OF r(2) Suc_lessD [OF assms(2)]])
  have o5: "gen_ok (Suc n) h4" "op_in_range (Suc n) (?op\<lparr>op_kind := CancelOp, op_id := oid\<rparr>)"
    using gen_ok_mono [OF o4(3), of "Suc n"] o4(2) op by (simp_all add: op_in_range_def op_begun_def)
  have nxt: "Generator_next g = (if r < 62 then Some (op1, h1) else if r < 79 then Some (?op\<lparr>op_kind := CancelOp, op_id := oid\<rparr>, h4)
      else if r < 97 then Some (op2, h2) else Some (op3, h3))"
    using a(1) c(1) r(1) o1(1) o2(1) o3(1) o4(1) by (simp add: Generator_next_def Let_def)
  consider "r < 62" | "\<not> r < 62" "r < 79" | "\<not> r < 62" "\<not> r < 79" "r < 97" | "\<not> r < 62" "\<not> r < 79" "\<not> r < 97"
    by blast
  then show ?thesis
  proof cases
    case 1
    then show ?thesis
      by (intro that [OF _ o1(2,3)]) (simp only: nxt if_True)
  next
    case 2
    then show ?thesis
      by (intro that [OF _ o5(2,1)]) (simp only: nxt if_True if_False)
  next
    case 3
    then show ?thesis
      by (intro that [OF _ o2(2,3)]) (simp only: nxt if_True if_False)
  next
    case 4
    then show ?thesis
      by (intro that [OF _ o3(2,3)]) (simp only: nxt if_False)
  qed
qed

section \<open>Streams\<close>

lemma Generator_new_ok: "gen_ok 0 (Generator_new seed)"
  by (simp add: gen_ok_def Generator_new_def)

lemma stream_ops_ok:
  assumes "gen_ok k g" "k + n < 2 ^ 64"
  shows "\<exists>ops g'. stream_ops n g = Some (ops, g') \<and> length ops = n \<and> (\<forall>i < n. op_in_range (Suc (k + i)) (ops ! i)) \<and> gen_ok (k + n) g'"
  using assms
proof (induction n arbitrary: k g)
  case (Suc n)
  obtain op g1 where op: "Generator_next g = Some (op, g1)" "op_in_range (Suc k) op" "gen_ok (Suc k) g1"
    by (rule Generator_next_ok [OF Suc.prems(1)]) (use Suc.prems(2) in simp)
  obtain ops g2 where ih: "stream_ops n g1 = Some (ops, g2)" "length ops = n" "\<forall>i < n. op_in_range (Suc (Suc k + i)) (ops ! i)"
      "gen_ok (Suc k + n) g2"
    using Suc.IH [OF op(3)] Suc.prems(2) by auto
  have "op_in_range (Suc (k + i)) ((op # ops) ! i)" if "i < Suc n" for i
    using that op(2) ih(3) by (cases i) auto
  then show ?case
    using op(1) ih(1,2,4) by simp
qed simp

text \<open>C31. The random generator of the tests never fails within 2^64 operations, and the operation at place \<open>i\<close> is one
  it is meant to make: an id no larger than \<open>i + 1\<close>, one of four accounts, a quantity up to ten, a price in the
  band from 80 to 120 unless it is a cancel, and a time in force that fits its kind.\<close>

theorem generator_in_range:
  assumes "n < 2 ^ 64"
  shows "\<exists>ops g. stream_ops n (Generator_new seed) = Some (ops, g) \<and> length ops = n \<and> (\<forall>i < n. op_in_range (Suc i) (ops ! i))"
  using stream_ops_ok [OF Generator_new_ok, of n seed] assms by auto

theorem generator_in_range_witness:
  "\<exists>ops g. stream_ops 3 (Generator_new 7) = Some (ops, g) \<and> length ops = 3 \<and> op_in_range 3 (ops ! 2)"
proof -
  obtain ops g where ops: "stream_ops 3 (Generator_new 7) = Some (ops, g)" "length ops = 3" "\<forall>i < 3. op_in_range (Suc i) (ops ! i)"
    using generator_in_range [of 3 7] by auto
  have "op_in_range 3 (ops ! 2)"
    using ops(3) [rule_format, of 2] by simp
  then show ?thesis
    using ops(1,2) by blast
qed

section \<open>The journal of a stream\<close>

lemma stream_records_concat: "stream_records out cs = out @ concat (map encode cs)"
  by (induction cs arbitrary: out) simp_all

lemma stream_journal: "stream_journal_bytes cap cs = journal_of cap cs"
  by (simp add: stream_journal_bytes_def stream_records_concat journal_of_def)

lemma to_command_canonical: "canonical (to_command op)"
  by (cases "op_kind op") (simp_all add: to_command_def)

lemma to_command_qty: "unat (op_qty op) \<le> B \<Longrightarrow> unat (c_qty (to_command op)) \<le> B"
  by (cases "op_kind op")
    (simp_all add: to_command_def limit_command_def market_command_def cancel_command_def modify_command_def default_Command_def)

text \<open>Commands with small quantities keep every fill-or-kill total in 32 bits.\<close>

lemma small_run_guard:
  assumes "oracle_abs ora sb" "small_queue B (s_orders sb)" "s_cap sb * B < 2 ^ 32" "\<forall>c \<in> set cs. unat (c_qty c) \<le> B"
    "ora_seq ora = of_nat n" "n + length cs < 2 ^ 64"
  shows "run_guard fok_fits oracle_step ora cs"
  using assms
proof (induction cs arbitrary: ora sb n)
  case (Cons c cs)
  have "s_seq sb \<noteq> - 1"
    using seq_not_last [of n] Cons.prems(1,5,6) by (simp add: oracle_abs_def)
  then have "oracle_abs (snd (oracle_step ora c)) (snd (spec_step id sb c))"
    using oracle_step_refines [OF Cons.prems(1), of c] by auto
  moreover have "small_queue B (s_orders (snd (spec_step id sb c)))"
    using spec_step_small [OF Cons.prems(2)] Cons.prems(4) by simp
  ultimately have "run_guard fok_fits oracle_step (snd (oracle_step ora c)) cs"
    using Cons.prems(3-6)
    by (intro Cons.IH [of _ "snd (spec_step id sb c)" "Suc n"]) (simp_all add: spec_step_frame oracle_step_seq add.commute)
  then show ?case
    using small_fok_fits [OF Cons.prems(1-3)] by simp
qed simp

lemma stream_make_ok:
  assumes "n < 2 ^ 64"
  obtains cs where "stream_make seed n = Some cs" "length cs = n" "list_all canonical cs" "\<forall>c \<in> set cs. unat (c_qty c) \<le> 10"
proof -
  obtain ops g where ops: "stream_ops n (Generator_new seed) = Some (ops, g)" "length ops = n" "\<forall>i < n. op_in_range (Suc i) (ops ! i)"
    using stream_ops_ok [OF Generator_new_ok, of n seed] assms by auto
  have "unat (c_qty (to_command op)) \<le> 10" if "op \<in> set ops" for op
    using that ops(2,3) by (intro to_command_qty) (auto simp: in_set_conv_nth op_in_range_def word_le_nat_alt)
  then show ?thesis
    using that [of "map to_command ops"] ops(1,2) by (auto simp: stream_make_def list_all_iff to_command_canonical)
qed

text \<open>C30. The journal of a random stream, replayed, writes down what the oracle does with the stream: its events as the
  log and its orders as the book. Generator, commands, encoding, reader, engine and text are all on that way,
  and none of them can fail.\<close>

theorem stream_replays_as_oracle:
  assumes "n < 2 ^ 64" "unat cap * 10 < 2 ^ 32"
  shows "\<exists>cs. stream_make seed n = Some cs \<and> replay (stream_journal_bytes cap cs) = Some (True,
    \<lparr>rp_log = log_text 0 (zip cs (fst (run_spec oracle_step (Oracle_new (unat cap)) cs))),
     rp_book = book_text (Oracle_snapshot (snd (run_spec oracle_step (Oracle_new (unat cap)) cs))),
     rp_commands = of_nat n, rp_stop = End, rp_valid_bytes = length (stream_journal_bytes cap cs)\<rparr>)"
proof -
  obtain cs where cs: "stream_make seed n = Some cs" "length cs = n" "list_all canonical cs" "\<forall>c \<in> set cs. unat (c_qty c) \<le> 10"
    by (rule stream_make_ok [OF assms(1)])
  have "oracle_abs (Oracle_new (unat cap)) (spec_new (unat cap))"
    using unat_bound32 [of cap] by (intro Oracle_new_abs) simp
  then have "run_guard fok_fits oracle_step (Oracle_new (unat cap)) cs"
    using cs(2,4) assms
    by (intro small_run_guard [of _ "spec_new (unat cap)" 10 _ 0]) (simp_all add: spec_new_def s_orders_def Oracle_new_def)
  then obtain e where "run_steps engine_step (engine_new cap) cs = Some (fst (run_spec oracle_step (Oracle_new (unat cap)) cs), e)"
      "snapshot (fst e) = Some (Oracle_snapshot (snd (run_spec oracle_step (Oracle_new (unat cap)) cs)))"
    using cs(2) assms(1) by (metis oracle_run)
  then show ?thesis
    using cs(1,2) replay_journal [OF cs(3), of cap] by (auto simp: stream_journal)
qed

theorem stream_replays_as_oracle_witness:
  "\<exists>cs. stream_make 3 150 = Some cs \<and> replay (stream_journal_bytes 16 cs) = Some (True,
    \<lparr>rp_log = log_text 0 (zip cs (fst (run_spec oracle_step (Oracle_new 16) cs))),
     rp_book = book_text (Oracle_snapshot (snd (run_spec oracle_step (Oracle_new 16) cs))),
     rp_commands = 150, rp_stop = End, rp_valid_bytes = length (stream_journal_bytes 16 cs)\<rparr>)"
  using stream_replays_as_oracle [of 150 16 3] by simp

end
