(* ===== verification/Differential_Drivers.thy ===== *)
theory Differential_Drivers
  imports Stream_Properties
begin

text \<open>
  The two programs that drive the harness: \<open>tests/fuzz/fuzz_diff.cpp\<close> runs random streams, and
  \<open>tests/fuzz/exhaustive_diff.cpp\<close> every sequence of a small alphabet. The text of a divergence is modelled;
  of the summaries a run prints, the counters.
\<close>

section \<open>fuzz\_diff\<close>

definition fuzz_capacities :: "Index list" where
  "fuzz_capacities = [2, 8, 32, 128]"

fun recent_lines :: "Op list \<Rightarrow> 64 word \<Rightarrow> nat \<Rightarrow> string option" where
  "recent_lines recent i 0 = Some []"
| "recent_lines recent i (Suc k) =
     do {
       let j = i + 1 - of_nat (Suc k);
       op \<leftarrow> nth_opt recent (unat (j mod 8));
       lines \<leftarrow> recent_lines recent i k;
       Some (''  op '' @ show_unsigned j @ '': '' @ describe op @ newline @ lines)
     }"

definition fuzz_report :: "64 word \<Rightarrow> Index \<Rightarrow> 64 word \<Rightarrow> 64 word \<Rightarrow> string \<Rightarrow> Op list \<Rightarrow> string option" where
  "fuzz_report seed cap ops i err recent =
     do {
       let shown = (if i + 1 < 8 then i + 1 else 8);
       lines \<leftarrow> recent_lines recent i (unat shown);
       Some (''DIVERGENCE seed='' @ show_unsigned seed @ '' capacity='' @ show_unsigned cap @ '' op_index='' @ show_unsigned i @
         newline @ ''  '' @ err @ newline @ lines @
         ''reproduce: fuzz_diff 1 '' @ show_unsigned ops @ '' '' @ show_unsigned seed @ '' 1'' @ newline)
     }"

text \<open>The loop over the operations of one seed, with the number of rounds that are left.\<close>

fun fuzz_loop ::
  "nat \<Rightarrow> 64 word \<Rightarrow> 64 word \<Rightarrow> 64 word \<Rightarrow> Index \<Rightarrow> 64 word \<Rightarrow> Generator \<Rightarrow> Pair \<Rightarrow> Op list \<Rightarrow> (string + Pair) option" where
  "fuzz_loop 0 ops stride seed cap i gen pair recent = Some (Inr pair)"
| "fuzz_loop (Suc left) ops stride seed cap i gen pair recent =
     do {
       (op, gen) \<leftarrow> Generator_next gen;
       recent \<leftarrow> upd_opt recent (unat (i mod 8)) op;
       (err, pair) \<leftarrow> Pair_apply pair op;
       err \<leftarrow> (if err = [] \<and> (i mod stride = stride - 1 \<or> i + 1 = ops) then check_state pair else Some err);
       if err = [] then fuzz_loop left ops stride seed cap (i + 1) gen pair recent
       else do { report \<leftarrow> fuzz_report seed cap ops i err recent; Some (Inl report) }
     }"

definition fuzz_seed :: "64 word \<Rightarrow> 64 word \<Rightarrow> 64 word \<Rightarrow> (string + Pair) option" where
  "fuzz_seed ops stride seed =
     do {
       cap \<leftarrow> nth_opt fuzz_capacities (unat (seed mod 4));
       fuzz_loop (unat ops) ops stride seed cap 0 (Generator_new seed) (Pair_new cap) (replicate 8 default_Op)
     }"

fun fuzz_seeds :: "nat \<Rightarrow> 64 word \<Rightarrow> 64 word \<Rightarrow> 64 word \<Rightarrow> Stats \<Rightarrow> (string + Stats) option" where
  "fuzz_seeds 0 ops stride seed tally = Some (Inr tally)"
| "fuzz_seeds (Suc left) ops stride seed tally =
     do {
       res \<leftarrow> fuzz_seed ops stride seed;
       case res of
         Inl report \<Rightarrow> Some (Inl report)
       | Inr pair \<Rightarrow> fuzz_seeds left ops stride (seed + 1) (Stats_add tally (pr_stats pair))
     }"

definition fuzz_vacuous :: "Stats \<Rightarrow> bool" where
  "fuzz_vacuous t \<longleftrightarrow> sn_ops t \<ge> 10000 \<and>
     (sn_trades t = 0 \<or> sn_stp t = 0 \<or> sn_fok_rejected t = 0 \<or> sn_pool_exhausted t = 0 \<or> sn_modify_ok t = 0 \<or>
      sn_modify_crossing_rejected t = 0 \<or> sn_cancel_ok t = 0 \<or> sn_invalid_rejected t = 0)"

text \<open>How \<open>main\<close> ends: with exit code 1 and a report, with 2 for a run that missed a path, or with 0.\<close>

datatype fuzz_end = FuzzDiverged string | FuzzVacuous Stats | FuzzPassed Stats

definition fuzz_diff :: "int \<Rightarrow> 64 word \<Rightarrow> 64 word \<Rightarrow> 64 word \<Rightarrow> fuzz_end option" where
  "fuzz_diff seeds ops start stride =
     do {
       let stride = (if stride = 0 then 1 else stride);
       res \<leftarrow> fuzz_seeds (nat seeds) ops stride start zero_Stats;
       Some (case res of
           Inl report \<Rightarrow> FuzzDiverged report
         | Inr tally \<Rightarrow> if fuzz_vacuous tally then FuzzVacuous tally else FuzzPassed tally)
     }"

lemma fuzz_loop_agrees:
  assumes "gen_ok k gen" "pair_ok 10 cap k pair" "k + left < 2 ^ 64" "unat cap * 10 < 2 ^ 32" "length recent = 8"
  shows "\<exists>pair'. fuzz_loop left ops stride seed cap i gen pair recent = Some (Inr pair') \<and> pair_ok 10 cap (k + left) pair'"
  using assms
proof (induction left arbitrary: k i gen pair recent)
  case (Suc left)
  obtain op gen' where op: "Generator_next gen = Some (op, gen')" "op_in_range (Suc k) op" "gen_ok (Suc k) gen'"
    by (rule Generator_next_ok [OF Suc.prems(1)]) (use Suc.prems(3) in simp)
  have "unat (op_qty op) \<le> 10" "k < 2 ^ 64 - 1"
    using op(2) Suc.prems(3) by (simp_all add: op_in_range_def word_le_nat_alt)
  then obtain pair' where p: "Pair_apply pair op = Some ([], pair')" "pair_ok 10 cap (Suc k) pair'"
    using pair_ok_apply [OF Suc.prems(2) _ Suc.prems(4)] by blast
  have "unat (i mod 8) < 8"
    by (simp add: unat_mod)
  then obtain pair'' where "fuzz_loop left ops stride seed cap (i + 1) gen' pair' (recent[unat (i mod 8) := op]) = Some (Inr pair'')"
      "pair_ok 10 cap (Suc k + left) pair''"
    using Suc.IH [OF op(3) p(2) _ Suc.prems(4), of "recent[unat (i mod 8) := op]" "i + 1"] Suc.prems(3,5) by auto
  then show ?case
    using op(1) p(1) pair_ok_check [OF p(2)] \<open>unat (i mod 8) < 8\<close> Suc.prems(5) by simp
qed simp

lemma fuzz_seed_agrees: "\<exists>pair. fuzz_seed ops stride seed = Some (Inr pair) \<and> sn_ops (pr_stats pair) = ops"
proof -
  have "unat (seed mod 4) < 4"
    by (simp add: unat_mod)
  then have "unat (seed mod 4) \<in> {0, 1, 2, 3}"
    by auto
  then obtain cap where cap: "nth_opt fuzz_capacities (unat (seed mod 4)) = Some cap" "unat cap * 10 < 2 ^ 32"
    by (auto simp: fuzz_capacities_def)
  obtain pair where "fuzz_loop (unat ops) ops stride seed cap 0 (Generator_new seed) (Pair_new cap) (replicate 8 default_Op) = Some (Inr pair)"
      "pair_ok 10 cap (unat ops) pair"
    using fuzz_loop_agrees [OF Generator_new_ok Pair_new_ok _ cap(2), of "unat ops" "replicate 8 default_Op" ops stride seed 0 seed]
      unat_bound64 [of ops] by auto
  then show ?thesis
    using cap(1) by (auto simp: fuzz_seed_def pair_ok_def)
qed

lemma fuzz_seeds_agree:
  "\<exists>t. fuzz_seeds n ops stride seed tally = Some (Inr t) \<and> sn_ops t = sn_ops tally + of_nat n * ops"
proof (induction n arbitrary: seed tally)
  case (Suc n)
  obtain pair where p: "fuzz_seed ops stride seed = Some (Inr pair)" "sn_ops (pr_stats pair) = ops"
    using fuzz_seed_agrees by blast
  then show ?case
    using Suc.IH [of "seed + 1" "Stats_add tally (pr_stats pair)"] by (auto simp: Stats_add_def algebra_simps)
qed simp

text \<open>C3. \<open>fuzz_diff\<close> cannot find a divergence: for any number of seeds and operations, any first seed and any stride
  it runs every operation of every stream, with the comparison of results and books after each, and ends
  without a report.\<close>

theorem fuzz_never_diverges:
  "\<exists>t. fuzz_diff seeds ops start stride = Some (if fuzz_vacuous t then FuzzVacuous t else FuzzPassed t) \<and>
     sn_ops t = of_nat (nat seeds) * ops"
  using fuzz_seeds_agree [of "nat seeds" ops "if stride = 0 then 1 else stride" start zero_Stats]
  by (auto simp: fuzz_diff_def Let_def zero_Stats_def)

section \<open>exhaustive\_diff\<close>

record Sym =
  sy_kind :: OpKind
  sy_side :: Side
  sy_price :: Price
  sy_qty :: Qty
  sy_tif :: TimeInForce
  sy_target :: OrderId

definition kPrices :: "Price list" where
  "kPrices = [Price 10, Price 11, Price 12]"

definition limit_sym :: "Side \<Rightarrow> Price \<Rightarrow> Qty \<Rightarrow> TimeInForce \<Rightarrow> OrderId \<Rightarrow> Sym" where
  "limit_sym s p q tif reuse_id = \<lparr>sy_kind = LimitOp, sy_side = s, sy_price = p, sy_qty = q, sy_tif = tif, sy_target = reuse_id\<rparr>"

definition market_sym :: "Side \<Rightarrow> Qty \<Rightarrow> Sym" where
  "market_sym s q = \<lparr>sy_kind = MarketOp, sy_side = s, sy_price = Price 0, sy_qty = q, sy_tif = IOC, sy_target = 0\<rparr>"

definition cancel_sym :: "OrderId \<Rightarrow> Sym" where
  "cancel_sym oid = \<lparr>sy_kind = CancelOp, sy_side = Buy, sy_price = Price 0, sy_qty = 0, sy_tif = GTC, sy_target = oid\<rparr>"

definition modify_sym :: "OrderId \<Rightarrow> Price \<Rightarrow> Qty \<Rightarrow> Sym" where
  "modify_sym oid p q = \<lparr>sy_kind = ModifyOp, sy_side = Buy, sy_price = p, sy_qty = q, sy_tif = GTC, sy_target = oid\<rparr>"

definition gtc_syms :: "Sym list" where
  "gtc_syms = concat (map (\<lambda>s. concat (map (\<lambda>p. map (\<lambda>q. limit_sym s p q GTC 0) [1, 2]) kPrices)) [Buy, Sell])"

definition cancel_syms :: "OrderId list \<Rightarrow> Sym list" where
  "cancel_syms ids = map cancel_sym ids"

definition modify_syms :: "OrderId list \<Rightarrow> Sym list" where
  "modify_syms ids = concat (map (\<lambda>oid. concat (map (\<lambda>p. map (modify_sym oid p) [1, 3]) kPrices)) ids)"

definition structure_alphabet :: "Sym list" where
  "structure_alphabet = gtc_syms @ cancel_syms [1, 2] @ modify_syms [1]"

definition full_alphabet :: "Sym list" where
  "full_alphabet = gtc_syms @
     concat (map (\<lambda>s. concat (map (\<lambda>p. [limit_sym s p 2 IOC 0, limit_sym s p 2 FOK 0]) kPrices) @
       [market_sym s 2, limit_sym s (Price 11) 1 GTC 1]) [Buy, Sell]) @
     cancel_syms [1, 2] @ modify_syms [1, 2]"

definition capacity_alphabet :: "Sym list" where
  "capacity_alphabet = gtc_syms"

definition make_op :: "Sym \<Rightarrow> 32 word \<Rightarrow> Op" where
  "make_op s step =
     (let creates = (sy_kind s = LimitOp \<or> sy_kind s = MarketOp)
      in \<lparr>op_kind = sy_kind s, op_id = (if creates \<and> sy_target s = 0 then ucast (step + 1) else sy_target s), op_side = sy_side s,
          op_price = sy_price s, op_qty = sy_qty s, op_account = step mod 2, op_tif = sy_tif s\<rparr>)"

record Totals =
  tt_nodes :: "64 word"
  tt_seen :: Stats

definition accumulate :: "Stats \<Rightarrow> Stats \<Rightarrow> Stats \<Rightarrow> Stats" where
  "accumulate before after t = t\<lparr>
     sn_trades := sn_trades t + (sn_trades after - sn_trades before),
     sn_stp := sn_stp t + (sn_stp after - sn_stp before),
     sn_fok_rejected := sn_fok_rejected t + (sn_fok_rejected after - sn_fok_rejected before),
     sn_pool_exhausted := sn_pool_exhausted t + (sn_pool_exhausted after - sn_pool_exhausted before),
     sn_modify_ok := sn_modify_ok t + (sn_modify_ok after - sn_modify_ok before),
     sn_cancel_ok := sn_cancel_ok t + (sn_cancel_ok after - sn_cancel_ok before),
     sn_modify_crossing_rejected := sn_modify_crossing_rejected t +
       (sn_modify_crossing_rejected after - sn_modify_crossing_rejected before)\<rparr>"

fun trail_lines :: "nat \<Rightarrow> Op list \<Rightarrow> string" where
  "trail_lines i [] = []"
| "trail_lines i (op # ops) = ''  op '' @ show_nat i @ '': '' @ describe op @ newline @ trail_lines (i + 1) ops"

definition dfs_report :: "string \<Rightarrow> 32 word \<Rightarrow> string \<Rightarrow> Op list \<Rightarrow> string" where
  "dfs_report pass step err trail = ''DIVERGENCE in pass '' @ [CHR 0x27] @ pass @ [CHR 0x27] @ '' at step '' @ show_unsigned step @
     newline @ ''  '' @ err @ newline @ trail_lines 0 trail"

text \<open>
  The loop of \<open>dfs\<close> over the alphabet, with the recursive call as its first argument. A copy of the pair is taken
  for each symbol, and the trail is as long after a call as before it.
\<close>

fun dfs_loop ::
  "(Pair \<Rightarrow> Op list \<Rightarrow> Totals \<Rightarrow> (string + Totals) option) \<Rightarrow> string \<Rightarrow> Pair \<Rightarrow> 32 word \<Rightarrow> Op list \<Rightarrow> Sym list \<Rightarrow> Totals \<Rightarrow>
   (string + Totals) option" where
  "dfs_loop deeper pass state step trail [] totals = Some (Inr totals)"
| "dfs_loop deeper pass state step trail (s # ss) totals =
     do {
       let op = make_op s step;
       (err, nxt) \<leftarrow> Pair_apply state op;
       err \<leftarrow> (if err = [] then check_state nxt else Some err);
       if err \<noteq> [] then Some (Inl (dfs_report pass step err (trail @ [op])))
       else do {
         let totals = \<lparr>tt_nodes = tt_nodes totals + 1, tt_seen = accumulate (pr_stats state) (pr_stats nxt) (tt_seen totals)\<rparr>;
         res \<leftarrow> deeper nxt (trail @ [op]) totals;
         case res of
           Inl report \<Rightarrow> Some (Inl report)
         | Inr totals \<Rightarrow> dfs_loop deeper pass state step trail ss totals
       }
     }"

text \<open>The number of steps to go stands for \<open>depth - step\<close>.\<close>

primrec dfs :: "string \<Rightarrow> Sym list \<Rightarrow> nat \<Rightarrow> 32 word \<Rightarrow> Pair \<Rightarrow> Op list \<Rightarrow> Totals \<Rightarrow> (string + Totals) option" where
  "dfs pass alphabet 0 = (\<lambda>step state trail totals. Some (Inr totals))"
| "dfs pass alphabet (Suc left) = (\<lambda>step state trail totals.
     dfs_loop (dfs pass alphabet left (step + 1)) pass state step trail alphabet totals)"

record Required =
  rq_stp :: bool
  rq_fok_rejection :: bool
  rq_modify :: bool

datatype pass_end = PassDiverged string | PassVacuous Totals | PassOk Totals

definition pass_vacuous :: "32 word \<Rightarrow> Index \<Rightarrow> Required \<Rightarrow> Stats \<Rightarrow> bool" where
  "pass_vacuous depth cap need s \<longleftrightarrow> depth \<ge> 3 \<and>
     (sn_trades s = 0 \<or> (rq_stp need \<and> sn_stp s = 0) \<or> (rq_fok_rejection need \<and> sn_fok_rejected s = 0) \<or>
      (rq_modify need \<and> (sn_modify_ok s = 0 \<or> sn_modify_crossing_rejected s = 0)) \<or>
      (depth > cap \<and> sn_pool_exhausted s = 0))"

definition run_pass :: "string \<Rightarrow> Sym list \<Rightarrow> 32 word \<Rightarrow> Index \<Rightarrow> Required \<Rightarrow> pass_end option" where
  "run_pass name alphabet depth cap need =
     do {
       res \<leftarrow> dfs name alphabet (unat depth) 0 (Pair_new cap) [] \<lparr>tt_nodes = 0, tt_seen = zero_Stats\<rparr>;
       Some (case res of
           Inl report \<Rightarrow> PassDiverged report
         | Inr totals \<Rightarrow> if pass_vacuous depth cap need (tt_seen totals) then PassVacuous totals else PassOk totals)
     }"

definition pass_failed :: "pass_end \<Rightarrow> bool" where
  "pass_failed e = (case e of PassOk _ \<Rightarrow> False | _ \<Rightarrow> True)"

text \<open>The exit code of \<open>main\<close> and the passes it ran.\<close>

definition exhaustive_diff :: "32 word \<Rightarrow> 32 word \<Rightarrow> 32 word \<Rightarrow> (nat \<times> pass_end list) option" where
  "exhaustive_diff depth_structure depth_full depth_capacity =
     do {
       a \<leftarrow> run_pass ''structure'' structure_alphabet depth_structure 8
              \<lparr>rq_stp = True, rq_fok_rejection = False, rq_modify = True\<rparr>;
       if pass_failed a then Some (1, [a])
       else do {
         b \<leftarrow> run_pass ''full'' full_alphabet depth_full 3 \<lparr>rq_stp = True, rq_fok_rejection = True, rq_modify = True\<rparr>;
         if pass_failed b then Some (1, [a, b])
         else do {
           c \<leftarrow> run_pass ''capacity'' capacity_alphabet depth_capacity 2
                  \<lparr>rq_stp = False, rq_fok_rejection = False, rq_modify = False\<rparr>;
           Some (if pass_failed c then 1 else 0, [a, b, c])
         }
       }
     }"

definition small_alphabet :: "Sym list \<Rightarrow> bool" where
  "small_alphabet alphabet \<longleftrightarrow> list_all (\<lambda>s. unat (sy_qty s) \<le> 3) alphabet"

section \<open>The search leaves nothing out\<close>

text \<open>The non-empty sequences of at most \<open>d\<close> symbols, in the order of the search, and a sequence run on its own:
  it ends in a pair when no comparison after any of its operations finds a difference.\<close>

fun seqs :: "Sym list \<Rightarrow> nat \<Rightarrow> Sym list list" where
  "seqs alphabet 0 = []"
| "seqs alphabet (Suc d) = concat (map (\<lambda>s. [s] # map ((#) s) (seqs alphabet d)) alphabet)"

fun play :: "32 word \<Rightarrow> Pair \<Rightarrow> Sym list \<Rightarrow> Pair option" where
  "play step p [] = Some p"
| "play step p (s # ss) =
     do {
       (err, p) \<leftarrow> Pair_apply p (make_op s step);
       found \<leftarrow> check_state p;
       if err = [] \<and> found = [] then play (step + 1) p ss else None
     }"

text \<open>What one sequence adds to the counters: what its last operation did.\<close>

definition visit :: "32 word \<Rightarrow> Pair \<Rightarrow> Totals \<Rightarrow> Sym list \<Rightarrow> Totals" where
  "visit step p t ss = \<lparr>tt_nodes = tt_nodes t + 1,
     tt_seen = accumulate (pr_stats (the (play step p (butlast ss)))) (pr_stats (the (play step p ss))) (tt_seen t)\<rparr>"

definition visit_all :: "Sym list \<Rightarrow> nat \<Rightarrow> Index \<Rightarrow> Totals" where
  "visit_all alphabet d cap = foldl (visit 0 (Pair_new cap)) \<lparr>tt_nodes = 0, tt_seen = zero_Stats\<rparr> (seqs alphabet d)"

definition full_pass :: "Sym list \<Rightarrow> 32 word \<Rightarrow> Index \<Rightarrow> Required \<Rightarrow> pass_end" where
  "full_pass alphabet depth cap need =
     (let t = visit_all alphabet (unat depth) cap
      in if pass_vacuous depth cap need (tt_seen t) then PassVacuous t else PassOk t)"

lemma set_seqs: "set (seqs alphabet d) = {ss. ss \<noteq> [] \<and> length ss \<le> d \<and> set ss \<subseteq> set alphabet}"
proof (induction d)
  case (Suc d)
  have "ss \<in> set (seqs alphabet (Suc d)) \<longleftrightarrow> ss \<noteq> [] \<and> length ss \<le> Suc d \<and> set ss \<subseteq> set alphabet" for ss
    by (cases ss) (auto simp: Suc.IH image_iff)
  then show ?case
    by blast
qed simp

lemma seqs_not_Nil: "ss \<in> set (seqs alphabet d) \<Longrightarrow> ss \<noteq> []"
  by (simp add: set_seqs)

lemma distinct_seqs: "distinct alphabet \<Longrightarrow> distinct (seqs alphabet d)"
proof (induction d)
  case (Suc d)
  have "distinct (concat (map (\<lambda>s. [s] # map ((#) s) (seqs alphabet d)) xs))" if "distinct xs" for xs
    using that
  proof (induction xs)
    case (Cons x xs)
    have "distinct ([x] # map ((#) x) (seqs alphabet d))"
      using Suc seqs_not_Nil by (auto simp: distinct_map inj_on_def)
    then show ?case
      using Cons by auto
  qed simp
  from this [OF Suc.prems] show ?case
    by simp
qed simp

lemma length_seqs: "length (seqs alphabet d) = (\<Sum>i = 1..d. length alphabet ^ i)"
proof -
  have step: "length (seqs alphabet (Suc d)) = length alphabet * (1 + length (seqs alphabet d))" for d
    by (simp add: length_concat comp_def sum_list_triv)
  have "length (seqs alphabet (Suc d)) = length (seqs alphabet d) + length alphabet ^ Suc d" for d
  proof (induction d)
    case (Suc d)
    have "length (seqs alphabet (Suc (Suc d))) = length alphabet * (1 + (length (seqs alphabet d) + length alphabet ^ Suc d))"
      by (simp only: step [of "Suc d"] Suc.IH)
    then show ?case
      by (simp only: step [of d]) (simp add: algebra_simps)
  qed simp
  then show ?thesis
    by (induction d) simp_all
qed

lemma tt_nodes_visits: "tt_nodes (foldl (visit step p) t xs) = tt_nodes t + of_nat (length xs)"
  by (induction xs arbitrary: t) (simp_all add: visit_def)

text \<open>Behind its first symbol a sequence continues from the pair this symbol leads to.\<close>

lemma visits_Cons:
  assumes "Pair_apply p (make_op s step) = Some ([], p')" "check_state p' = Some []" "[] \<notin> set xs"
  shows "foldl (visit step p) t (map ((#) s) xs) = foldl (visit (step + 1) p') t xs"
  using assms(3)
proof (induction xs arbitrary: t)
  case (Cons x xs)
  then have "x \<noteq> []" "[] \<notin> set xs"
    by auto
  then have "visit step p t (s # x) = visit (step + 1) p' t x"
    using assms(1,2) by (simp add: visit_def)
  then show ?case
    using Cons.IH [OF \<open>[] \<notin> set xs\<close>] by simp
qed simp

lemma dfs_loop_iff:
  assumes "\<And>p trail t t'. deeper p trail t = Some (Inr t') \<longleftrightarrow>
      (\<forall>ss \<in> set xs. play (step + 1) p ss \<noteq> None) \<and> t' = foldl (visit (step + 1) p) t xs"
    and "[] \<notin> set xs"
  shows "dfs_loop deeper pass p step trail symbols t = Some (Inr t') \<longleftrightarrow>
    (\<forall>ss \<in> set (concat (map (\<lambda>s. [s] # map ((#) s) xs) symbols)). play step p ss \<noteq> None) \<and>
    t' = foldl (visit step p) t (concat (map (\<lambda>s. [s] # map ((#) s) xs) symbols))"
proof (induction symbols arbitrary: t)
  case (Cons s symbols)
  let ?op = "make_op s step" and ?block = "\<lambda>s. [s] # map ((#) s) xs"
  show ?case
  proof (cases "\<exists>p'. Pair_apply p ?op = Some ([], p') \<and> check_state p' = Some []")
    case True
    then obtain p' where p': "Pair_apply p ?op = Some ([], p')" "check_state p' = Some []"
      by blast
    let ?t = "\<lparr>tt_nodes = tt_nodes t + 1, tt_seen = accumulate (pr_stats p) (pr_stats p') (tt_seen t)\<rparr>"
    let ?t1 = "foldl (visit (step + 1) p') ?t xs"
    have here: "visit step p t [s] = ?t"
      using p' by (simp add: visit_def)
    have plays: "play step p (s # ss) = play (step + 1) p' ss" for ss
      using p' by simp
    show ?thesis
    proof (cases "\<forall>ss \<in> set xs. play (step + 1) p' ss \<noteq> None")
      case True
      then have "deeper p' (trail @ [?op]) ?t = Some (Inr ?t1)"
        using assms(1) by blast
      then have loop: "dfs_loop deeper pass p step trail (s # symbols) t = dfs_loop deeper pass p step trail symbols ?t1"
        using p' by (simp add: Let_def)
      have counters: "foldl (visit step p) t (concat (map ?block (s # symbols))) = foldl (visit step p) ?t1 (concat (map ?block symbols))"
        by (simp add: here visits_Cons [OF p' assms(2)] del: play.simps)
      have "\<forall>ss \<in> set (?block s). play step p ss \<noteq> None"
        using True plays by (simp del: play.simps add: play.simps(1))
      then have plays_all: "(\<forall>ss \<in> set (concat (map ?block (s # symbols))). play step p ss \<noteq> None) \<longleftrightarrow>
          (\<forall>ss \<in> set (concat (map ?block symbols)). play step p ss \<noteq> None)"
        unfolding list.map concat.simps set_append by blast
      show ?thesis
        unfolding loop counters plays_all by (rule Cons.IH)
    next
      case False
      then have "deeper p' (trail @ [?op]) ?t \<noteq> Some (Inr t'')" for t''
        using assms(1) by blast
      then have "dfs_loop deeper pass p step trail (s # symbols) t \<noteq> Some (Inr t')"
        using p' by (auto simp: Let_def bind_eq_Some_conv split: sum.splits)
      moreover obtain ss where "ss \<in> set xs" "play (step + 1) p' ss = None"
        using False by blast
      then have "s # ss \<in> set (concat (map ?block (s # symbols)))" "play step p (s # ss) = None"
        by (simp, simp only: plays)
      ultimately show ?thesis
        by blast
    qed
  next
    case False
    then have "play step p [s] \<noteq> Some q" for q
      by (auto simp: bind_eq_Some_conv split: if_splits)
    then have "play step p [s] = None"
      by (metis option.exhaust)
    moreover have "dfs_loop deeper pass p step trail (s # symbols) t \<noteq> Some (Inr t')"
      using False by (auto simp: Let_def bind_eq_Some_conv split: if_splits)
    moreover have "[s] \<in> set (concat (map (\<lambda>s. [s] # map ((#) s) xs) (s # symbols)))"
      by simp
    ultimately show ?thesis
      by blast
  qed
qed auto

text \<open>From any pair of books, the search returns without a report exactly when every sequence passes, and then with
  the counters of all of them.\<close>

lemma dfs_iff:
  "dfs pass alphabet d step p trail t = Some (Inr t') \<longleftrightarrow>
     (\<forall>ss \<in> set (seqs alphabet d). play step p ss \<noteq> None) \<and> t' = foldl (visit step p) t (seqs alphabet d)"
proof (induction d arbitrary: step p trail t t')
  case (Suc d)
  have "[] \<notin> set (seqs alphabet d)"
    using seqs_not_Nil by blast
  from dfs_loop_iff [OF Suc.IH this, where pass = pass and symbols = alphabet and t = t and t' = t'] show ?case
    by simp
qed auto

section \<open>No sequence of small quantities diverges\<close>

lemma play_agrees:
  assumes "pair_ok 3 cap k p" "k + length ss < 2 ^ 64" "unat cap * 3 < 2 ^ 32" "small_alphabet ss"
  shows "\<exists>p'. play step p ss = Some p'"
  using assms(1,2,4)
proof (induction ss arbitrary: k p step)
  case (Cons s ss)
  have "unat (op_qty (make_op s step)) \<le> 3" "k < 2 ^ 64 - 1"
    using Cons.prems(2,3) by (simp_all add: make_op_def small_alphabet_def)
  then obtain p' where p': "Pair_apply p (make_op s step) = Some ([], p')" "pair_ok 3 cap (Suc k) p'"
    using pair_ok_apply [OF Cons.prems(1) _ assms(3)] by blast
  then show ?case
    using Cons.IH [OF p'(2)] Cons.prems(2,3) pair_ok_check [OF p'(2)] by (simp add: small_alphabet_def)
qed simp

lemma seqs_play:
  assumes "small_alphabet alphabet" "unat cap * 3 < 2 ^ 32" "d < 2 ^ 64" "ss \<in> set (seqs alphabet d)"
  shows "play 0 (Pair_new cap) ss \<noteq> None"
proof -
  have "small_alphabet ss" "0 + length ss < 2 ^ 64"
    using assms(1,3,4) by (auto simp: set_seqs small_alphabet_def list_all_iff)
  then show ?thesis
    using play_agrees [OF Pair_new_ok _ assms(2)] by fastforce
qed

lemma run_pass_full:
  assumes "small_alphabet alphabet" "unat cap * 3 < 2 ^ 32"
  shows "run_pass name alphabet depth cap need = Some (full_pass alphabet depth cap need)"
proof -
  have "unat depth < 2 ^ 64"
    using unat_bound32 [of depth] by simp
  then have "dfs name alphabet (unat depth) 0 (Pair_new cap) [] \<lparr>tt_nodes = 0, tt_seen = zero_Stats\<rparr> =
      Some (Inr (visit_all alphabet (unat depth) cap))"
    unfolding dfs_iff using seqs_play [OF assms] by (simp add: visit_all_def)
  then show ?thesis
    by (simp add: run_pass_def full_pass_def Let_def)
qed

lemma alphabets:
  "small_alphabet structure_alphabet" "small_alphabet full_alphabet" "small_alphabet capacity_alphabet"
  "length structure_alphabet = 20" "length full_alphabet = 42" "length capacity_alphabet = 12"
  by (simp_all add: small_alphabet_def structure_alphabet_def full_alphabet_def capacity_alphabet_def gtc_syms_def cancel_syms_def
      modify_syms_def kPrices_def limit_sym_def market_sym_def cancel_sym_def modify_sym_def)

lemma distinct_alphabets: "distinct structure_alphabet" "distinct full_alphabet" "distinct capacity_alphabet"
  by code_simp+

definition searched :: "(Sym list \<times> Index) list" where
  "searched = [(structure_alphabet, 8), (full_alphabet, 3), (capacity_alphabet, 2)]"

lemma searched_ok:
  assumes "(alphabet, cap) \<in> set searched"
  shows "small_alphabet alphabet" "unat cap * 3 < 2 ^ 32" "distinct alphabet"
  using assms alphabets distinct_alphabets by (auto simp: searched_def)

text \<open>C4. \<open>exhaustive_diff\<close> leaves nothing out and cannot find a divergence. From any pair of books the search ends
  without a report exactly when no sequence of symbols up to the depth shows a difference. At any depths, each pass the
  program runs ends with the counters of all the sequences of its alphabet (of 20, 42 and 12 symbols), each
  visited once, and none of them shows a difference in any comparison. It exits with 0 exactly when all
  three passes ran and none missed a required path.\<close>

theorem exhaustive_never_diverges:
  "((\<exists>t'. dfs pass alphabet d step p trail t = Some (Inr t')) \<longleftrightarrow>
     (\<forall>ss. ss \<noteq> [] \<and> length ss \<le> d \<and> set ss \<subseteq> set alphabet \<longrightarrow> play step p ss \<noteq> None)) \<and>
   (\<exists>code ends m. exhaustive_diff d1 d2 d3 = Some (code, ends) \<and>
     ends = take m [full_pass structure_alphabet d1 8 \<lparr>rq_stp = True, rq_fok_rejection = False, rq_modify = True\<rparr>,
       full_pass full_alphabet d2 3 \<lparr>rq_stp = True, rq_fok_rejection = True, rq_modify = True\<rparr>,
       full_pass capacity_alphabet d3 2 \<lparr>rq_stp = False, rq_fok_rejection = False, rq_modify = False\<rparr>] \<and>
     0 < m \<and> m \<le> 3 \<and> (code = 0 \<longleftrightarrow> m = 3 \<and> \<not> list_ex pass_failed ends)) \<and>
   map (length \<circ> fst) searched = [20, 42, 12] \<and>
   (\<forall>(symbols, cap) \<in> set searched. \<forall>k < 2 ^ 32.
      distinct (seqs symbols k) \<and> set (seqs symbols k) = {ss. ss \<noteq> [] \<and> length ss \<le> k \<and> set ss \<subseteq> set symbols} \<and>
      tt_nodes (visit_all symbols k cap) = of_nat (\<Sum>i = 1..k. length symbols ^ i) \<and>
      (\<forall>ss \<in> set (seqs symbols k). play 0 (Pair_new cap) ss \<noteq> None))"
proof (intro conjI)
  show "(\<exists>t'. dfs pass alphabet d step p trail t = Some (Inr t')) \<longleftrightarrow>
     (\<forall>ss. ss \<noteq> [] \<and> length ss \<le> d \<and> set ss \<subseteq> set alphabet \<longrightarrow> play step p ss \<noteq> None)"
    unfolding dfs_iff by (simp add: set_seqs)
  have room: "unat (8 :: Index) * 3 < 2 ^ 32" "unat (3 :: Index) * 3 < 2 ^ 32" "unat (2 :: Index) * 3 < 2 ^ 32"
    by simp_all
  note runs = run_pass_full [OF alphabets(1) room(1)] run_pass_full [OF alphabets(2) room(2)] run_pass_full [OF alphabets(3) room(3)]
  let ?a = "full_pass structure_alphabet d1 8 \<lparr>rq_stp = True, rq_fok_rejection = False, rq_modify = True\<rparr>"
  let ?b = "full_pass full_alphabet d2 3 \<lparr>rq_stp = True, rq_fok_rejection = True, rq_modify = True\<rparr>"
  let ?c = "full_pass capacity_alphabet d3 2 \<lparr>rq_stp = False, rq_fok_rejection = False, rq_modify = False\<rparr>"
  let ?n = "if pass_failed ?a then 1 else if pass_failed ?b then 2 else 3 :: nat"
  have "exhaustive_diff d1 d2 d3 = Some (if pass_failed ?a \<or> pass_failed ?b \<or> pass_failed ?c then 1 else 0, take ?n [?a, ?b, ?c])"
    by (simp add: exhaustive_diff_def runs)
  then show "\<exists>code ends m. exhaustive_diff d1 d2 d3 = Some (code, ends) \<and> ends = take m [?a, ?b, ?c] \<and> 0 < m \<and> m \<le> 3 \<and>
      (code = 0 \<longleftrightarrow> m = 3 \<and> \<not> list_ex pass_failed ends)"
    by (intro exI [of _ ?n] exI conjI) (auto simp: numeral_2_eq_2 numeral_3_eq_3)
  show "map (length \<circ> fst) searched = [20, 42, 12]"
    by (simp add: searched_def alphabets)
  show "\<forall>(symbols, cap) \<in> set searched. \<forall>k < 2 ^ 32.
      distinct (seqs symbols k) \<and> set (seqs symbols k) = {ss. ss \<noteq> [] \<and> length ss \<le> k \<and> set ss \<subseteq> set symbols} \<and>
      tt_nodes (visit_all symbols k cap) = of_nat (\<Sum>i = 1..k. length symbols ^ i) \<and>
      (\<forall>ss \<in> set (seqs symbols k). play 0 (Pair_new cap) ss \<noteq> None)"
  proof (intro ballI allI impI, clarify)
    fix symbols cap and k :: nat
    assume known: "(symbols, cap) \<in> set searched" and k: "k < 2 ^ 32"
    have "play 0 (Pair_new cap) ss \<noteq> None" if "ss \<in> set (seqs symbols k)" for ss
      using seqs_play [OF searched_ok(1,2) [OF known] _ that] k by simp
    moreover have "distinct (seqs symbols k)"
      using searched_ok(3) [OF known] by (rule distinct_seqs)
    moreover have "tt_nodes (visit_all symbols k cap) = of_nat (\<Sum>i = 1..k. length symbols ^ i)"
      by (simp add: visit_all_def tt_nodes_visits length_seqs)
    ultimately show "distinct (seqs symbols k) \<and> set (seqs symbols k) = {ss. ss \<noteq> [] \<and> length ss \<le> k \<and> set ss \<subseteq> set symbols} \<and>
        tt_nodes (visit_all symbols k cap) = of_nat (\<Sum>i = 1..k. length symbols ^ i) \<and>
        (\<forall>ss \<in> set (seqs symbols k). play 0 (Pair_new cap) ss \<noteq> None)"
      using set_seqs by blast
  qed
qed

definition sample_symbols :: "Sym list" where
  "sample_symbols = [limit_sym Buy (Price 10) 2 GTC 0, limit_sym Sell (Price 10) 1 GTC 0, limit_sym Sell (Price 12) 1 GTC 0]"

theorem exhaustive_never_diverges_witness: "play 0 (Pair_new 2) sample_symbols \<noteq> None"
proof -
  have sample: "sample_symbols \<noteq> []" "length sample_symbols \<le> 3" "set sample_symbols \<subseteq> set capacity_alphabet"
    by (simp_all add: sample_symbols_def capacity_alphabet_def gtc_syms_def kPrices_def)
  have known: "(capacity_alphabet, 2) \<in> set searched" "(3 :: nat) < 2 ^ 32"
    by (simp_all add: searched_def)
  have "\<forall>(symbols, cap) \<in> set searched. \<forall>k < 2 ^ 32. distinct (seqs symbols k) \<and>
      set (seqs symbols k) = {ss. ss \<noteq> [] \<and> length ss \<le> k \<and> set ss \<subseteq> set symbols} \<and>
      tt_nodes (visit_all symbols k cap) = of_nat (\<Sum>i = 1..k. length symbols ^ i) \<and>
      (\<forall>ss \<in> set (seqs symbols k). play 0 (Pair_new cap) ss \<noteq> None)"
    by (rule exhaustive_never_diverges [THEN conjunct2, THEN conjunct2, THEN conjunct2])
  note part = bspec [OF this known(1), unfolded prod.case, THEN spec, THEN mp, OF known(2)]
  have "sample_symbols \<in> set (seqs capacity_alphabet 3)"
    unfolding part [THEN conjunct2, THEN conjunct1] using sample by simp
  with part [THEN conjunct2, THEN conjunct2, THEN conjunct2] show ?thesis
    by (rule bspec)
qed

end
