(* ===== verification/Environment.thy ===== *)
theory Environment
  imports Runner
begin

text \<open>
  \<open>bench/env.hpp\<close>, in the Linux build: the block of \<open># key: value\<close> lines at the head of every results file.
  What the operating system answers is an argument of the functions, and so are the two macros CMake sets.
\<close>

section \<open>The code\<close>

record Os =
  os_file :: "string \<Rightarrow> string option"
  os_getcpu :: int
  os_affinity :: "bool list option"
  os_setaffinity :: "bool list \<Rightarrow> bool"
  os_uname :: "(string \<times> string) option"
  os_cpuid :: "32 word \<Rightarrow> (32 word \<times> 32 word \<times> 32 word \<times> 32 word) option"
  os_compiler :: string
  os_flags :: string

text \<open>The whole file, or nothing when it cannot be opened.\<close>

definition read_file :: "Os \<Rightarrow> string \<Rightarrow> string option" where
  "read_file os path = os_file os path"

definition kUnavailable :: string where
  "kUnavailable = ''unavailable''"

definition whitespace :: string where
  "whitespace = [CHR 0x20, CHR 0x09, CHR 0x0D, CHR 0x0A]"

text \<open>\<open>find_first_not_of\<close> from position \<open>i\<close> on, and \<open>find_last_not_of\<close>; \<open>npos\<close> is \<open>None\<close>.\<close>

fun find_first_not_of :: "string \<Rightarrow> nat \<Rightarrow> string \<Rightarrow> nat option" where
  "find_first_not_of ws i [] = None"
| "find_first_not_of ws i (c # cs) = (if c \<in> set ws then find_first_not_of ws (i + 1) cs else Some i)"

definition find_last_not_of :: "string \<Rightarrow> string \<Rightarrow> nat option" where
  "find_last_not_of ws s = map_option (\<lambda>i. length s - 1 - i) (find_first_not_of ws 0 (rev s))"

definition trim :: "string \<Rightarrow> string" where
  "trim s =
     (case find_first_not_of whitespace 0 s of
        None \<Rightarrow> []
      | Some b \<Rightarrow> (case find_last_not_of whitespace s of None \<Rightarrow> [] | Some e \<Rightarrow> take (e - b + 1) (drop b s)))"

definition getline :: "string \<Rightarrow> (string \<times> string) option" where
  "getline s =
     (if s = [] then None
      else Some (takeWhile (\<lambda>c. c \<noteq> CHR 0x0A) s, drop 1 (dropWhile (\<lambda>c. c \<noteq> CHR 0x0A) s)))"

fun find_char :: "char \<Rightarrow> nat \<Rightarrow> string \<Rightarrow> nat option" where
  "find_char x i [] = None"
| "find_char x i (c # cs) = (if c = x then Some i else find_char x (i + 1) cs)"

lemma getline_shorter: "getline s = Some (l, ls) \<Longrightarrow> length ls < length s"
  using length_dropWhile_le [of "\<lambda>c. c \<noteq> CHR 0x0A" s] by (cases s) (auto simp: getline_def split: if_splits)

function field_after_colon :: "string \<Rightarrow> string \<Rightarrow> string" where
  "field_after_colon text key =
     (case getline text of
        None \<Rightarrow> []
      | Some (l, lines) \<Rightarrow>
          if take (length key) l \<noteq> key then field_after_colon lines key
          else case find_char CHR '':'' 0 l of
                 None \<Rightarrow> field_after_colon lines key
               | Some colon \<Rightarrow> trim (drop (colon + 1) l))"
  by pat_completeness auto
termination
  by (relation "measure (length \<circ> fst)") (auto dest: getline_shorter)

declare field_after_colon.simps [simp del]

definition cpu_model_from_cpuinfo :: "string \<Rightarrow> string" where
  "cpu_model_from_cpuinfo cpuinfo = (let v = field_after_colon cpuinfo ''model name'' in if v = [] then kUnavailable else v)"

text \<open>\<open>std::strtoull\<close> in base ten: white space, a sign, digits; a value out of range gives the largest number.\<close>

definition is_space :: "char \<Rightarrow> bool" where
  "is_space c \<longleftrightarrow> c \<in> set [CHR 0x20, CHR 0x09, CHR 0x0A, CHR 0x0B, CHR 0x0C, CHR 0x0D]"

definition is_digit :: "char \<Rightarrow> bool" where
  "is_digit c \<longleftrightarrow> 48 \<le> (of_char c :: nat) \<and> (of_char c :: nat) \<le> 57"

definition digits_value :: "string \<Rightarrow> nat" where
  "digits_value ds = foldl (\<lambda>n c. 10 * n + (of_char c - 48)) 0 ds"

definition strtoull :: "string \<Rightarrow> 64 word" where
  "strtoull s =
     (let s = dropWhile is_space s;
          neg = (s \<noteq> [] \<and> hd s = CHR ''-'');
          s = (if s \<noteq> [] \<and> (hd s = CHR ''-'' \<or> hd s = CHR ''+'') then tl s else s);
          n = digits_value (takeWhile is_digit s)
      in if n \<ge> 2 ^ 64 then - 1 else if neg then - of_nat n else of_nat n)"

definition ram_from_meminfo :: "string \<Rightarrow> string" where
  "ram_from_meminfo meminfo =
     (let v = field_after_colon meminfo ''MemTotal''
      in if v = [] then kUnavailable
         else let kib = strtoull v
              in if kib = 0 then kUnavailable else show_unsigned (kib div 1024) @ '' MiB'')"

definition fnv_basis :: "64 word" where
  "fnv_basis = 0xcbf29ce484222325"

fun fnv1a :: "string \<Rightarrow> 64 word \<Rightarrow> 64 word" where
  "fnv1a [] h = h"
| "fnv1a (c # cs) h = fnv1a cs ((h XOR of_char c) * 0x100000001b3)"

definition hex_digit :: "nat \<Rightarrow> char" where
  "hex_digit d = (if d < 10 then char_of (48 + d) else char_of (87 + d))"

definition hex64 :: "64 word \<Rightarrow> string" where
  "hex64 v = map (\<lambda>i. hex_digit (unat (drop_bit (4 * (15 - i)) v AND 0xF))) [0..<16]"

definition binary_hash :: "Os \<Rightarrow> string" where
  "binary_hash os = (case read_file os ''/proc/self/exe'' of None \<Rightarrow> kUnavailable | Some bytes \<Rightarrow> hex64 (fnv1a bytes fnv_basis))"

definition current_cpu :: "Os \<Rightarrow> int" where
  "current_cpu os = os_getcpu os"

definition CPU_SETSIZE :: nat where
  "CPU_SETSIZE = 1024"

definition pin_to_cpu :: "Os \<Rightarrow> int \<Rightarrow> bool" where
  "pin_to_cpu os cpu =
     (if cpu < 0 \<or> cpu \<ge> int CPU_SETSIZE then False
      else os_setaffinity os ((replicate CPU_SETSIZE False)[nat cpu := True]))"

fun first_set :: "int \<Rightarrow> bool list \<Rightarrow> int" where
  "first_set i [] = - 1"
| "first_set i (b # bs) = (if b then i else first_set (i + 1) bs)"

definition pinned_cpu :: "Os \<Rightarrow> int" where
  "pinned_cpu os =
     (case os_affinity os of
        None \<Rightarrow> - 1
      | Some cpus \<Rightarrow> if length (filter id cpus) \<noteq> 1 then - 1 else first_set 0 cpus)"

definition governor :: "Os \<Rightarrow> string" where
  "governor os =
     (let cpu = current_cpu os
      in if cpu < 0 then kUnavailable
         else case read_file os (''/sys/devices/system/cpu/cpu'' @ show_nat (nat cpu) @ ''/cpufreq/scaling_governor'') of
                None \<Rightarrow> kUnavailable
              | Some v \<Rightarrow> if trim v = [] then kUnavailable else trim v)"

definition turbo_state :: "Os \<Rightarrow> string" where
  "turbo_state os =
     (case read_file os ''/sys/devices/system/cpu/intel_pstate/no_turbo'' of
        Some v \<Rightarrow> if trim v = ''1'' then ''disabled'' else ''enabled''
      | None \<Rightarrow>
          (case read_file os ''/sys/devices/system/cpu/cpufreq/boost'' of
             Some v \<Rightarrow> if trim v = ''1'' then ''enabled'' else ''disabled''
           | None \<Rightarrow> kUnavailable))"

definition kernel_version :: "Os \<Rightarrow> string" where
  "kernel_version os = (case os_uname os of Some (sysname, release) \<Rightarrow> sysname @ '' '' @ release | None \<Rightarrow> kUnavailable)"

definition from_file :: "Os \<Rightarrow> string \<Rightarrow> (string \<Rightarrow> string) \<Rightarrow> string" where
  "from_file os path parse = (case read_file os path of Some text \<Rightarrow> parse text | None \<Rightarrow> kUnavailable)"

definition env_line :: "string \<Rightarrow> string \<Rightarrow> string" where
  "env_line key v = ''# '' @ key @ '': '' @ v @ newline"

definition environment_block :: "'d fp \<Rightarrow> Os \<Rightarrow> 'd \<Rightarrow> string" where
  "environment_block fp os clock =
     (let tsc = snprintf 64 ((if tsc_is_invariant (os_cpuid os) then ''invariant'' else ''not invariant'') @ '', '' @
                  fp_fixed fp 4 clock @ '' GHz'');
          pinned = pinned_cpu os
      in env_line ''cpu_model'' (from_file os ''/proc/cpuinfo'' cpu_model_from_cpuinfo) @
         env_line ''pinned_cpu'' (if pinned \<ge> 0 then show_nat (nat pinned) else ''not pinned'') @
         env_line ''governor'' (governor os) @
         env_line ''turbo'' (turbo_state os) @
         env_line ''ram'' (from_file os ''/proc/meminfo'' ram_from_meminfo) @
         env_line ''kernel'' (kernel_version os) @
         env_line ''compiler'' (os_compiler os) @
         env_line ''flags'' (trim (os_flags os)) @
         env_line ''tsc'' tsc @
         env_line ''binary_hash'' (binary_hash os))"

end
