(* ===== verification/Workload_Properties.thy ===== *)
theory Workload_Properties
  imports Workload Order_Properties
begin

text \<open>
  The generator never leaves its arrays, its picture of the resting orders is that of the book, and every
  command it produces takes effect.
\<close>

section \<open>Tracking the resting orders\<close>

definition tracks :: "Tracker \<Rightarrow> RestingOrder set \<Rightarrow> bool" where
  "tracks t S \<longleftrightarrow> distinct (live t) \<and> set (live t) = r_order_id ` S \<and> inj_on r_order_id S \<and>
     (\<forall>i < length (live t). where_ix t (live t ! i) = Some i) \<and> (\<forall>x \<in> S. remaining t (r_order_id x) = Some (r_qty x))"

lemma swap_removal:
  assumes "distinct xs" "i < length xs"
  shows "distinct (butlast (xs[i := last xs]))" "set (butlast (xs[i := last xs])) = set xs - {xs ! i}"
proof -
  obtain ys y where xs: "xs = ys @ [y]"
    using assms(2) by (cases xs rule: rev_cases) auto
  have "distinct (butlast (xs[i := last xs])) \<and> set (butlast (xs[i := last xs])) = set xs - {xs ! i}"
  proof (cases "i < length ys")
    case True
    obtain as x bs where ys: "ys = as @ x # bs" "i = length as"
      using id_take_nth_drop [OF True] True by (metis length_take less_imp_le min.absorb2)
    have "butlast (as @ y # bs @ [y]) = as @ y # bs"
      using butlast_snoc [of "as @ y # bs" y] by simp
    then show ?thesis
      using assms(1) by (auto simp: xs ys nth_append list_update_append)
  next
    case False
    then have "i = length ys"
      using assms(2) xs by simp
    then show ?thesis
      using assms(1) by (auto simp: xs)
  qed
  then show "distinct (butlast (xs[i := last xs]))" "set (butlast (xs[i := last xs])) = set xs - {xs ! i}"
    by simp_all
qed

lemma forget_tracks:
  assumes t: "tracks t S" and x: "x \<in> S"
  shows "\<exists>t'. forget t (r_order_id x) = Some t' \<and> tracks t' (S - {x})"
proof -
  let ?lv = "live t"
  have dist: "distinct ?lv" and set: "set ?lv = r_order_id ` S" and inj: "inj_on r_order_id S"
    using t by (simp_all add: tracks_def)
  obtain i where i: "i < length ?lv" "?lv ! i = r_order_id x"
    using set x by (metis image_eqI in_set_conv_nth)
  then have wi: "where_ix t (r_order_id x) = Some i"
    using t by (auto simp: tracks_def)
  let ?new = "butlast (?lv[i := last ?lv])" and ?wh = "(where_ix t)(last ?lv \<mapsto> i)"
  let ?t = "\<lparr>live = ?new, where_ix = ?wh(r_order_id x := None), remaining = (remaining t)(r_order_id x := None)\<rparr>"
  have f: "forget t (r_order_id x) = Some ?t"
    using i wi by (auto simp: forget_def Let_def)
  have ids: "r_order_id ` (S - {x}) = set ?lv - {?lv ! i}"
    using set inj x i(2) by (auto simp: inj_on_def)
  have "where_ix ?t (?new ! j) = Some j" if j: "j < length ?new" for j
  proof -
    have j': "j < length ?lv" "j \<noteq> length ?lv - 1"
      using j by auto
    have new: "?new ! j = (if j = i then last ?lv else ?lv ! j)"
      using j by (simp add: nth_butlast nth_list_update)
    have "?new ! j \<noteq> r_order_id x"
      using swap_removal(2) [OF dist i(1)] nth_mem [OF j] i(2) by auto
    moreover have "last ?lv \<noteq> ?lv ! j"
      using dist j' by (metis Suc_pred' last_conv_nth length_greater_0_conv less_Suc_eq list.size(3) not_less_zero nth_eq_iff_index_eq lessI)
    ultimately show ?thesis
      using new t j'(1) by (auto simp: tracks_def)
  qed
  moreover have "remaining ?t (r_order_id y) = Some (r_qty y)" if "y \<in> S - {x}" for y
    using that t x inj by (auto simp: tracks_def inj_on_def)
  ultimately have "tracks ?t (S - {x})"
    using swap_removal [OF dist i(1)] ids inj by (simp add: tracks_def inj_on_diff)
  with f show ?thesis
    by blast
qed

lemma reduce_tracks:
  assumes "tracks t S" "x \<in> S" "y = x\<lparr>r_qty := n\<rparr>"
  shows "tracks (t\<lparr>remaining := (remaining t)(r_order_id x \<mapsto> n)\<rparr>) (insert y (S - {x}))"
proof -
  have inj: "inj_on r_order_id S"
    using assms(1) by (simp add: tracks_def)
  have "r_order_id ` insert y (S - {x}) = r_order_id ` S"
    using assms(2,3) by (auto simp: image_iff)
  moreover have "inj_on r_order_id (insert y (S - {x}))"
    using inj assms(2,3) by (auto simp: inj_on_def)
  ultimately show ?thesis
    using assms inj by (auto simp: tracks_def inj_on_def)
qed

lemma note_tracks:
  assumes "tracks t S" "r_order_id x \<notin> r_order_id ` S"
  shows "tracks (note_resting t (r_order_id x) (r_qty x)) (insert x S)"
proof -
  have "r_order_id x \<noteq> r_order_id y" "r_order_id y \<noteq> r_order_id x" if "y \<in> S" for y
    using assms(2) that by (auto simp: image_iff)
  moreover have "live t ! i \<noteq> r_order_id x" if "i < length (live t)" for i
    using assms nth_mem [OF that] by (auto simp: tracks_def)
  ultimately show ?thesis
    using assms by (auto simp: tracks_def note_resting_def nth_append less_Suc_eq inj_on_def)
qed

lemma fill_tracks:
  assumes t: "tracks t S" and x: "x \<in> S"
  shows "\<exists>t'. forget (t\<lparr>remaining := (remaining t)(r_order_id x \<mapsto> 0)\<rparr>) (r_order_id x) = Some t' \<and> tracks t' (S - {x})"
proof -
  let ?y = "x\<lparr>r_qty := 0\<rparr>"
  have "tracks (t\<lparr>remaining := (remaining t)(r_order_id x \<mapsto> 0)\<rparr>) (insert ?y (S - {x}))"
    by (rule reduce_tracks [OF t x]) simp
  from forget_tracks [OF this, of ?y] obtain t' where
    "forget (t\<lparr>remaining := (remaining t)(r_order_id x \<mapsto> 0)\<rparr>) (r_order_id x) = Some t'" "tracks t' (insert ?y (S - {x}) - {?y})"
    by auto
  moreover have "?y \<notin> S - {x}"
    using t x by (auto simp: tracks_def inj_on_def)
  then have "insert ?y (S - {x}) - {?y} = S - {x}"
    by blast
  ultimately show ?thesis
    by auto
qed

lemma forget_filled_tracks:
  assumes "match_queue ok acct taker seq tid q xs = (stp, ts, ys, q', tid')" "tracks t (set xs \<union> R)"
    "distinct xs" "set xs \<inter> R = {}"
  shows "\<exists>t'. forget_filled t ts = Some t' \<and> tracks t' (set ys \<union> R)"
  using assms
proof (induction xs arbitrary: t q tid ts)
  case (Cons x xs)
  have x: "x \<in> set (x # xs) \<union> R" and rem: "remaining t (r_order_id x) = Some (r_qty x)"
    using Cons.prems(2) by (auto simp: tracks_def)
  have diff: "(set (x # xs) \<union> R) - {x} = set xs \<union> R"
    using Cons.prems(3,4) by auto
  from Cons.prems(1) show ?case
  proof (cases rule: match_step_cases)
    case (full ts1)
    obtain t1 where t1: "forget (t\<lparr>remaining := (remaining t)(r_order_id x \<mapsto> 0)\<rparr>) (r_order_id x) = Some t1" "tracks t1 (set xs \<union> R)"
      using fill_tracks [OF Cons.prems(2) x] unfolding diff by blast
    from Cons.IH [OF full(5) t1(2)] Cons.prems(3,4) t1(1) rem full(6) show ?thesis
      by (simp add: Let_def)
  next
    case part
    have "r_qty x - q \<noteq> 0"
      using part(4) by simp
    moreover have "tracks (t\<lparr>remaining := (remaining t)(r_order_id x \<mapsto> r_qty x - q)\<rparr>) (set ys \<union> R)"
      using reduce_tracks [OF Cons.prems(2) x refl, of "r_qty x - q"] unfolding diff part(7) by simp
    ultimately show ?thesis
      using rem part(6) by (simp add: Let_def)
  qed (use Cons.prems(2) in simp_all)
qed simp

section \<open>The distribution\<close>

lemma zipf_weight:
  assumes "1 \<le> r" "r < 2 ^ 25"
  shows "unat (push_bit 40 1 div of_nat r :: 64 word) = 2 ^ 40 div r" "0 < (2 :: nat) ^ 40 div r" "(2 :: nat) ^ 40 div r \<le> 2 ^ 40"
proof -
  have "unat (of_nat r :: 64 word) = r"
    using assms(2) by (intro unat_of_nat_small) simp
  moreover have "unat (push_bit 40 1 :: 64 word) = 2 ^ 40"
    by (simp add: push_bit_eq_mult)
  ultimately show "unat (push_bit 40 1 div of_nat r :: 64 word) = 2 ^ 40 div r"
    by (simp only: unat_div)
  show "0 < (2 :: nat) ^ 40 div r" "(2 :: nat) ^ 40 div r \<le> 2 ^ 40"
    using assms by (auto simp: div_greater_zero_iff intro: le_trans [OF _ less_imp_le])
qed

lemma zipf_loop_sorted:
  assumes "1 \<le> r" "r + k \<le> 2 ^ 25" "unat acc + k * 2 ^ 40 < 2 ^ 64"
  shows "length (zipf_loop r k acc) = k \<and> sorted_wrt (<) (zipf_loop r k acc) \<and> (\<forall>x \<in> set (zipf_loop r k acc). acc < x)"
  using assms
proof (induction k arbitrary: r acc)
  case (Suc k)
  let ?acc = "acc + push_bit 40 1 div of_nat r"
  have w: "unat (push_bit 40 1 div of_nat r :: 64 word) = 2 ^ 40 div r" "0 < (2 :: nat) ^ 40 div r" "(2 :: nat) ^ 40 div r \<le> 2 ^ 40"
    using zipf_weight [of r] Suc.prems(1,2) by simp_all
  have "unat acc + 2 ^ 40 div r < 2 ^ 64"
    using w(3) Suc.prems(3) by (simp only: mult_Suc)
  then have "unat ?acc = unat acc + 2 ^ 40 div r"
    using w(1) by (subst unat_add_lem [THEN iffD1]) simp_all
  then have acc: "acc < ?acc" "unat ?acc + k * 2 ^ 40 < 2 ^ 64"
    using Suc.prems(3) w(2,3) by (simp add: word_less_nat_alt, simp only: mult_Suc)
  then show ?case
    using Suc.IH [of "r + 1" ?acc] Suc.prems(1,2) by (auto simp: Let_def)
qed simp

lemma zipf_cdf_sorted:
  assumes "0 < n" "n < 2 ^ 24"
  shows "length (zipf_cdf n) = unat n" "sorted_wrt (<) (zipf_cdf n)" "zipf_cdf n \<noteq> []" "last (zipf_cdf n) \<noteq> 0"
proof -
  have n: "0 < unat n" "unat n < 2 ^ 24"
    using assms by (simp_all add: word_less_nat_alt)
  note z = zipf_loop_sorted [of 1 "unat n" 0, folded zipf_cdf_def]
  show len: "length (zipf_cdf n) = unat n" and "sorted_wrt (<) (zipf_cdf n)"
    using z n(2) by simp_all
  then show ne: "zipf_cdf n \<noteq> []"
    using n(1) by auto
  show "last (zipf_cdf n) \<noteq> 0"
    using z n(2) last_in_set [OF ne] by (auto simp: word_neq_0_conv)
qed

lemma upper_bound_rank:
  assumes "sorted_wrt (<) cdf" "cdf \<noteq> []" "u < last cdf"
  shows "\<exists>i < length cdf. lower_bound (\<lambda>x. x \<le> u) cdf 0 (length cdf) = Some i \<and> u < cdf ! i \<and> (\<forall>j < i. cdf ! j \<le> (u :: 64 word))"
proof -
  have mono: "cdf ! i \<le> u" if "i < j" "j < 0 + length cdf" "cdf ! j \<le> u" for i j
    using assms(1) that sorted_wrt_nth_less [of "(<)" cdf i j] by auto
  obtain i where i: "lower_bound (\<lambda>x. x \<le> u) cdf 0 (length cdf) = Some i" "i \<le> length cdf"
      "\<And>j. j < i \<Longrightarrow> cdf ! j \<le> u" "\<And>j. i \<le> j \<Longrightarrow> j < length cdf \<Longrightarrow> \<not> cdf ! j \<le> u"
    using lower_bound_partition [of 0 "length cdf" cdf "\<lambda>x. x \<le> u"] mono by auto
  have "i < length cdf"
    using i(2) i(3) [of "length cdf - 1"] assms(2,3) by (cases "i = length cdf") (auto simp: last_conv_nth)
  then show ?thesis
    using i by (auto simp: not_le)
qed

section \<open>A drawn order\<close>

text \<open>Parameters that make sense: the default ones do.\<close>

definition w1_ok :: "W1Params \<Rightarrow> bool" where
  "w1_ok p \<longleftrightarrow> 0 < max_offset p \<and> max_offset p < 2 ^ 24 \<and> cross_shift p \<le> max_offset p \<and> 0 < target_resting p \<and>
     0 < max_qty p \<and> Price (- (2 ^ 62)) \<le> mid p \<and> mid p < Price (2 ^ 62)"

text \<open>Prices within \<open>max_offset\<close> ticks of \<open>mid\<close> and quantities from one to \<open>max_qty\<close>, as the header of the parameters says.\<close>

definition cmd_in_range :: "W1Params \<Rightarrow> Cmd \<Rightarrow> bool" where
  "cmd_in_range p c \<longleftrightarrow> (case cmd_kind c of
     CancelCmd \<Rightarrow> True
   | LimitCmd \<Rightarrow> \<bar>sint (ticks (cmd_price c)) - sint (ticks (mid p))\<bar> \<le> uint (max_offset p) \<and> 0 < cmd_qty c \<and> cmd_qty c \<le> max_qty p)"

lemma Rng_below_Some: "n \<noteq> 0 \<Longrightarrow> \<exists>z rng'. Rng_below rng n = Some (z, rng') \<and> z < n"
proof -
  assume "n \<noteq> 0"
  then have "z mod n < n" for z
    by (simp add: word_less_nat_alt unat_mod unat_gt_0)
  with \<open>n \<noteq> 0\<close> show ?thesis
    by (cases "Rng_next rng") (simp add: Rng_below_def)
qed

lemma sint_shift:
  fixes a :: "64 word"
  assumes "\<bar>sint a\<bar> \<le> 2 ^ 62" "\<bar>k\<bar> < 2 ^ 62"
  shows "sint (a + word_of_int k) = sint a + k" "sint (a - word_of_int k) = sint a - k"
proof -
  have eq: "a + word_of_int k = word_of_int (sint a + k)" "a - word_of_int k = word_of_int (sint a - k)"
    by simp_all
  have "signed_take_bit 63 (sint a + k) = sint a + k" "signed_take_bit 63 (sint a - k) = sint a - k"
    using assms by (intro signed_take_bit_int_eq_self; simp)+
  then show "sint (a + word_of_int k) = sint a + k" "sint (a - word_of_int k) = sint a - k"
    unfolding eq signed_of_int by simp_all
qed

lemma draw_limit_ok:
  assumes ok: "w1_ok p"
  shows "\<exists>c rng'. draw_limit p (zipf_cdf (max_offset p)) rng oid = Some (c, rng') \<and> cmd_kind c = LimitCmd \<and>
    cmd_id c = oid \<and> cmd_account c = ucast oid \<and> cmd_in_range p c"
proof -
  let ?cdf = "zipf_cdf (max_offset p)"
  have p: "0 < max_offset p" "max_offset p < 2 ^ 24" "cross_shift p \<le> max_offset p" "0 < max_qty p"
    using ok by (simp_all add: w1_ok_def)
  note cdf = zipf_cdf_sorted [OF p(1,2)]
  have uq: "unat (ucast (max_qty p) :: 64 word) = unat (max_qty p)"
    using unsigned_less [of "max_qty p", where ?'a = nat] by (simp add: unsigned_ucast_eq take_bit_nat_eq_self)
  then have q0: "(ucast (max_qty p) :: 64 word) \<noteq> 0"
    using p(4) by (metis unat_0 word_less_nat_alt less_irrefl)
  obtain coin rng1 where d1: "Rng_below rng 2 = Some (coin, rng1)"
    using Rng_below_Some [of 2 rng] by auto
  obtain u rng2 where d2: "Rng_below rng1 (last ?cdf) = Some (u, rng2)" "u < last ?cdf"
    using Rng_below_Some [OF cdf(4), of rng1] by auto
  obtain q rng3 where d3: "Rng_below rng2 (ucast (max_qty p)) = Some (q, rng3)" "q < ucast (max_qty p)"
    using Rng_below_Some [OF q0, of rng2] by auto
  obtain i where i: "i < length ?cdf" "lower_bound (\<lambda>x. x \<le> u) ?cdf 0 (length ?cdf) = Some i"
    using upper_bound_rank [OF cdf(2,3) d2(2)] by blast
  define k where "k = int i + 1 - uint (cross_shift p)"
  let ?s = "if coin = 0 then Buy else Sell"
  let ?c = "default_Cmd\<lparr>cmd_kind := LimitCmd, cmd_side := ?s,
         cmd_price := Price (if ?s = Buy then ticks (mid p) - word_of_int k else ticks (mid p) + word_of_int k),
         cmd_qty := ucast (q + 1), cmd_id := oid, cmd_account := ucast oid\<rparr>"
  have "(of_nat i + 1 - ucast (cross_shift p) :: 64 word) = word_of_int k"
    by (simp add: k_def)
  then have draw: "draw_limit p ?cdf rng oid = Some (?c, rng3)"
    using d1 d2(1) d3(1) i(2) cdf(3) by (simp add: draw_limit_def Let_def)
  have k: "\<bar>k\<bar> \<le> uint (max_offset p)"
  proof -
    have "int i < int (unat (max_offset p))"
      using i(1) unfolding cdf(1) by (rule of_nat_less_iff [THEN iffD2])
    then have "int i < uint (max_offset p)"
      by (simp only: uint_nat)
    moreover have "0 \<le> uint (cross_shift p)" "uint (cross_shift p) \<le> uint (max_offset p)"
      using p(3) by (simp_all add: word_le_def)
    ultimately show ?thesis
      unfolding k_def by linarith
  qed
  have price: "\<bar>sint (ticks (cmd_price ?c)) - sint (ticks (mid p))\<bar> \<le> uint (max_offset p)"
  proof -
    have "uint (max_offset p) < 2 ^ 62" "\<bar>sint (ticks (mid p))\<bar> \<le> 2 ^ 62"
      using p(2) ok by (auto simp: w1_ok_def word_less_def less_eq_Price_def less_Price_def word_sle_eq word_sless_alt)
    then show ?thesis
      using k sint_shift [of "ticks (mid p)" k] by auto
  qed
  have "unat q < unat (max_qty p)" "unat (max_qty p) < 2 ^ 32"
    using d3(2) uq unsigned_less [of "max_qty p", where ?'a = nat] by (simp_all add: word_less_nat_alt)
  then have "unat (q + 1) = unat q + 1"
    by (subst unat_add_lem [THEN iffD1]) simp_all
  then have "unat (ucast (q + 1) :: Qty) = unat q + 1"
    using \<open>unat q < unat (max_qty p)\<close> \<open>unat (max_qty p) < 2 ^ 32\<close> by (simp add: unsigned_ucast_eq take_bit_nat_eq_self)
  then have qty: "0 < cmd_qty ?c" "cmd_qty ?c \<le> max_qty p"
    using \<open>unat q < unat (max_qty p)\<close> by (simp_all add: word_less_nat_alt word_le_nat_alt)
  show ?thesis
    using draw price qty by (intro exI [of _ ?c]) (simp add: cmd_in_range_def default_Cmd_def)
qed

section \<open>A step of the generator\<close>

definition cmd_command :: "Cmd \<Rightarrow> Command" where
  "cmd_command c = (case cmd_kind c of
     LimitCmd \<Rightarrow> limit_command (cmd_id c) (cmd_side c) (cmd_price c) (cmd_qty c) (cmd_account c) GTC
   | CancelCmd \<Rightarrow> cancel_command (cmd_id c))"

text \<open>After \<open>n\<close> commands: the tracker holds the resting orders of the book, whose accounts are their ids.\<close>

definition gen_abs :: "Gen \<Rightarrow> nat \<Rightarrow> SpecBook \<Rightarrow> bool" where
  "gen_abs g n sb \<longleftrightarrow> book_abs (g_book g) sb \<and> spec_inv sb \<and> s_seq sb = of_nat n \<and> s_cap sb = unat kBookCapacity \<and>
     tracks (g_track g) (set (s_orders sb)) \<and>
     (\<forall>x \<in> set (s_orders sb). r_account x = ucast (r_order_id x) \<and> unat (r_order_id x) < unat (g_next_id g)) \<and>
     unat (g_next_id g) \<le> n + 1"

lemma matched_same: "matched xs ys \<Longrightarrow> y \<in> set ys \<Longrightarrow> \<exists>x \<in> set xs. r_order_id y = r_order_id x \<and> r_account y = r_account x"
  by (auto simp: matched_def)

lemma spec_next:
  assumes "gen_abs g n sb" "Suc n < 2 ^ 32" "spec_step wrap32 sb c = (ev, sb')"
  shows "spec_inv sb'" "s_seq sb' = of_nat (Suc n)" "s_cap sb' = unat kBookCapacity"
  using assms spec_step_inv [of sb wrap32 c] spec_step_frame [of wrap32 sb c] seq_not_last [of n]
  by (simp_all add: gen_abs_def add.commute)

lemma cancel_tracked:
  assumes g: "gen_abs g n sb" and n: "Suc n < 2 ^ 32" and oid: "oid \<in> set (live (g_track g))"
  shows "\<exists>b' t'. cancel_order (g_book g) oid = Some (True, b') \<and> forget (g_track g) oid = Some t' \<and>
    (\<exists>sb'. gen_abs (g\<lparr>g_rng := rng, g_book := b', g_track := t'\<rparr>) (Suc n) sb')"
proof -
  let ?c = "cancel_command oid"
  have abs: "book_abs (g_book g) sb" and tr: "tracks (g_track g) (set (s_orders sb))" and inv: "spec_inv sb"
    using g by (simp_all add: gen_abs_def)
  obtain ok b' where b': "cancel_order (g_book g) oid = Some (ok, b')" "spec_cancel sb oid = (ok, snd (spec_cancel sb oid))"
      "book_abs b' (snd (spec_cancel sb oid))"
    using cancel_refines [OF abs, of oid] by (auto split: prod.splits)
  have "lookup_id sb oid \<noteq> None"
    using oid tr by (auto simp: tracks_def lookup_id_def find_None_iff)
  then obtain x where x: "lookup_id sb oid = Some x"
    by auto
  note mem = lookup_id_Some [OF x]
  have sc: "spec_cancel sb oid = (True, set_queue (sb\<lparr>s_seq := s_seq sb + 1\<rparr>) (r_side x) (remove_id oid (s_queue sb (r_side x))))"
    using x by (simp add: spec_cancel_def lookup_id_def)
  have orders: "set (s_orders (snd (spec_cancel sb oid))) = set (s_orders sb) - {x}"
    unfolding sc using s_orders_rewritten [OF inv x, of "remove_id oid (s_queue sb (r_side x))" "{}"] by simp
  obtain t' where t': "forget (g_track g) oid = Some t'" "tracks t' (set (s_orders sb) - {x})"
    using forget_tracks [OF tr mem(1)] mem(2) by auto
  have "kind ?c = Cancel" "c_id ?c = oid"
    by (simp_all add: cancel_command_def)
  then have "spec_step wrap32 sb ?c = (flag_event ok, snd (spec_cancel sb oid))"
    using b'(2) by (cases "spec_cancel sb oid") (simp add: spec_step_def)
  from spec_next [OF g n this] have "gen_abs (g\<lparr>g_rng := rng, g_book := b', g_track := t'\<rparr>) (Suc n) (snd (spec_cancel sb oid))"
    using g b'(3) t'(2) orders by (auto simp: gen_abs_def)
  moreover have ok
    using b'(2) sc by simp
  ultimately show ?thesis
    using b'(1) t'(1) by auto
qed

lemma ids_fresh:
  assumes "gen_abs g n sb" "Suc n < 2 ^ 32" "x \<in> set (s_orders sb)"
  shows "r_order_id x \<noteq> g_next_id g" "r_account x \<noteq> ucast (g_next_id g)"
proof -
  have x: "r_account x = ucast (r_order_id x)" "unat (r_order_id x) < unat (g_next_id g)" "unat (g_next_id g) < 2 ^ 32"
    using assms by (auto simp: gen_abs_def)
  then show "r_order_id x \<noteq> g_next_id g"
    by auto
  have "unat (ucast (r_order_id x) :: Account) = unat (r_order_id x)" "unat (ucast (g_next_id g) :: Account) = unat (g_next_id g)"
    using x(2,3) by (simp_all add: unsigned_ucast_eq take_bit_nat_eq_self)
  then show "r_account x \<noteq> ucast (g_next_id g)"
    using x(1,2) by auto
qed

lemma limit_tracked:
  assumes g: "gen_abs g n sb" and n: "Suc n < 2 ^ 32" and q: "q > 0"
  shows "\<exists>r b' t'. add_limit_order empty_result (g_book g) (g_next_id g) s p q (ucast (g_next_id g)) GTC = Some (r, b') \<and>
    forget_filled (g_track g) (trades r) = Some t' \<and> accepted r \<and> \<not> stp_rejected r \<and>
    (\<exists>sb'. gen_abs \<lparr>g_rng = rng, g_book = b',
       g_track = if resting_qty r > 0 then note_resting t' (g_next_id g) (resting_qty r) else t',
       g_next_id = g_next_id g + 1\<rparr> (Suc n) sb')"
proof -
  let ?oid = "g_next_id g" and ?acct = "ucast (g_next_id g)"
  have abs: "book_abs (g_book g) sb" and tr: "tracks (g_track g) (set (s_orders sb))" and inv: "spec_inv sb"
    using g by (simp_all add: gen_abs_def)
  obtain r sb' where spec: "spec_submit wrap32 sb ?oid s (\<lambda>r. limit_crosses s r p) p q ?acct GTC = (r, sb')"
    by fastforce
  obtain b' where b': "add_limit_order empty_result (g_book g) ?oid s p q ?acct GTC = Some (r, b')" "book_abs b' sb'"
    using add_limit_refines [OF abs, of empty_result ?oid s p q ?acct GTC] spec by (auto simp: spec_add_limit_def)
  note fresh = ids_fresh [OF g n]
  have "spec_step wrap32 sb (limit_command ?oid s p q ?acct GTC) = (added_event r, sb')"
    using spec by (simp add: spec_step_def limit_command_def)
  note next_inv = spec_next [OF g n this]
  from spec show ?thesis
  proof (cases rule: spec_submit_cases)
    case rejected
    then have False
      using fresh(1) q by (metis imageE word_gt_0)
    then show ?thesis ..
  next
    case killed
    then show ?thesis
      by simp
  next
    case (matched stp ts ys q' tid')
    let ?xs = "s_queue sb (opposite s)"
    let ?x = "\<lparr>r_side = s, r_price = p, r_order_id = ?oid, r_qty = resting_qty r, r_account = ?acct, r_seq_no = s_seq sb\<rparr>"
    have sides: "set (s_orders sb) = set ?xs \<union> set (s_queue sb s)"
      using s_orders_sides [of sb s] by blast
    have disj: "distinct ?xs" "set ?xs \<inter> set (s_queue sb s) = {}"
      using inv unfolding spec_inv_side [of sb s] by (auto simp: distinct_map)
    have "\<not> stp"
    proof
      assume stp
      then obtain y where "r_account y = ?acct" "y \<in> set ?xs"
        using match_stp [of "\<lambda>r. limit_crosses s r p" ?acct ?oid "s_seq sb" "s_tid sb" q ?xs ts ys q' tid'] matched(4) by auto
      then show False
        using fresh(2) sides by blast
    qed
    obtain t' where t': "forget_filled (g_track g) ts = Some t'" "tracks t' (set ys \<union> set (s_queue sb s))"
      using forget_filled_tracks [OF matched(4) _ disj] tr sides by auto
    let ?t = "if resting_qty r > 0 then note_resting t' ?oid (resting_qty r) else t'"
    have orders: "set (s_orders sb') = (if resting_qty r > 0 then {?x} else {}) \<union> (set ys \<union> set (s_queue sb s))"
      unfolding s_orders_sides [of sb' s] matched(5,12) by auto
    have same: "\<exists>x \<in> set (s_orders sb). r_order_id y = r_order_id x \<and> r_account y = r_account x"
      if "y \<in> set ys \<union> set (s_queue sb s)" for y
      using that matched_same [OF match_queue_matched [OF matched(4)]] sides by auto
    have new: "r_order_id ?x \<notin> r_order_id ` (set ys \<union> set (s_queue sb s))"
      using same fresh(1) by fastforce
    have "tracks ?t (set (s_orders sb'))"
      using note_tracks [OF t'(2) new] t'(2) unfolding orders by auto
    moreover have id': "unat (?oid + 1) = unat ?oid + 1" "unat ?oid + 1 \<le> Suc n + 1"
      using g n by (auto simp: gen_abs_def intro: unat_add_lem [THEN iffD1, THEN trans])
    have "r_account y = ucast (r_order_id y) \<and> unat (r_order_id y) < unat ?oid + 1" if y: "y \<in> set (s_orders sb')" for y
    proof (cases "y \<in> set ys \<union> set (s_queue sb s)")
      case True
      then obtain x where "x \<in> set (s_orders sb)" "r_order_id y = r_order_id x" "r_account y = r_account x"
        using same by blast
      then show ?thesis
        using g by (simp add: gen_abs_def less_Suc_eq)
    next
      case False
      then have "y = ?x"
        using y unfolding orders by (auto split: if_splits)
      then show ?thesis
        by simp
    qed
    ultimately have "gen_abs \<lparr>g_rng = rng, g_book = b', g_track = ?t, g_next_id = ?oid + 1\<rparr> (Suc n) sb'"
      using b'(2) next_inv id' by (simp add: gen_abs_def)
    then show ?thesis
      using b'(1) t'(1) matched(7-9) \<open>\<not> stp\<close> by auto
  qed
qed

text \<open>The result of a limit order does not depend on what the caller's buffer held before.\<close>

lemma add_limit_order_buffer: "add_limit_order r b oid s p q acct tif = add_limit_order empty_result b oid s p q acct tif"
proof -
  have "AddResult_reset r = AddResult_reset empty_result"
    by (simp add: AddResult_reset_def empty_result_def)
  then show ?thesis
    by (simp only: add_limit_order_def)
qed

definition clean_event :: "event \<Rightarrow> bool" where
  "clean_event ev \<longleftrightarrow> o_ok (fst ev) \<and> \<not> o_stp_rejected (fst ev)"

lemma gen_step_ok:
  assumes p: "w1_ok p" and g: "gen_abs g n sb" and n: "Suc n < 2 ^ 32"
  shows "\<exists>c g' ev r' sb'. gen_step p (zipf_cdf (max_offset p)) g = Some (c, g') \<and> cmd_in_range p c \<and>
    engine_step (g_book g, r) (cmd_command c) = Some (ev, g_book g', r') \<and> clean_event ev \<and> gen_abs g' (Suc n) sb'"
proof -
  let ?lv = "live (g_track g)"
  obtain ppm where ppm: "cancel_ppm p (length ?lv) = Some ppm"
    using p by (simp add: cancel_ppm_def w1_ok_def word_gt_0)
  obtain roll rng where roll: "(if ?lv = [] then Some (ppm, g_rng g) else Rng_below (g_rng g) kPpm) = Some (roll, rng)"
    using Rng_below_Some [of kPpm "g_rng g"] by (cases "?lv = []") (auto simp: kPpm_def)
  show ?thesis
  proof (cases "?lv \<noteq> [] \<and> roll < ppm")
    case True
    have "length ?lv \<le> unat kBookCapacity"
    proof -
      have "length ?lv = card (r_order_id ` set (s_orders sb))"
        using g by (metis distinct_card gen_abs_def tracks_def)
      then show ?thesis
        using g card_image_le [of "set (s_orders sb)" r_order_id] card_length [of "s_orders sb"]
        by (simp add: gen_abs_def spec_inv_def)
    qed
    then have len: "unat (of_nat (length ?lv) :: 64 word) = length ?lv"
      by (intro unat_of_nat_small) (simp add: kBookCapacity_def push_bit_eq_mult)
    then have "(of_nat (length ?lv) :: 64 word) \<noteq> 0"
      using True by (metis length_0_conv unat_0)
    then obtain i rng' where i: "Rng_below rng (of_nat (length ?lv)) = Some (i, rng')" "i < of_nat (length ?lv)"
      using Rng_below_Some by blast
    then have "unat i < length ?lv"
      using len by (simp add: word_less_nat_alt)
    then have oid: "nth_opt ?lv (unat i) = Some (?lv ! unat i)" "?lv ! unat i \<in> set ?lv"
      by (simp_all add: nth_opt_def)
    obtain b' t' sb' where ct: "cancel_order (g_book g) (?lv ! unat i) = Some (True, b')"
        "forget (g_track g) (?lv ! unat i) = Some t'" "gen_abs (g\<lparr>g_rng := rng', g_book := b', g_track := t'\<rparr>) (Suc n) sb'"
      using cancel_tracked [OF g n oid(2), of rng'] by blast
    let ?c = "default_Cmd\<lparr>cmd_kind := CancelCmd, cmd_id := ?lv ! unat i\<rparr>"
    have "gen_step p (zipf_cdf (max_offset p)) g = Some (?c, g\<lparr>g_rng := rng', g_book := b', g_track := t'\<rparr>)"
      using ppm roll True i(1) oid(1) ct(1,2) by (simp add: gen_step_def)
    moreover have "engine_step (g_book g, r) (cmd_command ?c) = Some (flag_event True, b', AddResult_reset r)"
      using ct(1) by (simp add: engine_step_def apply_command_def cmd_command_def cancel_command_def flag_event_def empty_result_def)
    moreover have "cmd_in_range p ?c" "clean_event (flag_event True)"
      by (simp_all add: cmd_in_range_def clean_event_def flag_event_def default_Outcome_def)
    ultimately show ?thesis
      using ct(3) by (intro exI [of _ ?c] exI [of _ "g\<lparr>g_rng := rng', g_book := b', g_track := t'\<rparr>"] exI [of _ "flag_event True"]
          exI [of _ "AddResult_reset r"] exI [of _ sb']) simp
  next
    case False
    obtain c rng' where c: "draw_limit p (zipf_cdf (max_offset p)) rng (g_next_id g) = Some (c, rng')" "cmd_kind c = LimitCmd"
        "cmd_id c = g_next_id g" "cmd_account c = ucast (g_next_id g)" "cmd_in_range p c"
      using draw_limit_ok [OF p] by blast
    have "cmd_qty c > 0"
      using c(2,5) by (simp add: cmd_in_range_def)
    then obtain res b' t' sb' where lt:
        "add_limit_order empty_result (g_book g) (g_next_id g) (cmd_side c) (cmd_price c) (cmd_qty c) (ucast (g_next_id g)) GTC = Some (res, b')"
        "forget_filled (g_track g) (trades res) = Some t'" "accepted res" "\<not> stp_rejected res"
        "gen_abs \<lparr>g_rng = rng', g_book = b', g_track = if resting_qty res > 0 then note_resting t' (g_next_id g) (resting_qty res) else t',
           g_next_id = g_next_id g + 1\<rparr> (Suc n) sb'"
      using limit_tracked [OF g n, of "cmd_qty c" "cmd_side c" "cmd_price c" rng'] by blast
    let ?t = "if resting_qty res > 0 then note_resting t' (g_next_id g) (resting_qty res) else t'"
    have "gen_step p (zipf_cdf (max_offset p)) g = Some (c, \<lparr>g_rng = rng', g_book = b', g_track = ?t, g_next_id = g_next_id g + 1\<rparr>)"
      using ppm roll False c(1,3,4) lt(1,2) by (auto simp: gen_step_def Let_def)
    moreover have "engine_step (g_book g, r) (cmd_command c) = Some (added_event res, b', res)"
      using lt(1) c(2-4) add_limit_order_buffer [of r]
      by (simp add: engine_step_def apply_command_def cmd_command_def limit_command_def added_event_def default_Outcome_def)
    moreover have "clean_event (added_event res)"
      using lt(3,4) by (simp add: clean_event_def added_event_def)
    ultimately show ?thesis
      using lt(5) c(5) by (intro exI [of _ c] exI [of _ "added_event res"] exI [of _ res] exI [of _ sb']
          exI [of _ "\<lparr>g_rng = rng', g_book = b', g_track = ?t, g_next_id = g_next_id g + 1\<rparr>"]) simp
  qed
qed

lemma gen_loop_ok:
  assumes "w1_ok p" "gen_abs g n sb" "n + ops < 2 ^ 32"
  shows "\<exists>cs g' evs e. gen_loop p (zipf_cdf (max_offset p)) g ops = Some (cs, g') \<and> length cs = ops \<and>
    (\<forall>c \<in> set cs. cmd_in_range p c) \<and> run_steps engine_step (g_book g, r) (map cmd_command cs) = Some (evs, e) \<and>
    (\<forall>ev \<in> set evs. clean_event ev)"
  using assms(2,3)
proof (induction ops arbitrary: g n sb r)
  case (Suc ops)
  obtain c g' ev r' sb' where step: "gen_step p (zipf_cdf (max_offset p)) g = Some (c, g')" "cmd_in_range p c"
      "engine_step (g_book g, r) (cmd_command c) = Some (ev, g_book g', r')" "clean_event ev" "gen_abs g' (Suc n) sb'"
    using gen_step_ok [OF assms(1) Suc.prems(1), of r] Suc.prems(2) by auto
  then show ?case
    using Suc.IH [OF step(5), of r'] Suc.prems(2) by force
qed simp

section \<open>The workload is clean\<close>

lemma gen_new_abs: "gen_abs (gen_new seed) 0 (spec_new (unat kBookCapacity))"
  using Book_new_abs [of kBookCapacity] spec_new_inv [of "unat kBookCapacity"]
  by (simp add: gen_abs_def gen_new_def tracks_def spec_new_def s_orders_def)

text \<open>C32. For sensible parameters and fewer than 2^32 commands the generator returns as many commands as asked for.
  Prices stay within \<open>max_offset\<close> of \<open>mid\<close>, quantities between one and \<open>max_qty\<close>, and on a fresh book every
  command takes effect: each limit order is accepted, each cancel hits a resting order, and self-trade
  prevention never fires.\<close>

theorem generate_clean:
  assumes "w1_ok p" "ops < 2 ^ 32"
  shows "\<exists>cmds evs e. generate p seed ops = Some cmds \<and> length cmds = ops \<and> (\<forall>c \<in> set cmds. cmd_in_range p c) \<and>
    run_steps engine_step (engine_new kBookCapacity) (map cmd_command cmds) = Some (evs, e) \<and>
    (\<forall>ev \<in> set evs. o_ok (fst ev) \<and> \<not> o_stp_rejected (fst ev))"
proof -
  have "g_book (gen_new seed) = Book_new kBookCapacity"
    by (simp add: gen_new_def)
  then show ?thesis
    using gen_loop_ok [OF assms(1) gen_new_abs, of ops seed empty_result] assms(2)
    by (fastforce simp: generate_def engine_new_def clean_event_def)
qed

theorem generate_clean_witness:
  "\<exists>cmds evs e. generate default_W1Params 1 1000000 = Some cmds \<and> length cmds = 1000000 \<and>
    (\<forall>c \<in> set cmds. cmd_in_range default_W1Params c) \<and>
    run_steps engine_step (engine_new kBookCapacity) (map cmd_command cmds) = Some (evs, e) \<and>
    (\<forall>ev \<in> set evs. o_ok (fst ev) \<and> \<not> o_stp_rejected (fst ev))"
proof (rule generate_clean)
  show "w1_ok default_W1Params"
    by code_simp
qed simp

end
