(* ===== verification/Runner_Properties.thy ===== *)
theory Runner_Properties
  imports Runner Workload_Properties
begin

text \<open>
  The statistics are those of the nearest rank, and the two passes of a run always agree.
\<close>

section \<open>Percentiles\<close>

lemma count_at_most:
  assumes "sorted xs" "i < length xs"
  shows "i < length (filter (\<lambda>x. x \<le> xs ! i) xs)"
proof -
  have "filter (\<lambda>x. x \<le> xs ! i) (take (Suc i) xs) = take (Suc i) xs"
    using assms by (auto simp: filter_id_conv in_set_conv_nth sorted_iff_nth_mono)
  then have "length (filter (\<lambda>x. x \<le> xs ! i) (take (Suc i) xs @ drop (Suc i) xs)) \<ge> Suc i"
    using assms(2) by (simp only: filter_append length_append) simp
  then show ?thesis
    by (simp only: append_take_drop_id Suc_le_eq)
qed

lemma count_below:
  assumes "sorted xs" "i < length xs"
  shows "length (filter (\<lambda>x. x < xs ! i) xs) \<le> i"
proof -
  have "filter (\<lambda>x. x < xs ! i) (drop i xs) = []"
    using assms by (auto simp: filter_empty_conv in_set_conv_nth not_less sorted_iff_nth_mono)
  then have "length (filter (\<lambda>x. x < xs ! i) (take i xs @ drop i xs)) \<le> i"
    using length_filter_le [of "\<lambda>x. x < xs ! i" "take i xs"] by (simp only: filter_append) simp
  then show ?thesis
    by (simp only: append_take_drop_id)
qed

text \<open>The rank is computed without overflow and lies in the list.\<close>

lemma percentile_at:
  assumes "xs \<noteq> []" "length xs < 2 ^ 48" "0 < per" "per \<le> 10000"
  defines "r \<equiv> (length xs * unat per + 9999) div 10000"
  shows "percentile xs per = Some (xs ! (r - 1))" "0 < r" "r \<le> length xs"
proof -
  let ?n = "length xs"
  have per: "0 < unat per" "unat per \<le> 10000"
    using assms(3,4) by (simp_all add: word_less_nat_alt word_le_nat_alt)
  have n: "0 < ?n"
    using assms(1) by simp
  have le: "?n * unat per \<le> ?n * 10000"
    using per(2) by (rule mult_le_mono2)
  have pos: "0 < ?n * unat per"
    using n per(1) by simp
  show r: "0 < r"
    using pos unfolding r_def div_greater_zero_iff by linarith
  have "r \<le> (?n * 10000 + 9999) div 10000"
    unfolding r_def using le by (intro div_le_mono) simp
  then show r': "r \<le> ?n"
    by simp
  let ?w = "of_nat ?n * ucast per + 9999 :: 64 word"
  have "?w = of_nat (?n * unat per + 9999)"
    by simp
  moreover have "?n * unat per + 9999 < 2 ^ 64"
    using le_less_trans [OF le, of "2 ^ 48 * 10000"] assms(2) by simp
  ultimately have "unat ?w = ?n * unat per + 9999"
    by (simp only:) (rule unat_of_nat_small, simp)
  then have rank: "unat (?w div 10000) = r"
    by (simp add: unat_div r_def)
  then have "unat (?w div 10000 - 1) = r - 1"
    using r by (simp add: unat_minus_le word_le_nat_alt)
  then show "percentile xs per = Some (xs ! (r - 1))"
    using r r' by (simp add: percentile_def Let_def)
qed

text \<open>C35. On sorted samples the percentile is the sample of the nearest rank: at least the asked share of the samples
  is at or below it, and less than that share is below it. The rank computation neither overflows nor
  leaves the array.\<close>

theorem percentile_nearest_rank:
  assumes "sorted xs" "xs \<noteq> []" "length xs < 2 ^ 48" "0 < per" "per \<le> 10000"
  shows "\<exists>v \<in> set xs. percentile xs per = Some v \<and>
    unat per * length xs \<le> 10000 * length (filter (\<lambda>x. x \<le> v) xs) \<and>
    10000 * length (filter (\<lambda>x. x < v) xs) < unat per * length xs"
proof -
  define r where "r = (length xs * unat per + 9999) div 10000"
  note p = percentile_at [OF assms(2-5), folded r_def]
  let ?v = "xs ! (r - 1)"
  have i: "r - 1 < length xs"
    using p(2,3) by simp
  have "length xs * unat per \<le> 10000 * r" "10000 * r < length xs * unat per + 10000"
    unfolding r_def by linarith+
  moreover have "r \<le> length (filter (\<lambda>x. x \<le> ?v) xs)" "length (filter (\<lambda>x. x < ?v) xs) \<le> r - 1"
    using count_at_most [OF assms(1) i] count_below [OF assms(1) i] p(2) by simp_all
  ultimately have "unat per * length xs \<le> 10000 * length (filter (\<lambda>x. x \<le> ?v) xs)"
    "10000 * length (filter (\<lambda>x. x < ?v) xs) < unat per * length xs"
    using p(2) by (simp_all add: mult.commute)
  then show ?thesis
    using p(1) nth_mem [OF i] by blast
qed

theorem percentile_nearest_rank_witness:
  "\<exists>v \<in> set [10, 20, 30, 40, 50]. percentile [10, 20, 30, 40, 50] 9900 = Some v \<and>
    unat (9900 :: 32 word) * length [10, 20, 30, 40, 50 :: 64 word] \<le> 10000 * length (filter (\<lambda>x. x \<le> v) [10, 20, 30, 40, 50]) \<and>
    10000 * length (filter (\<lambda>x. x < v) [10, 20, 30, 40, 50]) < unat (9900 :: 32 word) * length [10, 20, 30, 40, 50 :: 64 word]"
  by (rule percentile_nearest_rank) simp_all

lemma stats_from_Some:
  assumes "length xs < 2 ^ 48"
  shows "\<exists>s. stats_from fp clock xs = Some s \<and> st_samples s = length xs"
proof (cases "xs = []")
  case True
  then show ?thesis
    by (simp add: stats_from_def)
next
  case False
  then have "sort xs \<noteq> []" "length (sort xs) < 2 ^ 48"
    using assms by (metis length_0_conv length_sort, simp)
  note p = percentile_at(1) [OF this]
  show ?thesis
    using False by (simp add: stats_from_def Let_def p)
qed

section \<open>Passes\<close>

definition trades_in :: "event list \<Rightarrow> nat" where
  "trades_in evs = sum_list (map (length \<circ> snd) evs)"

lemma trades_in_simps [simp]: "trades_in [] = 0" "trades_in (ev # evs) = length (snd ev) + trades_in evs"
  by (simp_all add: trades_in_def)

text \<open>A command of the harness is the same command of the engine, whatever the result buffer holds.\<close>

lemma bench_apply_refines:
  assumes "book_abs b sb"
  shows "\<exists>b' r'. bench_apply b c r = Some (length (snd (fst (spec_step wrap32 sb (cmd_command c)))), b', r') \<and>
    book_abs b' (snd (spec_step wrap32 sb (cmd_command c)))"
proof (cases "cmd_kind c")
  case LimitCmd
  then show ?thesis
    using add_limit_refines [OF assms, of r "cmd_id c" "cmd_side c" "cmd_price c" "cmd_qty c" "cmd_account c" GTC]
    by (auto simp: bench_apply_def cmd_command_def spec_step_def limit_command_def spec_add_limit_def added_event_def
        map_prod_def split: prod.splits)
next
  case CancelCmd
  then show ?thesis
    using cancel_refines [OF assms, of "cmd_id c"]
    by (auto simp: bench_apply_def cmd_command_def spec_step_def cancel_command_def flag_event_def map_prod_def
        split: prod.splits)
qed

lemma apply_all_refines:
  assumes "book_abs b sb"
  shows "\<exists>b' r'. apply_all b r n cs = Some (n + of_nat (trades_in (fst (run_spec (spec_step wrap32) sb (map cmd_command cs)))), b', r') \<and>
    book_abs b' (snd (run_spec (spec_step wrap32) sb (map cmd_command cs)))"
  using assms
proof (induction cs arbitrary: b sb r n)
  case (Cons c cs)
  obtain b1 r1 where s: "bench_apply b c r = Some (length (snd (fst (spec_step wrap32 sb (cmd_command c)))), b1, r1)"
      "book_abs b1 (snd (spec_step wrap32 sb (cmd_command c)))"
    using bench_apply_refines [OF Cons.prems] by blast
  then show ?case
    using Cons.IH [OF s(2), of r1 "n + of_nat (length (snd (fst (spec_step wrap32 sb (cmd_command c)))))"]
    by (auto split: prod.splits simp: algebra_simps)
qed simp

definition of_kind :: "CmdKind \<Rightarrow> Cmd list \<Rightarrow> nat" where
  "of_kind k cs = length (filter (\<lambda>c. cmd_kind c = k) cs)"

lemma of_kind_simps [simp]: "of_kind k [] = 0" "of_kind k (c # cs) = (if cmd_kind c = k then Suc (of_kind k cs) else of_kind k cs)"
  by (simp_all add: of_kind_def)

lemma count_loop_of_kind:
  "kc_limit (count_loop k cs) = kc_limit k + of_kind LimitCmd cs" "kc_cancel (count_loop k cs) = kc_cancel k + of_kind CancelCmd cs"
  by (induction cs arbitrary: k) (auto split: if_splits, (metis CmdKind.exhaust)+)

lemma of_kind_le: "of_kind k cs \<le> length cs"
  by (simp add: of_kind_def)

lemma timed_all_refines:
  assumes "book_abs b sb"
  shows "\<exists>xs ys. timed_all tsc t b r n ls ks cs = Some (n + of_nat (trades_in (fst (run_spec (spec_step wrap32) sb (map cmd_command cs)))), xs, ys) \<and>
    length xs = length ls + of_kind LimitCmd cs \<and> length ys = length ks + of_kind CancelCmd cs"
  using assms
proof (induction cs arbitrary: b sb r n t ls ks)
  case (Cons c cs)
  let ?k = "length (snd (fst (spec_step wrap32 sb (cmd_command c))))"
  obtain b1 r1 where s: "bench_apply b c r = Some (?k, b1, r1)" "book_abs b1 (snd (spec_step wrap32 sb (cmd_command c)))"
    using bench_apply_refines [OF Cons.prems] by blast
  show ?case
  proof (cases "cmd_kind c")
    case LimitCmd
    then show ?thesis
      using s(1) Cons.IH [OF s(2), of "t + 2" r1 "n + of_nat ?k" "ls @ [tsc (t + 1) - tsc t]" ks]
      by (auto split: prod.splits simp: algebra_simps)
  next
    case CancelCmd
    then show ?thesis
      using s(1) Cons.IH [OF s(2), of "t + 2" r1 "n + of_nat ?k" ls "ks @ [tsc (t + 1) - tsc t]"]
      by (auto split: prod.splits simp: algebra_simps)
  qed
qed simp

lemma run_spec_length: "length (fst (run_spec spec t cs)) = length cs"
proof (induction cs arbitrary: t)
  case (Cons c cs)
  show ?case
    using Cons.IH [of "snd (spec t c)"] by (auto split: prod.splits)
qed simp

text \<open>What a run does, on any commands.\<close>

lemma run_finishes:
  assumes "warmup \<le> length cmds" "length cmds < 2 ^ 48"
  defines "evs \<equiv> fst (run_spec (spec_step wrap32) (spec_new (unat kRunnerCapacity)) (map cmd_command cmds))"
  shows "\<exists>r. run fp tsc t cmds warmup clock = Some (Finished r) \<and> rr_trades r = of_nat (trades_in (drop warmup evs)) \<and>
    st_samples (rr_limit r) = of_kind LimitCmd (drop warmup cmds) \<and> st_samples (rr_cancel r) = of_kind CancelCmd (drop warmup cmds)"
proof -
  let ?spec = "spec_step wrap32" and ?sb = "spec_new (unat kRunnerCapacity)"
  let ?ws = "map cmd_command (take warmup cmds)" and ?ms = "map cmd_command (drop warmup cmds)"
  let ?sb1 = "snd (run_spec ?spec ?sb ?ws)"
  obtain n b r where warm: "apply_all (Book_new kRunnerCapacity) empty_result 0 (take warmup cmds) = Some (n, b, r)" "book_abs b ?sb1"
    using apply_all_refines [OF Book_new_abs, of kRunnerCapacity empty_result 0 "take warmup cmds"] by blast
  have evs: "drop warmup evs = fst (run_spec ?spec ?sb1 ?ms)"
  proof -
    have "map cmd_command cmds = ?ws @ ?ms"
      by (metis append_take_drop_id map_append)
    then have "evs = fst (run_spec ?spec ?sb ?ws) @ fst (run_spec ?spec ?sb1 ?ms)"
      unfolding evs_def by (simp only: run_spec_append) (simp split: prod.splits)
    moreover have "length (fst (run_spec ?spec ?sb ?ws)) = warmup"
      using assms(1) by (simp add: run_spec_length)
    ultimately show ?thesis
      by simp
  qed
  let ?n = "of_nat (trades_in (drop warmup evs)) :: 64 word"
  have batched: "run_batched tsc t cmds warmup = Some (?n, tsc (t + 1) - tsc t)"
    using warm(1) apply_all_refines [OF warm(2), of r 0 "drop warmup cmds"] unfolding evs by (auto simp: run_batched_def)
  obtain xs ys where timed: "run_timed tsc (t + 2) cmds warmup = Some (?n, xs, ys)"
      "length xs = of_kind LimitCmd (drop warmup cmds)" "length ys = of_kind CancelCmd (drop warmup cmds)"
    using warm(1) timed_all_refines [OF warm(2), of tsc "t + 2" r 0 "[]" "[]" "drop warmup cmds"] unfolding evs
    by (auto simp: run_timed_def)
  have "length xs < 2 ^ 48" "length ys < 2 ^ 48"
    using timed(2,3) assms(2) of_kind_le [of _ "drop warmup cmds"] by (metis diff_le_self le_less_trans length_drop)+
  then obtain ls ks where "stats_from fp clock xs = Some ls" "st_samples ls = length xs"
      "stats_from fp clock ys = Some ks" "st_samples ks = length ys"
    using stats_from_Some by metis
  then show ?thesis
    using assms(1) batched timed by (simp add: run_def Let_def)
qed

text \<open>C33. A run over any commands ends and never aborts: its two passes, one timed as a whole and one command by
  command, count the same trades, whatever the cycle counter shows. They are the trades the engine makes
  behind the warm-up, and each kind of command has one sample per measured command.\<close>

theorem run_passes_agree:
  assumes "warmup \<le> length cmds" "length cmds < 2 ^ 48"
  shows "\<exists>r evs e. run fp tsc t cmds warmup clock = Some (Finished r) \<and>
    run_steps engine_step (engine_new kRunnerCapacity) (map cmd_command cmds) = Some (evs, e) \<and>
    rr_trades r = of_nat (sum_list (map (length \<circ> snd) (drop warmup evs))) \<and>
    st_samples (rr_limit r) = kc_limit (count_kinds cmds warmup) \<and> st_samples (rr_cancel r) = kc_cancel (count_kinds cmds warmup)"
proof -
  have counts: "kc_limit (count_kinds cmds warmup) = of_kind LimitCmd (drop warmup cmds)"
      "kc_cancel (count_kinds cmds warmup) = of_kind CancelCmd (drop warmup cmds)"
    by (simp_all add: count_kinds_def count_loop_of_kind)
  show ?thesis
    using run_finishes [OF assms, of fp tsc t clock] engine_sim.run_refines [OF engine_new_abs, of kRunnerCapacity "map cmd_command cmds"]
    unfolding counts trades_in_def by fastforce
qed

definition sample_cmds :: "Cmd list" where
  "sample_cmds = [default_Cmd\<lparr>cmd_id := 1, cmd_price := Price 100, cmd_qty := 5, cmd_account := 1\<rparr>,
     default_Cmd\<lparr>cmd_side := Sell, cmd_id := 2, cmd_price := Price 100, cmd_qty := 3, cmd_account := 2\<rparr>,
     default_Cmd\<lparr>cmd_kind := CancelCmd, cmd_id := 1\<rparr>]"

theorem run_passes_agree_witness:
  "\<exists>r evs e. run exact_fp (\<lambda>k. of_nat (7 * k)) 0 sample_cmds 1 3 = Some (Finished r) \<and>
    run_steps engine_step (engine_new kRunnerCapacity) (map cmd_command sample_cmds) = Some (evs, e) \<and>
    rr_trades r = of_nat (sum_list (map (length \<circ> snd) (drop 1 evs))) \<and>
    st_samples (rr_limit r) = kc_limit (count_kinds sample_cmds 1) \<and> st_samples (rr_cancel r) = kc_cancel (count_kinds sample_cmds 1)"
  by (rule run_passes_agree) (simp_all add: sample_cmds_def)

end
