(* ===== verification/Bench_Reports.thy ===== *)
theory Bench_Reports
  imports Environment Runner_Properties
begin

text \<open>
  \<open>bench/noise.hpp\<close> and \<open>bench/overhead.hpp\<close>: the noise floor of an empty timed region, and what timing each
  command costs. \<open>std::min\<close> and \<open>std::max\<close> keep their first argument unless the other one is smaller or larger.
  An \<open>abort\<close> is \<open>None\<close> here.
\<close>

section \<open>Noise floor\<close>

definition kNoiseRuns :: nat where
  "kNoiseRuns = 10"

definition kNoiseOps :: nat where
  "kNoiseOps = 1000000"

definition kNoiseWarmup :: nat where
  "kNoiseWarmup = 100000"

definition kMaxP99SpreadNs :: "'d fp \<Rightarrow> 'd" where
  "kMaxP99SpreadNs fp = fp_of_i64 fp 10"

fun noop_ticks :: "(nat \<Rightarrow> 64 word) \<Rightarrow> nat \<Rightarrow> nat \<Rightarrow> 64 word list" where
  "noop_ticks tsc t 0 = []"
| "noop_ticks tsc t (Suc ops) = (tsc (t + 1) - tsc t) # noop_ticks tsc (t + 2) ops"

definition noop_run :: "'d fp \<Rightarrow> (nat \<Rightarrow> 64 word) \<Rightarrow> nat \<Rightarrow> nat \<Rightarrow> 'd \<Rightarrow> 'd LatencyStats option" where
  "noop_run fp tsc t ops clock = stats_from fp clock (noop_ticks tsc t ops)"

definition std_min :: "'d fp \<Rightarrow> 'd \<Rightarrow> 'd \<Rightarrow> 'd" where
  "std_min fp a b = (if fp_less fp b a then b else a)"

definition std_max :: "'d fp \<Rightarrow> 'd \<Rightarrow> 'd \<Rightarrow> 'd" where
  "std_max fp a b = (if fp_less fp a b then b else a)"

fun spread_loop :: "'d fp \<Rightarrow> 'd \<Rightarrow> 'd \<Rightarrow> 'd LatencyStats list \<Rightarrow> 'd \<times> 'd" where
  "spread_loop fp lo hi [] = (lo, hi)"
| "spread_loop fp lo hi (r # rs) = spread_loop fp (std_min fp lo (st_p99 r)) (std_max fp hi (st_p99 r)) rs"

definition p99_spread_ns :: "'d fp \<Rightarrow> 'd LatencyStats list \<Rightarrow> 'd option" where
  "p99_spread_ns fp runs =
     do {
       r \<leftarrow> nth_opt runs 0;
       let (lo, hi) = spread_loop fp (st_p99 r) (st_p99 r) runs;
       Some (fp_sub fp hi lo)
     }"

fun noise_rows :: "'d fp \<Rightarrow> nat \<Rightarrow> 'd LatencyStats list \<Rightarrow> string" where
  "noise_rows fp i [] = []"
| "noise_rows fp i (s # ss) =
     snprintf 160 (show_nat (i + 1) @ '','' @ fp_fixed fp 1 (st_p50 s) @ '','' @ fp_fixed fp 1 (st_p99 s) @ '','' @
       fp_fixed fp 1 (st_p999 s) @ '','' @ fp_fixed fp 1 (st_max s) @ newline) @ noise_rows fp (i + 1) ss"

definition noise_csv :: "'d fp \<Rightarrow> string \<Rightarrow> 'd LatencyStats list \<Rightarrow> nat \<Rightarrow> string option" where
  "noise_csv fp env_block runs ops =
     do {
       spread \<leftarrow> p99_spread_ns fp runs;
       Some (env_block @
         ''# methodology_version: '' @ show_nat kMethodologyVersion @ newline @
         ''# test: 26, noise floor, empty timed region'' @ newline @
         ''# ops_per_run: '' @ show_nat ops @ newline @
         ''# timing: per-op rdtscp+lfence'' @ newline @
         snprintf 160 (''# p99_spread_ns: '' @ fp_fixed fp 1 spread @ newline) @
         snprintf 160 (''# max_p99_spread_ns: '' @ fp_fixed fp 1 (kMaxP99SpreadNs fp) @ newline) @
         ''# verdict: '' @ (if fp_le fp spread (kMaxP99SpreadNs fp) then ''pass'' else ''fail'') @ newline @
         ''run,p50_ns,p99_ns,p999_ns,max_ns'' @ newline @
         noise_rows fp 0 runs)
     }"

section \<open>Overhead\<close>

definition kOverheadReps :: nat where
  "kOverheadReps = 5"

definition kOverheadLimitPercent :: "'d fp \<Rightarrow> 'd" where
  "kOverheadLimitPercent fp = fp_of_i64 fp 1"

record 'd OverheadRep =
  ov_batched_ns_per_op :: 'd
  ov_per_op_mean_ns :: 'd
  ov_empty_p50_ns :: 'd

definition share_percent :: "'d fp \<Rightarrow> 'd OverheadRep \<Rightarrow> 'd" where
  "share_percent fp r = fp_div fp (fp_mul fp (fp_of_i64 fp 100) (ov_empty_p50_ns r)) (ov_batched_ns_per_op r)"

text \<open>How many reads of the counter a run makes, so that the next one follows them.\<close>

definition run_reads :: "Cmd list \<Rightarrow> nat \<Rightarrow> nat" where
  "run_reads cmds warmup = 2 + 2 * (length cmds - warmup)"

definition measure_overhead :: "'d fp \<Rightarrow> (nat \<Rightarrow> 64 word) \<Rightarrow> nat \<Rightarrow> Cmd list \<Rightarrow> nat \<Rightarrow> 'd \<Rightarrow> 'd OverheadRep option" where
  "measure_overhead fp tsc t cmds warmup clock =
     do {
       outcome \<leftarrow> run fp tsc t cmds warmup clock;
       r \<leftarrow> (case outcome of Finished r \<Rightarrow> Some r | Disagree _ _ \<Rightarrow> None);
       empty \<leftarrow> noop_run fp tsc (t + run_reads cmds warmup) kNoiseOps clock;
       Some \<lparr>ov_batched_ns_per_op = fp_div fp (fp_of_i64 fp 1000000000) (rr_ops_per_sec r), ov_per_op_mean_ns = rr_per_op_mean_ns r,
         ov_empty_p50_ns = st_p50 empty\<rparr>
     }"

fun overhead_rows :: "'d fp \<Rightarrow> nat \<Rightarrow> 'd OverheadRep list \<Rightarrow> string" where
  "overhead_rows fp i [] = []"
| "overhead_rows fp i (r # rs) =
     snprintf 160 (show_nat (i + 1) @ '','' @ fp_fixed fp 1 (ov_batched_ns_per_op r) @ '','' @ fp_fixed fp 1 (ov_per_op_mean_ns r) @ '','' @
       fp_fixed fp 1 (ov_empty_p50_ns r) @ '','' @ fp_fixed fp 1 (share_percent fp r) @ newline) @ overhead_rows fp (i + 1) rs"

definition overhead_csv :: "'d fp \<Rightarrow> string \<Rightarrow> 'd RunConfig \<Rightarrow> 'd OverheadRep list \<Rightarrow> string" where
  "overhead_csv fp env_block cfg reps =
     (let over = foldl (\<lambda>over r. over \<or> fp_less fp (kOverheadLimitPercent fp) (share_percent fp r)) False reps
      in env_block @
         ''# methodology_version: '' @ show_nat kMethodologyVersion @ newline @
         ''# test: 27, measurement overhead'' @ newline @
         ''# workload: W1'' @ newline @
         ''# seed: '' @ show_unsigned (cfg_seed cfg) @ newline @
         ''# warmup_ops: '' @ show_unsigned (cfg_warmup cfg) @ newline @
         ''# measured_ops: '' @ show_unsigned (cfg_measured cfg) @ newline @
         snprintf 160 (''# limit_percent: '' @ fp_fixed fp 1 (kOverheadLimitPercent fp) @ newline) @
         ''# one_percent_rule: '' @ (if over then ''exceeded'' else ''within'') @ newline @
         ''rep,batched_ns_per_op,per_op_mean_ns,empty_p50_ns,empty_share_percent'' @ newline @
         overhead_rows fp 0 reps)"

section \<open>The spread is the range\<close>

text \<open>What the comparison of doubles other than NaN obeys.\<close>

definition fp_ordered :: "'d fp \<Rightarrow> 'd set \<Rightarrow> bool" where
  "fp_ordered fp D \<longleftrightarrow> (\<forall>a \<in> D. \<not> fp_less fp a a) \<and>
     (\<forall>a \<in> D. \<forall>b \<in> D. \<forall>c \<in> D. \<not> fp_less fp b a \<longrightarrow> \<not> fp_less fp c b \<longrightarrow> \<not> fp_less fp c a) \<and>
     (\<forall>a \<in> D. \<forall>b \<in> D. fp_less fp a b \<longrightarrow> \<not> fp_less fp b a)"

lemma spread_loop_range:
  assumes "fp_ordered fp D" "lo \<in> D" "hi \<in> D" "st_p99 ` set rs \<subseteq> D" "spread_loop fp lo hi rs = (lo', hi')"
  shows "lo' \<in> insert lo (st_p99 ` set rs) \<and> hi' \<in> insert hi (st_p99 ` set rs) \<and>
    (\<forall>x \<in> insert lo (st_p99 ` set rs). \<not> fp_less fp x lo') \<and> (\<forall>x \<in> insert hi (st_p99 ` set rs). \<not> fp_less fp hi' x)"
  using assms(2-5)
proof (induction rs arbitrary: lo hi)
  case Nil
  then show ?case
    using assms(1) by (auto simp: fp_ordered_def)
next
  case (Cons r rs)
  let ?x = "st_p99 r" and ?lo = "std_min fp lo (st_p99 r)" and ?hi = "std_max fp hi (st_p99 r)"
  have D: "?lo \<in> D" "?hi \<in> D" "?x \<in> D" "lo \<in> D" "hi \<in> D"
    using Cons.prems by (auto simp: std_min_def std_max_def)
  have irr: "\<not> fp_less fp a a" if "a \<in> D" for a
    using that assms(1) unfolding fp_ordered_def by blast
  have asym: "\<not> fp_less fp b a" if "fp_less fp a b" "a \<in> D" "b \<in> D" for a b
    using that assms(1) unfolding fp_ordered_def by blast
  have le: "\<not> fp_less fp lo ?lo" "\<not> fp_less fp ?x ?lo" "\<not> fp_less fp ?hi hi" "\<not> fp_less fp ?hi ?x"
    using D irr asym by (simp_all add: std_min_def std_max_def)
  have IH: "lo' \<in> insert ?lo (st_p99 ` set rs)" "hi' \<in> insert ?hi (st_p99 ` set rs)"
      "\<forall>x \<in> insert ?lo (st_p99 ` set rs). \<not> fp_less fp x lo'" "\<forall>x \<in> insert ?hi (st_p99 ` set rs). \<not> fp_less fp hi' x"
    using Cons.IH [OF D(1,2)] Cons.prems(3,4) by auto
  have D': "lo' \<in> D" "hi' \<in> D"
    using IH(1,2) D Cons.prems(3) by auto
  have trans: "\<not> fp_less fp c a" if "a \<in> D" "b \<in> D" "c \<in> D" "\<not> fp_less fp b a" "\<not> fp_less fp c b" for a b c
    using that assms(1) unfolding fp_ordered_def by blast
  have "\<not> fp_less fp lo lo'" "\<not> fp_less fp ?x lo'" "\<not> fp_less fp hi' hi" "\<not> fp_less fp hi' ?x"
    using trans [of lo' ?lo] trans [of _ ?hi hi'] le IH(3,4) D D' by auto
  then show ?case
    using IH by (auto simp: std_min_def std_max_def)
qed

text \<open>The spread of the noise test is the largest p99 of the runs minus the smallest, when none of them is NaN.\<close>

theorem noise_spread_is_range:
  assumes "fp_ordered fp (st_p99 ` set runs)" "runs \<noteq> []"
  shows "\<exists>lo \<in> set runs. \<exists>hi \<in> set runs. p99_spread_ns fp runs = Some (fp_sub fp (st_p99 hi) (st_p99 lo)) \<and>
    (\<forall>r \<in> set runs. \<not> fp_less fp (st_p99 r) (st_p99 lo) \<and> \<not> fp_less fp (st_p99 hi) (st_p99 r))"
proof -
  obtain lo hi where s: "spread_loop fp (st_p99 (runs ! 0)) (st_p99 (runs ! 0)) runs = (lo, hi)"
    by fastforce
  have r0: "runs ! 0 \<in> set runs"
    using assms(2) by simp
  have "lo \<in> st_p99 ` set runs" "hi \<in> st_p99 ` set runs"
      "\<forall>x \<in> st_p99 ` set runs. \<not> fp_less fp x lo" "\<forall>x \<in> st_p99 ` set runs. \<not> fp_less fp hi x"
    using spread_loop_range [OF assms(1) _ _ order_refl s] r0 by auto
  moreover have "p99_spread_ns fp runs = Some (fp_sub fp hi lo)"
    using assms(2) s by (simp add: p99_spread_ns_def)
  ultimately show ?thesis
    by auto
qed

definition sample_runs :: "real LatencyStats list" where
  "sample_runs = map (\<lambda>x. (default_LatencyStats exact_fp)\<lparr>st_p99 := x\<rparr>) [31, 29, 34]"

theorem noise_spread_is_range_witness:
  "\<exists>lo \<in> set sample_runs. \<exists>hi \<in> set sample_runs.
    p99_spread_ns exact_fp sample_runs = Some (fp_sub exact_fp (st_p99 hi) (st_p99 lo)) \<and>
    (\<forall>r \<in> set sample_runs. \<not> fp_less exact_fp (st_p99 r) (st_p99 lo) \<and> \<not> fp_less exact_fp (st_p99 hi) (st_p99 r))"
  by (rule noise_spread_is_range) (auto simp: sample_runs_def fp_ordered_def exact_fp_def)

end
