(* ===== verification/Alloc_Counter.thy ===== *)
theory Alloc_Counter
  imports Engine_Types
begin

text \<open>
  \<open>bench/alloc_counter.hpp\<close> and \<open>bench/alloc_counter.cpp\<close>: the counting replacements of the global
  \<open>operator new\<close>, in the build without \<open>_WIN32\<close>. The C library's \<open>malloc\<close> and \<open>aligned_alloc\<close> are arguments; a null pointer is
  \<open>None\<close>. The counters are read and written by one thread. The \<open>operator delete\<close>s hand their pointer to
  \<open>free\<close>, an argument that acts on the C library's heap, and have no access to the counters.
\<close>

section \<open>The code\<close>

record AllocSnapshot =
  al_calls :: "64 word"
  al_bytes :: "64 word"

definition no_allocs :: AllocSnapshot where
  "no_allocs = \<lparr>al_calls = 0, al_bytes = 0\<rparr>"

definition alloc_snapshot :: "AllocSnapshot \<Rightarrow> AllocSnapshot" where
  "alloc_snapshot st = \<lparr>al_calls = al_calls st, al_bytes = al_bytes st\<rparr>"

definition counted :: "64 word \<Rightarrow> AllocSnapshot \<Rightarrow> AllocSnapshot" where
  "counted n st = st\<lparr>al_calls := al_calls st + 1, al_bytes := al_bytes st + n\<rparr>"

definition counted_malloc :: "(64 word \<Rightarrow> 'p option) \<Rightarrow> 64 word \<Rightarrow> AllocSnapshot \<Rightarrow> 'p option \<times> AllocSnapshot" where
  "counted_malloc malloc n st = (malloc (if n = 0 then 1 else n), counted n st)"

definition aligned_request :: "64 word \<Rightarrow> 64 word \<Rightarrow> 64 word" where
  "aligned_request n align = (let n = (if n = 0 then 1 else n) in (n + align - 1) div align * align)"

definition counted_aligned ::
  "(64 word \<Rightarrow> 64 word \<Rightarrow> 'p option) \<Rightarrow> 64 word \<Rightarrow> 64 word \<Rightarrow> AllocSnapshot \<Rightarrow> 'p option \<times> AllocSnapshot" where
  "counted_aligned aligned_alloc n align st = (aligned_alloc align (aligned_request n align), counted n st)"

datatype 'p new_result = BadAlloc | Allocated 'p

definition or_throw :: "'p option \<Rightarrow> 'p new_result" where
  "or_throw p = (case p of None \<Rightarrow> BadAlloc | Some q \<Rightarrow> Allocated q)"

definition operator_new :: "(64 word \<Rightarrow> 'p option) \<Rightarrow> 64 word \<Rightarrow> AllocSnapshot \<Rightarrow> 'p new_result \<times> AllocSnapshot" where
  "operator_new malloc n st = map_prod or_throw id (counted_malloc malloc n st)"

definition operator_new_nothrow :: "(64 word \<Rightarrow> 'p option) \<Rightarrow> 64 word \<Rightarrow> AllocSnapshot \<Rightarrow> 'p option \<times> AllocSnapshot" where
  "operator_new_nothrow malloc n st = counted_malloc malloc n st"

definition operator_new_aligned ::
  "(64 word \<Rightarrow> 64 word \<Rightarrow> 'p option) \<Rightarrow> 64 word \<Rightarrow> 64 word \<Rightarrow> AllocSnapshot \<Rightarrow> 'p new_result \<times> AllocSnapshot" where
  "operator_new_aligned aligned_alloc n align st = map_prod or_throw id (counted_aligned aligned_alloc n align st)"

definition operator_new_aligned_nothrow ::
  "(64 word \<Rightarrow> 64 word \<Rightarrow> 'p option) \<Rightarrow> 64 word \<Rightarrow> 64 word \<Rightarrow> AllocSnapshot \<Rightarrow> 'p option \<times> AllocSnapshot" where
  "operator_new_aligned_nothrow aligned_alloc n align st = counted_aligned aligned_alloc n align st"

definition release :: "('p option \<Rightarrow> 'h \<Rightarrow> 'h) \<Rightarrow> 'p option \<Rightarrow> 'h \<Rightarrow> 'h" where
  "release free p = free p"

definition release_aligned :: "('p option \<Rightarrow> 'h \<Rightarrow> 'h) \<Rightarrow> 'p option \<Rightarrow> 'h \<Rightarrow> 'h" where
  "release_aligned free p = free p"

text \<open>The forms that take a size, an alignment or \<open>nothrow\<close> do not look at it; those for arrays have the same bodies.\<close>

definition operator_delete :: "('p option \<Rightarrow> 'h \<Rightarrow> 'h) \<Rightarrow> 'p option \<Rightarrow> 'h \<Rightarrow> 'h" where
  "operator_delete free p = release free p"

definition operator_delete_sized :: "('p option \<Rightarrow> 'h \<Rightarrow> 'h) \<Rightarrow> 'p option \<Rightarrow> 64 word \<Rightarrow> 'h \<Rightarrow> 'h" where
  "operator_delete_sized free p n = release free p"

definition operator_delete_nothrow :: "('p option \<Rightarrow> 'h \<Rightarrow> 'h) \<Rightarrow> 'p option \<Rightarrow> 'h \<Rightarrow> 'h" where
  "operator_delete_nothrow free p = release free p"

definition operator_delete_aligned :: "('p option \<Rightarrow> 'h \<Rightarrow> 'h) \<Rightarrow> 'p option \<Rightarrow> 64 word \<Rightarrow> 'h \<Rightarrow> 'h" where
  "operator_delete_aligned free p align = release_aligned free p"

definition operator_delete_sized_aligned ::
  "('p option \<Rightarrow> 'h \<Rightarrow> 'h) \<Rightarrow> 'p option \<Rightarrow> 64 word \<Rightarrow> 64 word \<Rightarrow> 'h \<Rightarrow> 'h" where
  "operator_delete_sized_aligned free p n align = release_aligned free p"

definition operator_delete_aligned_nothrow :: "('p option \<Rightarrow> 'h \<Rightarrow> 'h) \<Rightarrow> 'p option \<Rightarrow> 64 word \<Rightarrow> 'h \<Rightarrow> 'h" where
  "operator_delete_aligned_nothrow free p align = release_aligned free p"

section \<open>What is asked of the C library\<close>

lemma aligned_request_fits:
  assumes "0 < align" "unat n + unat align \<le> 2 ^ 64"
  shows "unat align dvd unat (aligned_request n align) \<and> n \<le> aligned_request n align \<and> 0 < aligned_request n align \<and>
    unat (aligned_request n align) < max 1 (unat n) + unat align"
proof -
  define m where "m = (if n = 0 then 1 else n)"
  have a: "0 < unat align"
    using assms(1) by (simp add: word_less_nat_alt)
  have m: "unat m = max 1 (unat n)" "unat m + (unat align - 1) < 2 ^ 64"
    using assms(2) a unat_bound64 [of align] by (auto simp: m_def unat_eq_0 max_def word_neq_0_conv word_less_nat_alt)
  have "unat (align - 1) = unat align - 1"
    using assms(1) by (simp add: unat_minus_le word_le_nat_alt Suc_le_eq a)
  then have sum: "unat (m + align - 1) = unat m + (unat align - 1)"
    using m(2) unat_add_lem [of m "align - 1"] by (simp add: add_diff_eq)
  let ?q = "(unat m + (unat align - 1)) div unat align"
  have le: "?q * unat align \<le> unat m + (unat align - 1)"
    by simp
  then have "?q * unat align < 2 ^ LENGTH(64)"
    using le_less_trans [OF le m(2)] by simp
  moreover have "unat ((m + align - 1) div align) = ?q"
    by (simp only: unat_div sum)
  ultimately have r: "unat (aligned_request n align) = ?q * unat align"
    using unat_mult_lem [of "(m + align - 1) div align" align] by (simp only: aligned_request_def m_def [symmetric] Let_def)
  have "unat m + (unat align - 1) < ?q * unat align + unat align"
    using a by (metis add.commute dividend_less_times_div mult.commute)
  then have ge: "unat m \<le> ?q * unat align"
    using a by linarith
  define k where "k = ?q * unat align"
  have "k \<le> unat m + (unat align - 1)" "unat m \<le> k" "unat align dvd k"
    using le ge by (simp_all add: k_def)
  then have "k < max 1 (unat n) + unat align" "max 1 (unat n) \<le> k" "unat align dvd k"
    using a by (simp_all add: m(1))
  then show ?thesis
    unfolding word_less_nat_alt word_le_nat_alt r k_def [symmetric] by simp
qed

lemma aligned_request_short:
  assumes "0 < align" "2 ^ 64 < unat n + unat align"
  shows "aligned_request n align < n"
proof -
  have n: "n \<noteq> 0"
    using assms(2) unat_bound64 [of align] by auto
  have a: "0 < unat align"
    using assms(1) by (simp add: word_less_nat_alt)
  let ?w = "n + align - 1"
  have "unat (align - 1) = unat align - 1"
    using assms(1) by (simp add: unat_minus_le word_le_nat_alt Suc_le_eq a)
  then have "unat ?w = (unat n + (unat align - 1)) mod 2 ^ 64"
    using unat_word_ariths(1) [of n "align - 1"] by (simp add: add_diff_eq)
  moreover have "unat n + (unat align - 1) < 2 * 2 ^ 64" "2 ^ 64 \<le> unat n + (unat align - 1)"
    using assms(2) unat_bound64 [of align] unat_bound64 [of n] by auto
  ultimately have w: "unat ?w = unat n + (unat align - 1) - 2 ^ 64"
    using mod_if [of "unat n + (unat align - 1)" "2 ^ 64"] by simp
  have le: "unat (?w div align) * unat align \<le> unat ?w"
    by (simp add: unat_div)
  then have "unat (?w div align) * unat align < 2 ^ LENGTH(64)"
    using unat_bound64 [of ?w] by simp
  then have "unat (?w div align * align) \<le> unat ?w"
    using unat_mult_lem [of "?w div align" align] le by simp
  also have "\<dots> < unat n"
    using w unat_bound64 [of align] unat_bound64 [of n] assms(2) by simp
  finally show ?thesis
    using n by (simp add: aligned_request_def word_less_nat_alt)
qed

text \<open>C39. For a positive alignment the size asked of \<open>aligned_alloc\<close> covers the request exactly when size and alignment
  together fit into 64 bits, and is then the smallest positive multiple of the alignment that does. Beyond
  that the sum wraps and \<open>operator new\<close> asks for less than it was asked for, instead of throwing.\<close>

theorem aligned_request_covers:
  assumes "0 < align"
  shows "(n \<le> aligned_request n align \<longleftrightarrow> unat n + unat align \<le> 2 ^ 64) \<and>
    (unat n + unat align \<le> 2 ^ 64 \<longrightarrow> unat align dvd unat (aligned_request n align) \<and> 0 < aligned_request n align \<and>
      unat (aligned_request n align) < max 1 (unat n) + unat align)"
  using aligned_request_fits [OF assms] aligned_request_short [OF assms] by (meson not_le)

theorem aligned_request_covers_witness:
  "unat (64 :: 64 word) dvd unat (aligned_request 100 64) \<and> 100 \<le> aligned_request 100 64 \<and>
    unat (aligned_request 100 64) < 100 + 64 \<and> aligned_request 0xFFFFFFFFFFFFFFFF 64 < 0xFFFFFFFFFFFFFFFF"
  using aligned_request_covers [of 64 100] aligned_request_covers [of 64 "0xFFFFFFFFFFFFFFFF"] by (simp add: not_le)

end
