(* ===== verification/Alloc_Profile.thy ===== *)
theory Alloc_Profile
  imports Alloc_Counter Runner_Properties
begin

text \<open>
  \<open>bench/alloc_profile.hpp\<close>: the allocations of a command stream by kind of command. Which calls of
  \<open>operator new\<close> a command makes depends on the containers of the C++ library, so it is an argument: \<open>cost i\<close> are the sizes
  the \<open>i\<close>-th command asks for. A program can end in a fault: a read behind the array of commands, a \<open>bad_alloc\<close>, or a
  function it calls that has no result.
\<close>

section \<open>The code\<close>

record AllocStats =
  as_commands :: nat
  as_allocs :: "64 word"
  as_bytes :: "64 word"
  as_max_per_command :: "64 word"

definition default_AllocStats :: AllocStats where
  "default_AllocStats = \<lparr>as_commands = 0, as_allocs = 0, as_bytes = 0, as_max_per_command = 0\<rparr>"

definition per_command :: "'d fp \<Rightarrow> AllocStats \<Rightarrow> 'd" where
  "per_command fp s = (if as_commands s = 0 then fp_of_i64 fp 0 else fp_div fp (fp_of_u64 fp (as_allocs s)) (fp_of_u64 fp (of_nat (as_commands s))))"

record AllocProfile =
  ap_limit_no_trade :: AllocStats
  ap_limit_trades :: AllocStats
  ap_cancel :: AllocStats
  ap_all :: AllocStats

definition default_AllocProfile :: AllocProfile where
  "default_AllocProfile = \<lparr>ap_limit_no_trade = default_AllocStats, ap_limit_trades = default_AllocStats,
     ap_cancel = default_AllocStats, ap_all = default_AllocStats\<rparr>"

datatype fault = OutOfRange nat | NoMemory | NoResult

definition cmd_at :: "Cmd list \<Rightarrow> nat \<Rightarrow> fault + Cmd" where
  "cmd_at cmds i = (if i < length cmds then Inr (cmds ! i) else Inl (OutOfRange i))"

fun news :: "(64 word \<Rightarrow> 'p option) \<Rightarrow> 64 word list \<Rightarrow> AllocSnapshot \<Rightarrow> fault + AllocSnapshot" where
  "news malloc [] st = Inr st"
| "news malloc (n # ns) st =
     (case operator_new malloc n st of (BadAlloc, _) \<Rightarrow> Inl NoMemory | (Allocated _, st) \<Rightarrow> news malloc ns st)"

text \<open>\<open>apply\<close> with the allocations it makes.\<close>

definition counted_apply ::
  "(64 word \<Rightarrow> 'p option) \<Rightarrow> 64 word list \<Rightarrow> Book \<Rightarrow> Cmd \<Rightarrow> AddResult \<Rightarrow> AllocSnapshot \<Rightarrow>
   fault + (nat \<times> Book \<times> AddResult \<times> AllocSnapshot)" where
  "counted_apply malloc sizes book c result st =
     (case bench_apply book c result of
        None \<Rightarrow> Inl NoResult
      | Some (made, book, result) \<Rightarrow>
          (case news malloc sizes st of Inl e \<Rightarrow> Inl e | Inr st \<Rightarrow> Inr (made, book, result, st)))"

text \<open>The body of the measured loop, for a command that made \<open>made\<close> trades.\<close>

definition note_command :: "AllocSnapshot \<Rightarrow> AllocSnapshot \<Rightarrow> Cmd \<Rightarrow> nat \<Rightarrow> AllocProfile \<Rightarrow> AllocProfile" where
  "note_command before after c made p =
     (let calls = al_calls after - al_calls before;
          noted = (\<lambda>s. s\<lparr>as_commands := as_commands s + 1, as_allocs := as_allocs s + calls,
                     as_bytes := as_bytes s + (al_bytes after - al_bytes before),
                     as_max_per_command := max (as_max_per_command s) calls\<rparr>);
          p = (if cmd_kind c = CancelCmd then p\<lparr>ap_cancel := noted (ap_cancel p)\<rparr>
               else if made = 0 then p\<lparr>ap_limit_no_trade := noted (ap_limit_no_trade p)\<rparr>
               else p\<lparr>ap_limit_trades := noted (ap_limit_trades p)\<rparr>)
      in p\<lparr>ap_all := (ap_all p)\<lparr>as_max_per_command := max (as_max_per_command (ap_all p)) calls\<rparr>\<rparr>)"

function warm_loop ::
  "(64 word \<Rightarrow> 'p option) \<Rightarrow> (nat \<Rightarrow> 64 word list) \<Rightarrow> Cmd list \<Rightarrow> nat \<Rightarrow> nat \<Rightarrow> Book \<Rightarrow> AddResult \<Rightarrow> AllocSnapshot \<Rightarrow>
   fault + (Book \<times> AddResult \<times> AllocSnapshot)" where
  "warm_loop malloc cost cmds warmup i book result st =
     (if i < warmup
      then case cmd_at cmds i of
          Inl e \<Rightarrow> Inl e
        | Inr c \<Rightarrow>
            (case counted_apply malloc (cost i) book c result st of
               Inl e \<Rightarrow> Inl e
             | Inr (_, book, result, st) \<Rightarrow> warm_loop malloc cost cmds warmup (i + 1) book result st)
      else Inr (book, result, st))"
  by pat_completeness auto
termination
  by (relation "measure (\<lambda>(malloc, cost, cmds, warmup, i, book, result, st). warmup - i)") auto

function profile_loop ::
  "(64 word \<Rightarrow> 'p option) \<Rightarrow> (nat \<Rightarrow> 64 word list) \<Rightarrow> Cmd list \<Rightarrow> nat \<Rightarrow> Book \<Rightarrow> AddResult \<Rightarrow> AllocSnapshot \<Rightarrow> AllocProfile \<Rightarrow>
   fault + (AllocProfile \<times> AllocSnapshot)" where
  "profile_loop malloc cost cmds i book result st p =
     (if i < length cmds
      then let before = alloc_snapshot st
           in case counted_apply malloc (cost i) book (cmds ! i) result st of
                Inl e \<Rightarrow> Inl e
              | Inr (made, book, result, st) \<Rightarrow>
                  let after = alloc_snapshot st
                  in profile_loop malloc cost cmds (i + 1) book result st (note_command before after (cmds ! i) made p)
      else Inr (p, st))"
  by pat_completeness auto
termination
  by (relation "measure (\<lambda>(malloc, cost, cmds, i, book, result, st, p). length cmds - i)") auto

declare warm_loop.simps [simp del] profile_loop.simps [simp del]

definition profile_allocs ::
  "(64 word \<Rightarrow> 'p option) \<Rightarrow> (nat \<Rightarrow> 64 word list) \<Rightarrow> AllocSnapshot \<Rightarrow> Cmd list \<Rightarrow> nat \<Rightarrow> fault + AllocProfile" where
  "profile_allocs malloc cost st cmds warmup =
     (case warm_loop malloc cost cmds warmup 0 (Book_new kRunnerCapacity) empty_result st of
        Inl e \<Rightarrow> Inl e
      | Inr (book, result, st) \<Rightarrow>
          let region_start = alloc_snapshot st
          in case profile_loop malloc cost cmds warmup book result st default_AllocProfile of
               Inl e \<Rightarrow> Inl e
             | Inr (p, st) \<Rightarrow>
                 let region_end = alloc_snapshot st
                 in Inr (p\<lparr>ap_all := (ap_all p)\<lparr>as_commands := length cmds - warmup,
                      as_allocs := al_calls region_end - al_calls region_start,
                      as_bytes := al_bytes region_end - al_bytes region_start\<rparr>\<rparr>))"

definition alloc_row :: "'d fp \<Rightarrow> string \<Rightarrow> AllocStats \<Rightarrow> string" where
  "alloc_row fp row_kind s = snprintf 160 (row_kind @ '','' @ show_nat (as_commands s) @ '','' @ show_unsigned (as_allocs s) @ '','' @
     fp_fixed fp 3 (per_command fp s) @ '','' @ show_unsigned (as_max_per_command s) @ '','' @ show_unsigned (as_bytes s) @ newline)"

definition allocs_csv :: "'d fp \<Rightarrow> string \<Rightarrow> 'd RunConfig \<Rightarrow> AllocProfile \<Rightarrow> string" where
  "allocs_csv fp env_block cfg p =
     env_block @
     ''# methodology_version: '' @ show_nat kMethodologyVersion @ newline @
     ''# label: '' @ cfg_label cfg @ newline @
     ''# workload: W1'' @ newline @
     ''# seed: '' @ show_unsigned (cfg_seed cfg) @ newline @
     ''# warmup_ops: '' @ show_unsigned (cfg_warmup cfg) @ newline @
     ''# measured_ops: '' @ show_unsigned (cfg_measured cfg) @ newline @
     ''# counted: calls to the global operator new'' @ newline @
     ''kind,commands,allocs,allocs_per_command,max_per_command,bytes'' @ newline @
     alloc_row fp ''limit_no_trade'' (ap_limit_no_trade p) @
     alloc_row fp ''limit_trades'' (ap_limit_trades p) @
     alloc_row fp ''cancel'' (ap_cancel p) @
     alloc_row fp ''all'' (ap_all p)"

section \<open>The kinds add up to the whole\<close>

lemma news_counts:
  assumes "\<And>n. malloc n \<noteq> None"
  shows "news malloc ns st = Inr \<lparr>al_calls = al_calls st + of_nat (length ns), al_bytes = al_bytes st + sum_list ns, \<dots> = AllocSnapshot.more st\<rparr>"
proof (induction ns arbitrary: st)
  case (Cons n ns)
  obtain q where "malloc (if n = 0 then 1 else n) = Some q"
    using assms [of "if n = 0 then 1 else n"] by blast
  then show ?case
    using Cons.IH [of "counted n st"] by (simp add: operator_new_def counted_malloc_def or_throw_def counted_def algebra_simps)
qed simp

text \<open>What the loop keeps: the sums of the three kinds are what the counters moved by since the region began.\<close>

definition kinds_sum :: "(AllocStats \<Rightarrow> 'a) \<Rightarrow> AllocProfile \<Rightarrow> 'a :: plus" where
  "kinds_sum f p = f (ap_limit_no_trade p) + f (ap_limit_trades p) + f (ap_cancel p)"

definition profile_inv :: "AllocSnapshot \<Rightarrow> AllocSnapshot \<Rightarrow> nat \<Rightarrow> nat \<Rightarrow> AllocProfile \<Rightarrow> bool" where
  "profile_inv start now limits cancels p \<longleftrightarrow>
     kinds_sum as_allocs p = al_calls now - al_calls start \<and> kinds_sum as_bytes p = al_bytes now - al_bytes start \<and>
     as_commands (ap_limit_no_trade p) + as_commands (ap_limit_trades p) = limits \<and> as_commands (ap_cancel p) = cancels \<and>
     as_max_per_command (ap_all p) = max (max (as_max_per_command (ap_limit_no_trade p)) (as_max_per_command (ap_limit_trades p)))
       (as_max_per_command (ap_cancel p))"

lemma sum_moves:
  fixes a b s x y z :: "64 word"
  assumes "x + y + z = b - s"
  shows "x + (a - b) + y + z = a - s" "x + (y + (a - b)) + z = a - s" "x + y + (z + (a - b)) = a - s"
proof -
  have "x + y + z + (a - b) = a - s"
    unfolding assms by simp
  then show "x + (a - b) + y + z = a - s" "x + (y + (a - b)) + z = a - s" "x + y + (z + (a - b)) = a - s"
    by (simp_all only: ac_simps)
qed

lemma note_command_inv:
  assumes "profile_inv start before limits cancels p"
  shows "profile_inv start after (limits + of_kind LimitCmd [c]) (cancels + of_kind CancelCmd [c]) (note_command before after c made p)"
proof -
  consider "cmd_kind c = CancelCmd" | "cmd_kind c = LimitCmd" "made = 0" | "cmd_kind c = LimitCmd" "made \<noteq> 0"
    using CmdKind.exhaust by blast
  then show ?thesis
    using assms by cases (simp_all add: profile_inv_def note_command_def kinds_sum_def Let_def sum_moves
        max.assoc max.commute max.left_commute)
qed

lemma counted_apply_ok:
  assumes "\<And>n. malloc n \<noteq> None" "book_abs b sb"
  shows "\<exists>made b1 r1 sb1 st1. counted_apply malloc sizes b c r st = Inr (made, b1, r1, st1) \<and> book_abs b1 sb1 \<and>
    al_calls st1 = al_calls st + of_nat (length sizes)"
proof -
  obtain made b1 r1 sb1 where step: "bench_apply b c r = Some (made, b1, r1)" "book_abs b1 sb1"
    using bench_apply_refines [OF assms(2)] by blast
  obtain st1 where "news malloc sizes st = Inr st1" "al_calls st1 = al_calls st + of_nat (length sizes)"
    using news_counts [OF assms(1)] by fastforce
  with step show ?thesis
    by (auto simp: counted_apply_def)
qed

lemma profile_loop_inv:
  assumes "\<And>n. malloc n \<noteq> None" "book_abs b sb" "profile_inv start st limits cancels p" "i \<le> length cmds"
  shows "\<exists>p' st'. profile_loop malloc cost cmds i b r st p = Inr (p', st') \<and>
    profile_inv start st' (limits + of_kind LimitCmd (drop i cmds)) (cancels + of_kind CancelCmd (drop i cmds)) p' \<and>
    al_calls st' = al_calls st + of_nat (sum_list (map (\<lambda>k. length (cost k)) [i..<length cmds]))"
  using assms(2-4)
proof (induction "length cmds - i" arbitrary: i b sb r st p limits cancels)
  case 0
  then show ?case
    by (simp add: profile_loop.simps)
next
  case (Suc d)
  let ?c = "cmds ! i"
  have i: "i < length cmds"
    using Suc.hyps(2) by simp
  obtain made b1 r1 sb1 st1 where step: "counted_apply malloc (cost i) b ?c r st = Inr (made, b1, r1, st1)" "book_abs b1 sb1"
      "al_calls st1 = al_calls st + of_nat (length (cost i))"
    using counted_apply_ok [of malloc, OF assms(1) Suc.prems(1), where sizes = "cost i" and c = "cmds ! i" and r = r and st = st] by blast
  let ?p = "note_command (alloc_snapshot st) (alloc_snapshot st1) ?c made p"
  have snap: "profile_inv start (alloc_snapshot s) l k q = profile_inv start s l k q" for s l k q
    by (simp add: profile_inv_def alloc_snapshot_def)
  have inv: "profile_inv start st1 (limits + of_kind LimitCmd [?c]) (cancels + of_kind CancelCmd [?c]) ?p"
    using note_command_inv [of start "alloc_snapshot st" limits cancels p "alloc_snapshot st1"] Suc.prems(2) by (simp add: snap)
  have "d = length cmds - Suc i" "Suc i \<le> length cmds"
    using Suc.hyps(2) i by simp_all
  from Suc.hyps(1) [OF this(1) step(2) inv this(2), of r1] obtain p' st' where
      "profile_loop malloc cost cmds (Suc i) b1 r1 st1 ?p = Inr (p', st')"
      "profile_inv start st' (limits + of_kind LimitCmd (drop i cmds)) (cancels + of_kind CancelCmd (drop i cmds)) p'"
      "al_calls st' = al_calls st1 + of_nat (sum_list (map (\<lambda>k. length (cost k)) [Suc i..<length cmds]))"
    using Cons_nth_drop_Suc [OF i, symmetric] by (auto simp: ac_simps split: if_splits)
  moreover have "[i..<length cmds] = i # [Suc i..<length cmds]"
    using i by (rule upt_conv_Cons)
  ultimately show ?case
    using step(1,3) i by (subst profile_loop.simps) (simp add: Let_def algebra_simps)
qed

text \<open>The warm-up ends within the stream, and leaves it when the stream is shorter than the warm-up.\<close>

lemma warm_loop_reads:
  assumes "\<And>n. malloc n \<noteq> None" "book_abs b sb" "i \<le> length cmds"
  shows "if warmup \<le> length cmds then \<exists>b' r' st' sb'. warm_loop malloc cost cmds warmup i b r st = Inr (b', r', st') \<and> book_abs b' sb'
    else warm_loop malloc cost cmds warmup i b r st = Inl (OutOfRange (length cmds))"
  using assms(2,3)
proof (induction "length cmds - i" arbitrary: i b sb r st)
  case 0
  then show ?case
    by (subst (1 2) warm_loop.simps) (auto simp: cmd_at_def)
next
  case (Suc d)
  have i: "i < length cmds"
    using Suc.hyps(2) by simp
  obtain made b1 r1 sb1 st1 where step: "counted_apply malloc (cost i) b (cmds ! i) r st = Inr (made, b1, r1, st1)" "book_abs b1 sb1"
    using counted_apply_ok [of malloc, OF assms(1) Suc.prems(1), where sizes = "cost i" and c = "cmds ! i" and r = r and st = st] by blast
  have "d = length cmds - Suc i" "Suc i \<le> length cmds"
    using Suc.hyps(2) i by simp_all
  from Suc.hyps(1) [OF this(1) step(2) this(2), of r1 st1] show ?case
    using step(1) i Suc.prems(1) by (subst (1 2) warm_loop.simps) (auto simp: cmd_at_def)
qed

text \<open>The profile of any command stream ends while the C library has memory and the stream covers the warm-up, and its
  three kinds add up to the region counted as a whole: allocations, bytes, commands and the largest number per
  command agree. The whole is the number of calls of \<open>operator new\<close> the commands made.\<close>

theorem alloc_profile_adds_up:
  assumes "\<And>n. malloc n \<noteq> None" "warmup \<le> length cmds"
  shows "\<exists>p. profile_allocs malloc cost st cmds warmup = Inr p \<and>
    as_allocs (ap_all p) = as_allocs (ap_limit_no_trade p) + as_allocs (ap_limit_trades p) + as_allocs (ap_cancel p) \<and>
    as_bytes (ap_all p) = as_bytes (ap_limit_no_trade p) + as_bytes (ap_limit_trades p) + as_bytes (ap_cancel p) \<and>
    as_commands (ap_limit_no_trade p) + as_commands (ap_limit_trades p) = kc_limit (count_kinds cmds warmup) \<and>
    as_commands (ap_cancel p) = kc_cancel (count_kinds cmds warmup) \<and>
    as_max_per_command (ap_all p) = max (max (as_max_per_command (ap_limit_no_trade p)) (as_max_per_command (ap_limit_trades p)))
      (as_max_per_command (ap_cancel p)) \<and>
    as_allocs (ap_all p) = of_nat (sum_list (map (\<lambda>k. length (cost k)) [warmup..<length cmds]))"
proof -
  obtain b r st1 sb where warm: "warm_loop malloc cost cmds warmup 0 (Book_new kRunnerCapacity) empty_result st = Inr (b, r, st1)"
      "book_abs b sb"
    using warm_loop_reads [of malloc, OF assms(1) Book_new_abs, of 0 cmds warmup cost kRunnerCapacity empty_result st] assms(2) by auto
  have "profile_inv (alloc_snapshot st1) st1 0 0 default_AllocProfile"
    by (simp add: profile_inv_def kinds_sum_def default_AllocProfile_def default_AllocStats_def alloc_snapshot_def)
  from profile_loop_inv [of malloc, OF assms(1) warm(2) this assms(2), where cost = cost and r = r] obtain p st2 where
    "profile_loop malloc cost cmds warmup b r st1 default_AllocProfile = Inr (p, st2)"
    "profile_inv (alloc_snapshot st1) st2 (of_kind LimitCmd (drop warmup cmds)) (of_kind CancelCmd (drop warmup cmds)) p"
    "al_calls st2 = al_calls st1 + of_nat (sum_list (map (\<lambda>k. length (cost k)) [warmup..<length cmds]))"
    by auto
  then show ?thesis
    using warm(1)
    by (auto simp: profile_allocs_def Let_def profile_inv_def kinds_sum_def alloc_snapshot_def count_kinds_def count_loop_of_kind)
qed

lemma profile_allocs_overruns:
  assumes "\<And>n. malloc n \<noteq> None" "length cmds < warmup"
  shows "profile_allocs malloc cost st cmds warmup = Inl (OutOfRange (length cmds))"
  using warm_loop_reads [of malloc, OF assms(1) Book_new_abs, of 0 cmds warmup cost kRunnerCapacity empty_result st] assms(2)
  by (simp add: profile_allocs_def)

theorem alloc_profile_adds_up_witness:
  "\<exists>p. profile_allocs (\<lambda>n. Some n) (\<lambda>i. replicate i 16) no_allocs sample_cmds 1 = Inr p \<and>
    as_allocs (ap_all p) = as_allocs (ap_limit_no_trade p) + as_allocs (ap_limit_trades p) + as_allocs (ap_cancel p) \<and>
    as_bytes (ap_all p) = as_bytes (ap_limit_no_trade p) + as_bytes (ap_limit_trades p) + as_bytes (ap_cancel p) \<and>
    as_commands (ap_limit_no_trade p) + as_commands (ap_limit_trades p) = kc_limit (count_kinds sample_cmds 1) \<and>
    as_commands (ap_cancel p) = kc_cancel (count_kinds sample_cmds 1) \<and>
    as_max_per_command (ap_all p) = max (max (as_max_per_command (ap_limit_no_trade p)) (as_max_per_command (ap_limit_trades p)))
      (as_max_per_command (ap_cancel p)) \<and>
    as_allocs (ap_all p) = of_nat (sum_list (map (\<lambda>k. length (replicate k (16 :: 64 word))) [1..<length sample_cmds]))"
  by (rule alloc_profile_adds_up) (simp_all add: sample_cmds_def)

end
