(* ===== verification/Environment_Properties.thy ===== *)
theory Environment_Properties
  imports Environment "HOL-Library.Sublist"
begin

text \<open>
  What a results file says can be read back from it with the harness's own \<open>field_after_colon\<close>, and the hash in
  it tells binaries apart.
\<close>

section \<open>Trimming\<close>

abbreviation blank :: "char \<Rightarrow> bool" where
  "blank c \<equiv> c \<in> set whitespace"

lemma find_first_not_of_eq:
  "find_first_not_of ws i s = (if \<forall>c \<in> set s. c \<in> set ws then None else Some (i + length (takeWhile (\<lambda>c. c \<in> set ws) s)))"
  by (induction s arbitrary: i) auto

lemma rev_dropWhile_rev: "rev (dropWhile P (rev t)) = take (length t - length (takeWhile P (rev t))) t"
  by (simp add: dropWhile_eq_drop rev_drop)

lemma trim_eq: "trim s = rev (dropWhile blank (rev (dropWhile blank s)))"
proof (cases "\<forall>c \<in> set s. blank c")
  case True
  then have d: "dropWhile blank s = []"
    by (subst dropWhile_eq_Nil_conv)
  show ?thesis
    unfolding d using True by (simp add: trim_def find_first_not_of_eq)
next
  case False
  let ?p = "takeWhile blank s" and ?t = "dropWhile blank s"
  let ?k = "length (takeWhile blank (rev ?t))"
  have s: "s = ?p @ ?t"
    by simp
  have "\<not> (\<forall>c \<in> set (rev ?t). blank c)"
    using False by (metis (no_types, lifting) dropWhile_eq_Nil_conv hd_dropWhile hd_in_set set_rev)
  then have "takeWhile blank (rev ?t @ rev ?p) = takeWhile blank (rev ?t)"
    by (metis (no_types, lifting) takeWhile_append1)
  then have k: "takeWhile blank (rev s) = takeWhile blank (rev ?t)"
    by (metis rev_append s)
  have "?k < length ?t"
    using \<open>\<not> (\<forall>c \<in> set (rev ?t). blank c)\<close> length_takeWhile_le [of blank "rev ?t"]
    by (metis length_rev nat_less_le set_takeWhileD takeWhile_eq_take take_all_iff)
  moreover have "length s = length ?p + length ?t"
    by (metis length_append s)
  ultimately have "length s - 1 - ?k - length ?p + 1 = length ?t - ?k"
    by linarith
  moreover have "find_first_not_of whitespace 0 s = Some (length ?p)"
    unfolding find_first_not_of_eq using False by simp
  moreover have "find_last_not_of whitespace s = Some (length s - 1 - ?k)"
    unfolding find_last_not_of_def find_first_not_of_eq k using False by simp
  ultimately have "trim s = take (length ?t - ?k) (drop (length ?p) s)"
    by (simp add: trim_def del: takeWhile_dropWhile_id)
  moreover have "drop (length ?p) s = ?t"
    by (metis append_eq_conv_conj s)
  moreover have "rev (dropWhile blank (rev ?t)) = take (length ?t - ?k) ?t"
    by (rule rev_dropWhile_rev)
  ultimately show ?thesis
    by simp
qed

lemma trim_space [simp]: "trim (CHR '' '' # s) = trim s"
  by (simp add: trim_eq whitespace_def)

lemma set_trim: "set (trim s) \<subseteq> set s"
  unfolding trim_eq by (metis set_dropWhileD set_rev subsetI)

section \<open>Lines\<close>

definition single_line :: "string \<Rightarrow> bool" where
  "single_line s \<longleftrightarrow> CHR 0x0A \<notin> set s"

lemma single_line_append [simp]: "single_line (s @ t) \<longleftrightarrow> single_line s \<and> single_line t"
  by (auto simp: single_line_def)

lemma getline_line: "single_line l \<Longrightarrow> getline (l @ newline @ ls) = Some (l, ls)"
  by (auto simp: getline_def newline_def single_line_def takeWhile_append dropWhile_append)

lemma getline_single: "getline s = Some (l, ls) \<Longrightarrow> single_line l"
  by (auto simp: getline_def single_line_def split: if_splits dest: set_takeWhileD)

lemma find_char_first: "x \<notin> set pre \<Longrightarrow> find_char x i (pre @ x # post) = Some (i + length pre)"
  by (induction pre arbitrary: i) auto

lemma single_line_trim: "single_line s \<Longrightarrow> single_line (trim s)"
  using set_trim by (auto simp: single_line_def)

lemma single_line_field: "single_line (field_after_colon input key)"
proof (induction input key rule: field_after_colon.induct)
  case (1 input key)
  show ?case
  proof (cases "getline input")
    case None
    then show ?thesis
      by (subst field_after_colon.simps) (simp add: single_line_def)
  next
    case (Some a)
    obtain l ls where a: "a = (l, ls)"
      by fastforce
    have "single_line (drop n l)" for n
      using getline_single [of input l ls] Some a by (auto simp: single_line_def dest: in_set_dropD)
    then show ?thesis
      using Some a 1 [OF Some a [symmetric]] by (subst field_after_colon.simps) (auto simp: single_line_trim split: option.splits)
  qed
qed

lemma field_skip:
  assumes "single_line l" "\<not> prefix key l"
  shows "field_after_colon (l @ newline @ ls) key = field_after_colon ls key"
proof -
  have "take (length key) l \<noteq> key"
    using assms(2) by (metis take_is_prefix)
  then show ?thesis
    by (subst field_after_colon.simps) (simp add: getline_line [OF assms(1)])
qed

lemma field_hit:
  assumes "single_line l" "l = pre @ CHR '':'' # v" "CHR '':'' \<notin> set pre" "prefix key l"
  shows "field_after_colon (l @ newline @ ls) key = trim v"
proof -
  have "take (length key) l = key"
    using assms(4) by (auto simp: prefix_def)
  moreover have "find_char CHR '':'' 0 l = Some (length pre)" "drop (length pre + 1) l = v"
    using find_char_first [OF assms(3), of 0 v] by (simp_all add: assms(2))
  ultimately show ?thesis
    by (subst field_after_colon.simps) (simp add: getline_line [OF assms(1)])
qed

text \<open>A block of lines as the harness writes them, and the value of a key whose name begins no other key.\<close>

definition header :: "(string \<times> string) list \<Rightarrow> string" where
  "header kvs = concat (map (\<lambda>(k, v). env_line k v) kvs)"

definition plain_key :: "string \<Rightarrow> bool" where
  "plain_key k \<longleftrightarrow> CHR '':'' \<notin> set k \<and> single_line k"

lemma prefix_key:
  assumes "plain_key k"
  shows "prefix (''# '' @ k) (''# '' @ k' @ '': '' @ v) \<longleftrightarrow> prefix k k'"
proof
  assume "prefix (''# '' @ k) (''# '' @ k' @ '': '' @ v)"
  then have "prefix k (k' @ '': '' @ v)"
    by simp
  then consider "prefix k k'" | us where "k = k' @ us" "prefix us ('': '' @ v)"
    unfolding prefix_append by blast
  then show "prefix k k'"
  proof cases
    case (2 us)
    then have "us = []"
      using assms by (cases us) (auto simp: plain_key_def)
    then show ?thesis
      using 2 by simp
  qed
qed (auto simp: prefix_def)

lemma header_lookup:
  assumes "(k, v) \<in> set kvs" "distinct (map fst kvs)" "\<And>k' v'. (k', v') \<in> set kvs \<Longrightarrow> plain_key k' \<and> single_line v'"
    "\<And>k'. k' \<in> set (map fst kvs) \<Longrightarrow> prefix k k' \<Longrightarrow> k' = k"
  shows "field_after_colon (header kvs @ rows) (''# '' @ k) = trim v"
  using assms
proof (induction kvs)
  case (Cons kv kvs)
  obtain k' v' where kv: "kv = (k', v')"
    by fastforce
  let ?l = "''# '' @ k' @ '': '' @ v'"
  have shape: "header (kv # kvs) @ rows = ?l @ newline @ header kvs @ rows"
    by (simp add: header_def env_line_def kv)
  have plain: "plain_key k'" "single_line v'" "plain_key k"
    using Cons.prems(1) Cons.prems(3) [of k' v'] Cons.prems(3) [of k v] kv by auto
  have l: "single_line ?l"
    using plain by (simp add: plain_key_def) (simp add: single_line_def)
  show ?case
  proof (cases "k' = k")
    case True
    then have v: "v' = v"
      using Cons.prems(1,2) kv by (auto simp: image_iff)
    have hit: "prefix (''# '' @ k) ?l"
      using prefix_key [OF plain(3)] True by simp
    have "?l = (''# '' @ k') @ CHR '':'' # CHR '' '' # v'" "CHR '':'' \<notin> set (''# '' @ k')"
      using plain(1) by (simp_all add: plain_key_def)
    from field_hit [OF l this hit] show ?thesis
      unfolding shape by (simp add: v)
  next
    case False
    then have "\<not> prefix (''# '' @ k) ?l"
      using prefix_key [OF plain(3)] Cons.prems(4) [of k'] kv by auto
    then have "field_after_colon (header (kv # kvs) @ rows) (''# '' @ k) = field_after_colon (header kvs @ rows) (''# '' @ k)"
      unfolding shape by (rule field_skip [OF l])
    also have "\<dots> = trim v"
      using Cons.prems False kv by (intro Cons.IH) auto
    finally show ?thesis .
  qed
qed simp

section \<open>The values\<close>

lemma set_show_nat: "set (show_nat n) \<subseteq> digit ` {..<10}"
proof (induction n rule: show_nat.induct)
  case (1 n)
  then show ?case
    by (subst show_nat.simps) auto
qed

lemma char_of_not_newline: "10 < n \<Longrightarrow> n < 256 \<Longrightarrow> char_of (n :: nat) \<noteq> CHR 0x0A"
proof
  assume n: "10 < n" "n < 256" and eq: "char_of n = CHR 0x0A"
  have "(of_char (char_of n) :: nat) = of_char CHR 0x0A"
    unfolding eq ..
  with n show False
    by simp
qed

lemma single_line_show [simp]: "single_line (show_nat n)" "single_line (show_unsigned w)"
proof -
  have "digit d \<noteq> CHR 0x0A" if "d < 10" for d
    using that char_of_not_newline [of "48 + d"] by (simp add: digit_def)
  then show *: "single_line (show_nat n)" for n
    using set_show_nat [of n] by (fastforce simp: single_line_def)
  show "single_line (show_unsigned w)"
    using * by (simp add: show_unsigned_def)
qed

lemma nibble_less: "unat (w AND 0xF :: 64 word) < 16"
proof -
  have "w AND 0xF \<le> 0xF"
    by (rule word_and_le1)
  then show ?thesis
    by (simp add: word_le_nat_alt)
qed

lemma single_line_hex64 [simp]: "single_line (hex64 v)"
proof -
  have "hex_digit d \<noteq> CHR 0x0A" if "d < 16" for d
    using that char_of_not_newline [of "48 + d"] char_of_not_newline [of "87 + d"] by (simp add: hex_digit_def)
  then have "CHR 0x0A \<noteq> hex_digit (unat (drop_bit k v AND 0xF))" for k
    using nibble_less [of "drop_bit k v"] by metis
  then show ?thesis
    unfolding single_line_def hex64_def by (simp add: image_iff)
qed

lemma single_line_environment [simp]:
  "single_line (from_file os path cpu_model_from_cpuinfo)" "single_line (from_file os path ram_from_meminfo)"
  "single_line (turbo_state os)" "single_line (binary_hash os)"
  using single_line_field single_line_show(2) single_line_hex64
  by (auto simp: from_file_def cpu_model_from_cpuinfo_def ram_from_meminfo_def turbo_state_def binary_hash_def Let_def
      kUnavailable_def single_line_def split: option.splits)

section \<open>A results file\<close>

text \<open>What the machine answers fits on one line each.\<close>

definition os_plain :: "Os \<Rightarrow> bool" where
  "os_plain os \<longleftrightarrow> single_line (governor os) \<and> single_line (kernel_version os) \<and> single_line (os_compiler os) \<and> single_line (os_flags os)"

definition tsc_text :: "'d fp \<Rightarrow> Os \<Rightarrow> 'd \<Rightarrow> string" where
  "tsc_text fp os clock = snprintf 64 ((if tsc_is_invariant (os_cpuid os) then ''invariant'' else ''not invariant'') @ '', '' @
     fp_fixed fp 4 clock @ '' GHz'')"

text \<open>The fields a results file promises.\<close>

definition environment_fields :: "'d fp \<Rightarrow> Os \<Rightarrow> 'd \<Rightarrow> (string \<times> string) list" where
  "environment_fields fp os clock =
     [(''cpu_model'', from_file os ''/proc/cpuinfo'' cpu_model_from_cpuinfo),
      (''pinned_cpu'', if pinned_cpu os \<ge> 0 then show_nat (nat (pinned_cpu os)) else ''not pinned''),
      (''governor'', governor os), (''turbo'', turbo_state os), (''ram'', from_file os ''/proc/meminfo'' ram_from_meminfo),
      (''kernel'', kernel_version os), (''compiler'', os_compiler os), (''flags'', trim (os_flags os)),
      (''tsc'', tsc_text fp os clock), (''binary_hash'', binary_hash os)]"

definition results_fields :: "'d fp \<Rightarrow> 'd RunConfig \<Rightarrow> 'd RunResult \<Rightarrow> (string \<times> string) list" where
  "results_fields fp cfg r =
     [(''methodology_version'', show_nat kMethodologyVersion), (''label'', cfg_label cfg), (''workload'', ''W1''),
      (''seed'', show_unsigned (cfg_seed cfg)), (''warmup_ops'', show_unsigned (cfg_warmup cfg)),
      (''measured_ops'', show_unsigned (cfg_measured cfg)),
      (''latency_timing'', ''per-op rdtscp+lfence, timer overhead not subtracted''),
      (''timer_overhead_p50_ns'', fp_fixed fp 1 (cfg_timer_overhead_ns cfg)),
      (''throughput_timing'', ''batched, one rdtscp pair around all measured ops''),
      (''trades'', show_unsigned (rr_trades r)), (''throughput_ops_per_sec'', fp_fixed fp 0 (rr_ops_per_sec r))]"

lemma environment_block_header: "environment_block fp os clock = header (environment_fields fp os clock)"
  by (simp add: environment_block_def environment_fields_def header_def tsc_text_def Let_def)

lemma snprintf_fits: "length s < n \<Longrightarrow> snprintf n s = s"
  by (simp add: snprintf_def)

lemma header_simps: "header [] = []" "header ((k, v) # kvs) = env_line k v @ header kvs" "header (kvs @ kvs') = header kvs @ header kvs'"
  by (simp_all add: header_def)

lemma results_csv_header:
  assumes "length (fp_fixed fp 1 (cfg_timer_overhead_ns cfg)) < 130" "length (fp_fixed fp 0 (rr_ops_per_sec r)) < 130"
  shows "\<exists>rows. results_csv fp env cfg r = env @ header (results_fields fp cfg r) @ rows"
proof -
  have "snprintf 160 (''# timer_overhead_p50_ns: '' @ fp_fixed fp 1 (cfg_timer_overhead_ns cfg) @ newline) =
      env_line ''timer_overhead_p50_ns'' (fp_fixed fp 1 (cfg_timer_overhead_ns cfg))"
    using assms(1) by (subst snprintf_fits) (simp_all add: env_line_def newline_def)
  moreover have "snprintf 160 (''# throughput_ops_per_sec: '' @ fp_fixed fp 0 (rr_ops_per_sec r) @ newline) =
      env_line ''throughput_ops_per_sec'' (fp_fixed fp 0 (rr_ops_per_sec r))"
    using assms(2) by (subst snprintf_fits) (simp_all add: env_line_def newline_def)
  ultimately show ?thesis
    by (simp only: results_csv_def results_fields_def header_simps) (simp add: env_line_def)
qed

definition all_fields :: "'d fp \<Rightarrow> Os \<Rightarrow> 'd \<Rightarrow> 'd RunConfig \<Rightarrow> 'd RunResult \<Rightarrow> (string \<times> string) list" where
  "all_fields fp os clock cfg r = environment_fields fp os clock @ results_fields fp cfg r"

definition field_keys :: "string list" where
  "field_keys = [''cpu_model'', ''pinned_cpu'', ''governor'', ''turbo'', ''ram'', ''kernel'', ''compiler'', ''flags'', ''tsc'',
     ''binary_hash'', ''methodology_version'', ''label'', ''workload'', ''seed'', ''warmup_ops'', ''measured_ops'',
     ''latency_timing'', ''timer_overhead_p50_ns'', ''throughput_timing'', ''trades'', ''throughput_ops_per_sec'']"

lemma field_keys_plain:
  "map fst (all_fields fp os clock cfg r) = field_keys" "distinct field_keys" "list_all plain_key field_keys"
  "list_all (\<lambda>k. list_all (\<lambda>k'. prefix k k' \<longrightarrow> k' = k) field_keys) field_keys"
  by (simp add: all_fields_def environment_fields_def results_fields_def field_keys_def, code_simp+)

lemma single_line_snprintf: "single_line s \<Longrightarrow> single_line (snprintf n s)"
  by (auto simp: single_line_def snprintf_def dest: in_set_takeD)

lemma fields_single_line:
  assumes "os_plain os" "single_line (cfg_label cfg)" "single_line (fp_fixed fp 4 clock)"
    "single_line (fp_fixed fp 1 (cfg_timer_overhead_ns cfg))" "single_line (fp_fixed fp 0 (rr_ops_per_sec r))"
  shows "\<forall>v \<in> set (map snd (all_fields fp os clock cfg r)). single_line v"
proof -
  have const: "single_line ''not pinned''" "single_line ''W1''" "single_line '', ''" "single_line '' GHz''"
      "single_line ''invariant''" "single_line ''not invariant''"
      "single_line ''per-op rdtscp+lfence, timer overhead not subtracted''"
      "single_line ''batched, one rdtscp pair around all measured ops''"
    by (simp_all add: single_line_def)
  have "single_line (tsc_text fp os clock)"
    unfolding tsc_text_def by (intro single_line_snprintf) (simp only: single_line_append const assms(3) if_split simp_thms)
  then show ?thesis
    using assms const
    by (simp only: all_fields_def environment_fields_def results_fields_def append.simps list.map list.set ball_simps snd_conv
        os_plain_def single_line_trim single_line_show single_line_environment if_split simp_thms)
qed

text \<open>C37. Every field of a results file, those of the environment and those of the run, can be read back with the
  harness's own \<open>field_after_colon\<close>, when what the machine reports fits on one line.\<close>

theorem results_read_back:
  assumes "os_plain os" "single_line (cfg_label cfg)" "single_line (fp_fixed fp 4 clock)"
    "single_line (fp_fixed fp 1 (cfg_timer_overhead_ns cfg))" "single_line (fp_fixed fp 0 (rr_ops_per_sec r))"
    "length (fp_fixed fp 1 (cfg_timer_overhead_ns cfg)) < 130" "length (fp_fixed fp 0 (rr_ops_per_sec r)) < 130"
    "(k, v) \<in> set (environment_fields fp os clock @ results_fields fp cfg r)"
  shows "field_after_colon (results_csv fp (environment_block fp os clock) cfg r) (''# '' @ k) = trim v"
proof -
  let ?kvs = "all_fields fp os clock cfg r"
  obtain rows where csv: "results_csv fp (environment_block fp os clock) cfg r = header ?kvs @ rows"
    using results_csv_header [OF assms(6,7), of "environment_block fp os clock"]
    unfolding environment_block_header all_fields_def header_simps(3) append_assoc by blast
  have kv: "(k, v) \<in> set ?kvs"
    using assms(8) by (simp only: all_fields_def)
  note keys = field_keys_plain(1) [of fp os clock cfg r] field_keys_plain(2-4)
  have keys_in: "k' \<in> set field_keys" if "(k', v') \<in> set ?kvs" for k' v'
    using that unfolding keys(1) [symmetric] set_map by (metis fst_conv imageI)
  show ?thesis
    unfolding csv
  proof (rule header_lookup [OF kv])
    show "distinct (map fst ?kvs)"
      unfolding keys(1) by (rule keys(2))
    show "plain_key k' \<and> single_line v'" if "(k', v') \<in> set ?kvs" for k' v'
      using keys(3) keys_in [OF that] fields_single_line [OF assms(1-5)] that unfolding list_all_iff set_map
      by (metis imageI snd_conv)
    show "k' = k" if "k' \<in> set (map fst ?kvs)" "prefix k k'" for k'
      using keys(4) keys_in [OF kv] that unfolding keys(1) list_all_iff by blast
  qed
qed

definition sample_os :: Os where
  "sample_os = \<lparr>os_file = (\<lambda>path. if path = ''/proc/cpuinfo'' then Some (''processor : 0'' @ newline @ ''model name : Model 7'' @ newline)
       else if path = ''/proc/self/exe'' then Some ''ELF'' else None),
     os_getcpu = 2, os_affinity = Some [False, False, True], os_setaffinity = (\<lambda>_. True), os_uname = Some (''Linux'', ''6.1''),
     os_cpuid = (\<lambda>_. Some (0, 0, 0, 0x100)), os_compiler = ''gcc 13'', os_flags = ''-O2 ''\<rparr>"

definition sample_result :: "real RunResult" where
  "sample_result = \<lparr>rr_limit = default_LatencyStats exact_fp, rr_cancel = default_LatencyStats exact_fp, rr_ops_per_sec = 1,
     rr_per_op_mean_ns = 1, rr_trades = 5\<rparr>"

theorem results_read_back_witness:
  "field_after_colon (results_csv exact_fp (environment_block exact_fp sample_os 3)
     ((default_RunConfig exact_fp)\<lparr>cfg_label := ''v1 ''\<rparr>) sample_result) (''# '' @ ''label'') = trim ''v1 ''"
proof (rule results_read_back)
  show "os_plain sample_os"
    by code_simp
qed (simp_all add: exact_fp_def single_line_def results_fields_def)

section \<open>The binary hash\<close>

text \<open>A step of the hash can be undone: the prime is odd, so it has an inverse.\<close>

lemma fnv_prime_inverse: "(0x100000001b3 :: 64 word) * 0xce965057aff6957b = 1"
  by simp

lemma fnv_mul_inj:
  fixes a b :: "64 word"
  assumes "a * 0x100000001b3 = b * 0x100000001b3"
  shows "a = b"
proof -
  have "a * (0x100000001b3 * 0xce965057aff6957b) = b * (0x100000001b3 * 0xce965057aff6957b)"
    unfolding mult.assoc [symmetric] assms ..
  then show ?thesis
    unfolding fnv_prime_inverse by (simp only: mult_1_right)
qed

lemma xor_cancel_left:
  assumes "(a :: 64 word) XOR b = a XOR c"
  shows "b = c"
proof -
  have "(a XOR a) XOR b = (a XOR a) XOR c"
    unfolding xor.assoc assms ..
  then show ?thesis
    by simp
qed

lemma fnv1a_inj: "fnv1a s h = fnv1a s h' \<Longrightarrow> h = h'"
proof (induction s arbitrary: h h')
  case (Cons c s)
  then have "(h XOR of_char c) * 0x100000001b3 = (h' XOR of_char c) * 0x100000001b3"
    by simp
  from fnv_mul_inj [OF this] show ?case
    using xor_cancel_left [of "of_char c" h h'] by (simp add: xor.commute)
qed simp

lemma of_char_inj64: "(of_char a :: 64 word) = of_char b \<Longrightarrow> a = b"
proof -
  assume eq: "(of_char a :: 64 word) = of_char b"
  have code: "unat (of_char c :: 64 word) = of_char c" for c
  proof -
    have "(of_char c :: 64 word) = of_nat (of_char c)"
      by (simp add: of_nat_of_char)
    moreover have "(of_char c :: nat) < 2 ^ LENGTH(64)"
      using nat_of_char_less_256 [of c] by (rule less_trans) simp
    ultimately show ?thesis
      by (simp only: unat_of_nat_small)
  qed
  have "(of_char a :: nat) = of_char b"
    unfolding code [symmetric] eq ..
  then show ?thesis
    by simp
qed

lemma fnv1a_append: "fnv1a (s @ t) h = fnv1a t (fnv1a s h)"
  by (induction s arbitrary: h) simp_all

lemma fnv1a_byte_changed:
  assumes "a \<noteq> b"
  shows "fnv1a (s @ a # t) h \<noteq> fnv1a (s @ b # t) h"
proof
  assume "fnv1a (s @ a # t) h = fnv1a (s @ b # t) h"
  then have "(fnv1a s h XOR of_char a) * 0x100000001b3 = (fnv1a s h XOR of_char b) * 0x100000001b3"
    unfolding fnv1a_append using fnv1a_inj by simp
  then show False
    using assms fnv_mul_inj xor_cancel_left of_char_inj64 by metis
qed

lemma hex_digit_inj: "a < 16 \<Longrightarrow> b < 16 \<Longrightarrow> hex_digit a = hex_digit b \<Longrightarrow> a = b"
proof -
  assume ab: "a < 16" "b < 16" and eq: "hex_digit a = hex_digit b"
  have code: "(of_char (hex_digit d) :: nat) = (if d < 10 then 48 + d else 87 + d)" if "d < 16" for d
    using that by (simp add: hex_digit_def)
  have "(if a < 10 then 48 + a else 87 + a) = (if b < 10 then 48 + b else 87 + b)"
    unfolding code [OF ab(1), symmetric] code [OF ab(2), symmetric] eq ..
  then show ?thesis
    by (simp split: if_splits)
qed

lemma hex64_nth:
  assumes "i < 16"
  shows "hex64 v ! i = hex_digit (unat (drop_bit (4 * (15 - i)) v AND 0xF))"
proof -
  have "i < length [0..<16]" "[0..<16] ! i = i"
    using assms nth_upt [of 0 i 16] by (simp_all only: length_upt add_0 diff_zero)
  then show ?thesis
    unfolding hex64_def by (simp only: nth_map)
qed

lemma hex64_inj:
  assumes "hex64 v = hex64 w"
  shows "v = w"
proof (rule bit_word_eqI)
  fix n
  assume "n < LENGTH(64)"
  then have n: "n div 4 < 16" "n = 4 * (n div 4) + n mod 4"
    by simp_all
  let ?i = "15 - n div 4"
  have "hex64 v ! ?i = hex64 w ! ?i"
    using assms by simp
  then have "hex_digit (unat (drop_bit (4 * (n div 4)) v AND 0xF)) = hex_digit (unat (drop_bit (4 * (n div 4)) w AND 0xF))"
    using n(1) by (simp add: hex64_nth)
  then have "unat (drop_bit (4 * (n div 4)) v AND 0xF) = unat (drop_bit (4 * (n div 4)) w AND 0xF)"
    by (rule hex_digit_inj [OF nibble_less nibble_less])
  then have "drop_bit (4 * (n div 4)) v AND 0xF = drop_bit (4 * (n div 4)) w AND 0xF"
    by (simp only: unat_eq_iff)
  then have "bit (drop_bit (4 * (n div 4)) v AND mask 4) (n mod 4) = bit (drop_bit (4 * (n div 4)) w AND mask 4) (n mod 4)"
    by (simp add: mask_numeral)
  then show "bit v n = bit w n"
    using n(2) less_trans [OF mod_less_divisor [of 4 n], of 64] by (simp add: bit_simps)
qed

text \<open>Two executables that differ in a single byte have different hashes in their results files.\<close>

theorem binary_hash_distinguishes:
  assumes "os_file os ''/proc/self/exe'' = Some (s @ a # t)" "os_file os' ''/proc/self/exe'' = Some (s @ b # t)" "a \<noteq> b"
  shows "binary_hash os \<noteq> binary_hash os'"
  unfolding binary_hash_def read_file_def assms(1,2) option.case using fnv1a_byte_changed [OF assms(3)] hex64_inj by blast

theorem binary_hash_distinguishes_witness:
  "binary_hash sample_os \<noteq> binary_hash (sample_os\<lparr>os_file := (\<lambda>_. Some ''EMF'')\<rparr>)"
  by (rule binary_hash_distinguishes [of _ "''E''" "CHR ''L''" "''F''" _ "CHR ''M''"]) (simp_all add: sample_os_def)

end
