(* ===== verification/Bench_Main.thy ===== *)
theory Bench_Main
  imports Bench_Reports Alloc_Profile Environment_Properties
begin

text \<open>
  The four benchmark programs: \<open>bench/bench_w1.cpp\<close>, \<open>bench_noise.cpp\<close>, \<open>bench_overhead.cpp\<close> and \<open>bench_allocs.cpp\<close>.
  A program is a function of its arguments (with its own name first) and of what the machine answers: the operating system
  before and after pinning, the readings of the calibration and the reads of the cycle counter. Its result is
  how it ended and what it wrote to the two streams.
\<close>

section \<open>The code\<close>

datatype Ending = Exit int | Aborted

record Process =
  pr_end :: Ending
  pr_out :: string
  pr_err :: string

text \<open>\<open>std::atoi\<close>, which has no defined result for a number outside of \<open>int\<close>.\<close>

definition atoi :: "string \<Rightarrow> int option" where
  "atoi s =
     (let s = dropWhile is_space s;
          neg = (s \<noteq> [] \<and> hd s = CHR ''-'');
          s = (if s \<noteq> [] \<and> (hd s = CHR ''-'' \<or> hd s = CHR ''+'') then tl s else s);
          n = int (digits_value (takeWhile is_digit s));
          n = (if neg then - n else n)
      in if - (2 ^ 31) \<le> n \<and> n < 2 ^ 31 then Some n else None)"

fun has_substring :: "string \<Rightarrow> string \<Rightarrow> bool" where
  "has_substring t [] = (t = [])"
| "has_substring t (c # cs) = (take (length t) (c # cs) = t \<or> has_substring t cs)"

definition sanitizer_warning :: "Os \<Rightarrow> string \<Rightarrow> string" where
  "sanitizer_warning os message = (if has_substring ''-fsanitize'' (os_flags os) then message @ newline else [])"

definition pin_failure :: "int \<Rightarrow> string" where
  "pin_failure cpu = ''could not pin to cpu '' @ show_nat (nat cpu) @ newline"

text \<open>\<open>fputs\<close> of a string's \<open>c_str\<close> stops at a zero byte.\<close>

definition c_str :: "string \<Rightarrow> string" where
  "c_str s = takeWhile (\<lambda>c. c \<noteq> CHR 0x00) s"

text \<open>An optional argument that is a number.\<close>

definition number_arg :: "string list \<Rightarrow> nat \<Rightarrow> 64 word \<Rightarrow> 64 word" where
  "number_arg argv i v = (if length argv > i then strtoull (argv ! i) else v)"

definition cpu_arg :: "string list \<Rightarrow> nat \<Rightarrow> int option" where
  "cpu_arg argv i = (if length argv > i then atoi (argv ! i) else Some (- 1))"

definition too_few_samples :: "'d RunConfig \<Rightarrow> KindCounts \<Rightarrow> string" where
  "too_few_samples cfg n =
     show_unsigned (cfg_measured cfg) @ '' measured ops leave '' @ show_nat (kc_limit n) @ '' limit and '' @ show_nat (kc_cancel n) @
     '' cancel samples; the p99.9 bucket needs at least '' @ show_nat kMinTailSamples @ '' in each ('' @
     show_nat (kMinTailSamples * 1000) @ '' samples per kind)'' @ newline"

definition passes_disagree :: "64 word \<Rightarrow> 64 word \<Rightarrow> string" where
  "passes_disagree a b = ''the two passes disagree on trades ('' @ show_unsigned a @ '' vs '' @ show_unsigned b @
     ''): the engine is not deterministic'' @ newline"

definition total_ops :: "'d RunConfig \<Rightarrow> nat" where
  "total_ops cfg = unat (cfg_warmup cfg + cfg_measured cfg)"

definition bench_w1 ::
  "'d fp \<Rightarrow> Os \<Rightarrow> Os \<Rightarrow> (nat \<Rightarrow> Reading) \<Rightarrow> (nat \<Rightarrow> 64 word) \<Rightarrow> string list \<Rightarrow> Process option" where
  "bench_w1 fp os os' rd tsc argv =
     (if length argv < 2
      then Some \<lparr>pr_end = Exit 2, pr_out = [], pr_err = ''usage: bench_w1 <label> [seed] [measured_ops] [cpu]'' @ newline\<rparr>
      else do {
        let d = default_RunConfig fp;
        let cfg = d\<lparr>cfg_label := argv ! 1, cfg_seed := number_arg argv 2 (cfg_seed d), cfg_measured := number_arg argv 3 (cfg_measured d)\<rparr>;
        cpu \<leftarrow> cpu_arg argv 4;
        let err = sanitizer_warning os ''warning: sanitizers are on, these numbers are not publishable'';
        if cpu \<ge> 0 \<and> \<not> pin_to_cpu os cpu then Some \<lparr>pr_end = Exit 1, pr_out = [], pr_err = err @ pin_failure cpu\<rparr>
        else do {
          clock \<leftarrow> TscClock fp rd;
          _ \<leftarrow> noop_run fp tsc 0 kNoiseWarmup clock;
          empty \<leftarrow> noop_run fp tsc (2 * kNoiseWarmup) kNoiseOps clock;
          let cfg = cfg\<lparr>cfg_timer_overhead_ns := st_p50 empty\<rparr>;
          cmds \<leftarrow> generate default_W1Params (cfg_seed cfg) (total_ops cfg);
          let n = count_kinds cmds (unat (cfg_warmup cfg));
          if \<not> p999_has_enough_samples (kc_limit n) \<or> \<not> p999_has_enough_samples (kc_cancel n)
          then Some \<lparr>pr_end = Exit 1, pr_out = [], pr_err = err @ too_few_samples cfg n\<rparr>
          else do {
            outcome \<leftarrow> run fp tsc (2 * kNoiseWarmup + 2 * kNoiseOps) cmds (unat (cfg_warmup cfg)) clock;
            case outcome of
              Disagree a b \<Rightarrow> Some \<lparr>pr_end = Aborted, pr_out = [], pr_err = err @ passes_disagree a b\<rparr>
            | Finished r \<Rightarrow> Some \<lparr>pr_end = Exit 0, pr_out = c_str (results_csv fp (environment_block fp os' clock) cfg r), pr_err = err\<rparr>
          }
        }
      })"

fun noise_runs :: "'d fp \<Rightarrow> (nat \<Rightarrow> 64 word) \<Rightarrow> nat \<Rightarrow> nat \<Rightarrow> 'd \<Rightarrow> 'd LatencyStats list option" where
  "noise_runs fp tsc t 0 clock = Some []"
| "noise_runs fp tsc t (Suc n) clock =
     do {
       s \<leftarrow> noop_run fp tsc t kNoiseOps clock;
       ss \<leftarrow> noise_runs fp tsc (t + 2 * kNoiseOps) n clock;
       Some (s # ss)
     }"

definition bench_noise ::
  "'d fp \<Rightarrow> Os \<Rightarrow> Os \<Rightarrow> (nat \<Rightarrow> Reading) \<Rightarrow> (nat \<Rightarrow> 64 word) \<Rightarrow> string list \<Rightarrow> Process option" where
  "bench_noise fp os os' rd tsc argv =
     do {
       cpu \<leftarrow> cpu_arg argv 1;
       let err = sanitizer_warning os ''warning: sanitizers are on, this says nothing about the benchmark build'';
       if cpu \<ge> 0 \<and> \<not> pin_to_cpu os cpu then Some \<lparr>pr_end = Exit 1, pr_out = [], pr_err = err @ pin_failure cpu\<rparr>
       else do {
         clock \<leftarrow> TscClock fp rd;
         _ \<leftarrow> noop_run fp tsc 0 kNoiseWarmup clock;
         runs \<leftarrow> noise_runs fp tsc (2 * kNoiseWarmup) kNoiseRuns clock;
         csv \<leftarrow> noise_csv fp (environment_block fp os' clock) runs kNoiseOps;
         spread \<leftarrow> p99_spread_ns fp runs;
         if fp_less fp (kMaxP99SpreadNs fp) spread
         then Some \<lparr>pr_end = Exit 1, pr_out = c_str csv, pr_err = err @ ''p99 moved by '' @ fp_fixed fp 1 spread @
                '' ns across runs, limit is '' @ fp_fixed fp 1 (kMaxP99SpreadNs fp) @ '' ns'' @ newline\<rparr>
         else Some \<lparr>pr_end = Exit 0, pr_out = c_str csv, pr_err = err\<rparr>
       }
     }"

fun overhead_reps :: "'d fp \<Rightarrow> (nat \<Rightarrow> 64 word) \<Rightarrow> nat \<Rightarrow> nat \<Rightarrow> Cmd list \<Rightarrow> nat \<Rightarrow> 'd \<Rightarrow> 'd OverheadRep list option" where
  "overhead_reps fp tsc t 0 cmds warmup clock = Some []"
| "overhead_reps fp tsc t (Suc n) cmds warmup clock =
     do {
       r \<leftarrow> measure_overhead fp tsc t cmds warmup clock;
       rs \<leftarrow> overhead_reps fp tsc (t + run_reads cmds warmup + 2 * kNoiseOps) n cmds warmup clock;
       Some (r # rs)
     }"

definition bench_overhead ::
  "'d fp \<Rightarrow> Os \<Rightarrow> Os \<Rightarrow> (nat \<Rightarrow> Reading) \<Rightarrow> (nat \<Rightarrow> 64 word) \<Rightarrow> string list \<Rightarrow> Process option" where
  "bench_overhead fp os os' rd tsc argv =
     do {
       let d = default_RunConfig fp;
       let cfg = d\<lparr>cfg_seed := number_arg argv 1 (cfg_seed d), cfg_measured := number_arg argv 2 (cfg_measured d)\<rparr>;
       cpu \<leftarrow> cpu_arg argv 3;
       let err = sanitizer_warning os ''warning: sanitizers are on, these numbers say nothing about the benchmark build'';
       if cpu \<ge> 0 \<and> \<not> pin_to_cpu os cpu then Some \<lparr>pr_end = Exit 1, pr_out = [], pr_err = err @ pin_failure cpu\<rparr>
       else do {
         clock \<leftarrow> TscClock fp rd;
         _ \<leftarrow> noop_run fp tsc 0 kNoiseWarmup clock;
         cmds \<leftarrow> generate default_W1Params (cfg_seed cfg) (total_ops cfg);
         reps \<leftarrow> overhead_reps fp tsc (2 * kNoiseWarmup) kOverheadReps cmds (unat (cfg_warmup cfg)) clock;
         Some \<lparr>pr_end = Exit 0, pr_out = c_str (overhead_csv fp (environment_block fp os' clock) cfg reps), pr_err = err\<rparr>
       }
     }"

text \<open>\<open>bench_allocs\<close> tells how it fails: the fault of the profile, or \<open>NoResult\<close> of the clock and of the generator.\<close>

definition bench_allocs ::
  "'d fp \<Rightarrow> Os \<Rightarrow> (nat \<Rightarrow> Reading) \<Rightarrow> (64 word \<Rightarrow> 'p option) \<Rightarrow> (nat \<Rightarrow> 64 word list) \<Rightarrow> AllocSnapshot \<Rightarrow> string list \<Rightarrow>
   fault + Process" where
  "bench_allocs fp os rd malloc cost st argv =
     (if length argv < 2
      then Inr \<lparr>pr_end = Exit 2, pr_out = [], pr_err = ''usage: bench_allocs <label> [seed] [measured_ops]'' @ newline\<rparr>
      else let d = default_RunConfig fp;
               cfg = d\<lparr>cfg_label := argv ! 1, cfg_seed := number_arg argv 2 (cfg_seed d), cfg_measured := number_arg argv 3 (cfg_measured d)\<rparr>
           in case TscClock fp rd of
                None \<Rightarrow> Inl NoResult
              | Some clock \<Rightarrow>
                  (case generate default_W1Params (cfg_seed cfg) (total_ops cfg) of
                     None \<Rightarrow> Inl NoResult
                   | Some cmds \<Rightarrow>
                       (case profile_allocs malloc cost st cmds (unat (cfg_warmup cfg)) of
                          Inl e \<Rightarrow> Inl e
                        | Inr p \<Rightarrow>
                            Inr \<lparr>pr_end = Exit 0, pr_out = c_str (allocs_csv fp (environment_block fp os clock) cfg p), pr_err = []\<rparr>)))"

section \<open>What the programs rely on\<close>

lemma length_noop_ticks [simp]: "length (noop_ticks tsc t ops) = ops"
  by (induction ops arbitrary: t) simp_all

lemma noop_run_Some: "ops < 2 ^ 48 \<Longrightarrow> \<exists>s. noop_run fp tsc t ops clock = Some s"
  using stats_from_Some [of "noop_ticks tsc t ops" fp clock] by (auto simp: noop_run_def)

lemma noise_small: "kNoiseWarmup < 2 ^ 48" "kNoiseOps < 2 ^ 48"
  by (simp_all add: kNoiseWarmup_def kNoiseOps_def)

lemma generate_Some:
  assumes "ops < 2 ^ 32"
  shows "\<exists>cmds. generate default_W1Params seed ops = Some cmds \<and> length cmds = ops"
proof -
  have "w1_ok default_W1Params"
    by code_simp
  then show ?thesis
    using gen_loop_ok [OF _ gen_new_abs, of default_W1Params ops seed empty_result] assms by (fastforce simp: generate_def)
qed

lemma TscClock_Some: "steady rd \<Longrightarrow> advances rd \<Longrightarrow> \<exists>clock. TscClock fp rd = Some clock"
  using calibration_window [of rd fp] by (auto simp: Let_def)

lemma enough_samples: "p999_has_enough_samples n \<longleftrightarrow> 100000 \<le> n"
  unfolding p999_has_enough_samples_def kMinTailSamples_def by linarith

section \<open>The W1 benchmark\<close>

definition w1_config :: "'d fp \<Rightarrow> string list \<Rightarrow> 'd RunConfig" where
  "w1_config fp argv = (default_RunConfig fp)\<lparr>cfg_label := argv ! 1, cfg_seed := number_arg argv 2 1,
     cfg_measured := number_arg argv 3 1000000\<rparr>"

lemma w1_config_simps [simp]:
  "cfg_warmup (w1_config fp argv) = 100000" "cfg_seed (w1_config fp argv) = number_arg argv 2 1"
  "cfg_measured (w1_config fp argv) = number_arg argv 3 1000000" "cfg_label (w1_config fp argv) = argv ! 1"
  by (simp_all add: w1_config_def default_RunConfig_def)

text \<open>C34. With a steady clock and an operation count that generates fewer than 2^32 commands, \<open>bench_w1\<close> ends without
  reading outside of an array and without aborting, for any arguments, also when warm-up and measured count
  together wrap around 64 bits. It either exits with 1 or 2 and writes no results, or exits with 0 and writes the
  results of a run with at least 100 samples beyond the p99.9 of both kinds of command.\<close>

theorem bench_w1_reports:
  assumes "steady rd" "advances rd" "unat (100000 + number_arg argv 3 1000000) < 2 ^ 32" "cpu_arg argv 4 \<noteq> None"
  shows "\<exists>p. bench_w1 fp os os' rd tsc argv = Some p \<and>
    (pr_end p \<in> {Exit 1, Exit 2} \<and> pr_out p = [] \<or>
     pr_end p = Exit 0 \<and> (\<exists>clock overhead cmds r. TscClock fp rd = Some clock \<and>
       generate default_W1Params (number_arg argv 2 1) (unat (100000 + number_arg argv 3 1000000)) = Some cmds \<and>
       run fp tsc (2 * kNoiseWarmup + 2 * kNoiseOps) cmds 100000 clock = Some (Finished r) \<and>
       pr_out p = c_str (results_csv fp (environment_block fp os' clock) ((w1_config fp argv)\<lparr>cfg_timer_overhead_ns := overhead\<rparr>) r) \<and>
       100000 \<le> st_samples (rr_limit r) \<and> 100000 \<le> st_samples (rr_cancel r)))"
proof (cases "length argv < 2")
  case True
  then show ?thesis
    by (simp add: bench_w1_def)
next
  case False
  let ?cfg = "w1_config fp argv"
  obtain cpu where cpu: "cpu_arg argv 4 = Some cpu"
    using assms(4) by blast
  show ?thesis
  proof (cases "cpu \<ge> 0 \<and> \<not> pin_to_cpu os cpu")
    case True
    then show ?thesis
      using False cpu by (simp add: bench_w1_def Let_def)
  next
    case pinned: False
    obtain clock where clock: "TscClock fp rd = Some clock"
      using TscClock_Some [OF assms(1,2), of fp] by blast
    obtain warm empty where noop: "noop_run fp tsc 0 kNoiseWarmup clock = Some warm"
        "noop_run fp tsc (2 * kNoiseWarmup) kNoiseOps clock = Some empty"
      using noop_run_Some [OF noise_small(1), of fp tsc 0 clock] noop_run_Some [OF noise_small(2), of fp tsc "2 * kNoiseWarmup" clock]
      by blast
    let ?cfg' = "?cfg\<lparr>cfg_timer_overhead_ns := st_p50 empty\<rparr>"
    obtain cmds where cmds: "generate default_W1Params (number_arg argv 2 1) (unat (100000 + number_arg argv 3 1000000)) = Some cmds"
        "length cmds < 2 ^ 32"
      using generate_Some [OF assms(3)] assms(3) by fastforce
    let ?n = "count_kinds cmds 100000"
    have main: "bench_w1 fp os os' rd tsc argv =
        (if \<not> p999_has_enough_samples (kc_limit ?n) \<or> \<not> p999_has_enough_samples (kc_cancel ?n)
         then Some \<lparr>pr_end = Exit 1, pr_out = [],
           pr_err = sanitizer_warning os ''warning: sanitizers are on, these numbers are not publishable'' @ too_few_samples ?cfg' ?n\<rparr>
         else Option.bind (run fp tsc (2 * kNoiseWarmup + 2 * kNoiseOps) cmds 100000 clock) (\<lambda>outcome. case outcome of
             Disagree a b \<Rightarrow> Some \<lparr>pr_end = Aborted, pr_out = [],
               pr_err = sanitizer_warning os ''warning: sanitizers are on, these numbers are not publishable'' @ passes_disagree a b\<rparr>
           | Finished r \<Rightarrow> Some \<lparr>pr_end = Exit 0, pr_out = c_str (results_csv fp (environment_block fp os' clock) ?cfg' r),
               pr_err = sanitizer_warning os ''warning: sanitizers are on, these numbers are not publishable''\<rparr>))"
      using False cpu pinned clock noop cmds(1) unfolding bench_w1_def
      by (auto simp: Let_def w1_config_def default_RunConfig_def total_ops_def)
    show ?thesis
    proof (cases "p999_has_enough_samples (kc_limit ?n) \<and> p999_has_enough_samples (kc_cancel ?n)")
      case True
      have counts: "kc_limit ?n = of_kind LimitCmd (drop 100000 cmds)" "kc_cancel ?n = of_kind CancelCmd (drop 100000 cmds)"
        by (simp_all add: count_kinds_def count_loop_of_kind)
      have "100000 \<le> length cmds"
        using True of_kind_le [of LimitCmd "drop 100000 cmds"] unfolding enough_samples counts length_drop by linarith
      from run_finishes [OF this] cmds(2) obtain r where
        "run fp tsc (2 * kNoiseWarmup + 2 * kNoiseOps) cmds 100000 clock = Some (Finished r)"
        "st_samples (rr_limit r) = kc_limit ?n" "st_samples (rr_cancel r) = kc_cancel ?n"
        unfolding counts by fastforce
      then show ?thesis
        using True clock cmds(1) unfolding main by (auto simp: enough_samples)
    next
      case few: False
      then show ?thesis
        unfolding main by auto
    qed
  qed
qed

theorem bench_w1_reports_witness:
  "\<exists>p. bench_w1 exact_fp sample_os sample_os sample_clock (\<lambda>k. of_nat (30 * k)) [''bench_w1'', ''v1''] = Some p \<and>
    (pr_end p \<in> {Exit 1, Exit 2} \<and> pr_out p = [] \<or>
     pr_end p = Exit 0 \<and> (\<exists>clock overhead cmds r. TscClock exact_fp sample_clock = Some clock \<and>
       generate default_W1Params (number_arg [''bench_w1'', ''v1''] 2 1) (unat (100000 + number_arg [''bench_w1'', ''v1''] 3 1000000)) = Some cmds \<and>
       run exact_fp (\<lambda>k. of_nat (30 * k)) (2 * kNoiseWarmup + 2 * kNoiseOps) cmds 100000 clock = Some (Finished r) \<and>
       pr_out p = c_str (results_csv exact_fp (environment_block exact_fp sample_os clock)
         ((w1_config exact_fp [''bench_w1'', ''v1''])\<lparr>cfg_timer_overhead_ns := overhead\<rparr>) r) \<and>
       100000 \<le> st_samples (rr_limit r) \<and> 100000 \<le> st_samples (rr_cancel r)))"
  by (rule bench_w1_reports [OF sample_clock_steady]) (simp_all add: number_arg_def cpu_arg_def)

section \<open>Counts that wrap\<close>

text \<open>The other programs do not check the count. When warm-up and measured count together wrap around 64 bits the
  stream is shorter than the warm-up, and both programs read behind its end.\<close>

lemma wrapped_stream:
  assumes "unat (100000 + m :: 64 word) < 100000"
  shows "\<exists>cmds. generate default_W1Params seed (unat (100000 + m :: 64 word)) = Some cmds \<and> length cmds < 100000"
  using generate_Some [of "unat (100000 + m :: 64 word)" seed] assms by fastforce

theorem bench_overhead_overruns:
  assumes "steady rd" "advances rd" "length argv = 3" "unat (100000 + strtoull (argv ! 2)) < 100000"
  shows "bench_overhead fp os os' rd tsc argv = None"
proof -
  obtain clock where clock: "TscClock fp rd = Some clock"
    using TscClock_Some [OF assms(1,2), of fp] by blast
  obtain cmds where cmds: "generate default_W1Params (strtoull (argv ! 1)) (unat (100000 + strtoull (argv ! 2))) = Some cmds" "length cmds < 100000"
    using wrapped_stream [OF assms(4)] by blast
  have "overhead_reps fp tsc t kOverheadReps cmds 100000 clock = None" for t
  proof -
    have reps: "kOverheadReps = Suc 4"
      by (simp add: kOverheadReps_def)
    show ?thesis
      unfolding reps overhead_reps.simps using cmds(2) by (simp add: measure_overhead_def run_def assert_that_def)
  qed
  then show ?thesis
    using clock cmds(1) assms(3)
    by (auto simp: bench_overhead_def number_arg_def cpu_arg_def default_RunConfig_def total_ops_def Let_def Option.bind_eq_None_conv)
qed

text \<open>C38. With a steady clock and memory, \<open>bench_allocs\<close> generates as many commands as warm-up and measured count make
  modulo 2^64. When these are fewer than the warm-up, which happens only when the sum wraps, its warm-up loop
  reads the command right behind the end of the array. Otherwise it exits with 0 and writes a profile in which
  the kinds of command add up to the whole and every measured command and every allocation made for it is counted.\<close>

theorem bench_allocs_overruns:
  assumes "\<And>n. malloc n \<noteq> None" "steady rd" "advances rd" "1 < length argv" "unat (100000 + number_arg argv 3 1000000) < 2 ^ 32"
  defines "ops \<equiv> unat (100000 + number_arg argv 3 1000000)"
  shows "\<exists>clock cmds. TscClock fp rd = Some clock \<and> generate default_W1Params (number_arg argv 2 1) ops = Some cmds \<and> length cmds = ops \<and>
    (if ops < 100000 then bench_allocs fp os rd malloc cost st argv = Inl (OutOfRange ops)
     else \<exists>p. bench_allocs fp os rd malloc cost st argv =
         Inr \<lparr>pr_end = Exit 0, pr_out = c_str (allocs_csv fp (environment_block fp os clock) (w1_config fp argv) p), pr_err = []\<rparr> \<and>
       as_commands (ap_limit_no_trade p) + as_commands (ap_limit_trades p) = kc_limit (count_kinds cmds 100000) \<and>
       as_commands (ap_cancel p) = kc_cancel (count_kinds cmds 100000) \<and>
       as_allocs (ap_all p) = as_allocs (ap_limit_no_trade p) + as_allocs (ap_limit_trades p) + as_allocs (ap_cancel p) \<and>
       as_bytes (ap_all p) = as_bytes (ap_limit_no_trade p) + as_bytes (ap_limit_trades p) + as_bytes (ap_cancel p) \<and>
       as_allocs (ap_all p) = of_nat (sum_list (map (\<lambda>k. length (cost k)) [100000..<ops])))"
proof -
  obtain clock where clock: "TscClock fp rd = Some clock"
    using TscClock_Some [OF assms(2,3), of fp] by blast
  obtain cmds where cmds: "generate default_W1Params (number_arg argv 2 1) ops = Some cmds" "length cmds = ops"
    using generate_Some [OF assms(5)] by (auto simp: ops_def)
  let ?profile = "profile_allocs malloc cost st cmds 100000"
  have cfg: "w1_config fp argv = \<lparr>cfg_label = argv ! 1, cfg_seed = number_arg argv 2 1, cfg_warmup = 100000,
      cfg_measured = number_arg argv 3 1000000, cfg_timer_overhead_ns = fp_of_i64 fp 0\<rparr>"
    by (simp add: w1_config_def default_RunConfig_def)
  have main: "bench_allocs fp os rd malloc cost st argv = (case ?profile of Inl e \<Rightarrow> Inl e
      | Inr p \<Rightarrow> Inr \<lparr>pr_end = Exit 0, pr_out = c_str (allocs_csv fp (environment_block fp os clock) (w1_config fp argv) p), pr_err = []\<rparr>)"
    using assms(4) clock cmds(1) by (cases ?profile) (simp_all add: bench_allocs_def total_ops_def cfg default_RunConfig_def ops_def)
  show ?thesis
  proof (cases "ops < 100000")
    case True
    then have "?profile = Inl (OutOfRange ops)"
      using profile_allocs_overruns [of malloc cmds 100000 cost st] assms(1) cmds(2) by simp
    then show ?thesis
      using True clock cmds main by simp
  next
    case False
    then obtain p where "?profile = Inr p"
        "as_commands (ap_limit_no_trade p) + as_commands (ap_limit_trades p) = kc_limit (count_kinds cmds 100000)"
        "as_commands (ap_cancel p) = kc_cancel (count_kinds cmds 100000)"
        "as_allocs (ap_all p) = as_allocs (ap_limit_no_trade p) + as_allocs (ap_limit_trades p) + as_allocs (ap_cancel p)"
        "as_bytes (ap_all p) = as_bytes (ap_limit_no_trade p) + as_bytes (ap_limit_trades p) + as_bytes (ap_cancel p)"
        "as_allocs (ap_all p) = of_nat (sum_list (map (\<lambda>k. length (cost k)) [100000..<ops]))"
      using alloc_profile_adds_up [of malloc 100000 cmds cost st] assms(1) cmds(2) by auto
    then show ?thesis
      using False clock cmds main by auto
  qed
qed

theorem bench_allocs_overruns_witness:
  "bench_allocs exact_fp sample_os sample_clock (\<lambda>n. Some n) (\<lambda>_. []) no_allocs
     [''bench_allocs'', ''v1'', ''1'', ''18446744073709551615''] = Inl (OutOfRange 99999)"
proof -
  let ?argv = "[''bench_allocs'', ''v1'', ''1'', ''18446744073709551615'']"
  have ops: "unat (100000 + number_arg ?argv 3 1000000) = 99999"
    by (simp add: number_arg_def strtoull_def digits_value_def is_digit_def is_space_def Let_def)
  show ?thesis
    using bench_allocs_overruns [OF _ sample_clock_steady, of "\<lambda>n. Some n" ?argv exact_fp sample_os "\<lambda>_. []" no_allocs]
    unfolding ops by auto
qed

end
