(* ===== verification/Spec2Isabelle.thy ===== *)
theory Spec2Isabelle
  imports Run_Properties Resource_Properties Journal_Writer Replay_Properties Differential_Drivers Bench_Main
begin

text \<open>
  A verification library for the limit order matching engine.

  \<^bold>\<open>The program.\<close> \<open>src/include/engine\<close> is a header-only order book for one instrument. Orders live in a fixed pool
  (\<open>pool.hpp\<close>); the orders of one price are a doubly linked FIFO through pool indices (\<open>level.hpp\<close>); the prices of
  one side are a sorted array with the best price last (\<open>price_levels.hpp\<close>); an open-addressing table maps order ids
  to pool handles (\<open>id_map.hpp\<close>). \<open>Book\<close> (\<open>book.hpp\<close>) drives the four: it matches limit and market orders, cancels,
  modifies, lists its orders and checks itself. A command (\<open>command.hpp\<close>) is one input to the book in the form the
  journal stores (\<open>journal.hpp\<close>), and \<open>replay.hpp\<close> runs a journal through a fresh book. \<open>src/bench\<close> generates a
  workload, runs it against the book, times it, counts its allocations and writes reports.
  \<open>tests/support/oracle.hpp\<close> is a second, simple implementation of the same rules, and \<open>tests/support/diff.hpp\<close>
  runs the two side by side, on random streams (\<open>fuzz_diff.cpp\<close>) and on all short ones (\<open>exhaustive_diff.cpp\<close>).

  \<^bold>\<open>How code is modelled.\<close> Machine integers are words of their width, structs are records, enums datatypes, a
  vector or array is a list with checked access. \<open>None\<close> stands for every way out of defined behaviour: an access
  out of range, a null pointer, a read of the wrong union member, a failing \<open>assert\<close>, a loop that does not end (such
  loops are \<open>partial_function (option)\<close>, so no fuel occurs and that an operation returns is always a
  theorem). References into the pool or into a level are indices. What comes from outside the sources (stdio, the
  operating system, the clocks, \<open>malloc\<close>, the arithmetic of \<open>double\<close>) is an argument of the definitions that
  use it.

  \<^bold>\<open>Theories, component by component.\<close>
  \<^item> \<open>Engine_Prelude\<close>, \<open>Engine_Types\<close>: option monad, checked access, words; \<open>types.hpp\<close>.
  \<^item> \<open>Pool\<close>, \<open>Level_Queue\<close>, \<open>Price_Levels\<close>, \<open>Probing\<close> and \<open>Id_Map\<close>: the four data structures with their invariants, each
    shown to behave as a store with stale handles, a queue, a sorted map and a finite map. The interfaces
    are locales, interpreted on the code's operations.
  \<^item> \<open>Book\<close>: the class. \<open>Book_Repr\<close> states when the pool, the lists, the arrays and the table represent a list
    of orders per side; \<open>Book_Steps\<close>, \<open>Book_Matching\<close> and \<open>Book_Refinement\<close> show that each operation returns
    and simulates the specification; \<open>Book_Observers\<close> does so for the snapshot, the best prices and
    the self-check.
  \<^item> \<open>Matching_Spec\<close>: the specification (\<open>docs/spec.md\<close>, S1 to S6): one priority-ordered list per side.
    \<open>Matching_Invariants\<close> and \<open>Matching_Trades\<close> prove what the rules keep and which trades they make.
  \<^item> \<open>Command\<close>, \<open>Engine_Run\<close>: commands, \<open>replay::apply\<close>, runs, reachable states, and the locale \<open>simulation\<close> that lifts a
    step-wise refinement to whole runs; it is interpreted for the engine against the specification and, in
    \<open>Oracle_Refinement\<close>, for the engine against the oracle.
  \<^item> \<open>Matching_Properties\<close>, \<open>Order_Properties\<close>, \<open>Run_Properties\<close>: what every command does in every reachable state,
    and what holds of whole runs. \<open>Resource_Properties\<close>: slots, id map entries and levels against the orders.
  \<^item> \<open>Oracle\<close>, \<open>Oracle_Refinement\<close>, \<open>Differential\<close>: the reference implementation and its agreement with the engine.
  \<^item> \<open>Differential_Harness\<close>, \<open>Harness_Properties\<close>, \<open>Stream_Properties\<close>, \<open>Differential_Drivers\<close>: the harness, the random
    generator, journals of random streams, and the two programs. A harness run is a run of the interpreted
    simulation; the theorems add that quantities stay small enough for its guard.
  \<^item> \<open>Checksum\<close>, \<open>Bytes\<close>, \<open>Framing\<close>, \<open>Journal\<close>, \<open>Journal_Properties\<close>, \<open>Journal_Writer\<close>: CRC-32, byte encodings, a
    locale for self-delimiting records, the reader, the writer over a buffered stream with faults.
  \<^item> \<open>Replay\<close>, \<open>Replay_Properties\<close>: the text of events and books, and replay.
  \<^item> \<open>Workload\<close>, \<open>Workload_Properties\<close>: \<open>bench/workload.hpp\<close>, the generator and the commands it makes.
  \<^item> \<open>Timing\<close>, \<open>Runner\<close>, \<open>Runner_Properties\<close>: calibration of the cycle counter, the two-pass runner, percentiles.
  \<^item> \<open>Environment\<close>, \<open>Environment_Properties\<close>: the environment block and reading a results file back.
  \<^item> \<open>Bench_Reports\<close>: noise floor and overhead. \<open>Alloc_Counter\<close>, \<open>Alloc_Profile\<close>: counting allocations.
  \<^item> \<open>Bench_Main\<close>: the four benchmark programs.

  \<^bold>\<open>What is shown.\<close> The engine refines the specification on every command sequence and agrees with the oracle; every
  command returns in every reachable state; the self-check never fires; snapshots are in strict price-time
  priority and the book never crosses; no slot, map entry or level is ever lost; the trades, rests, rejections, cancels and modifies of every
  command are determined. Journals read back, also when cut or damaged, and replay reproduces a run
  byte by byte; the journal of a random stream replays to the events and the book of the oracle. \<open>fuzz_diff\<close> and
  \<open>exhaustive_diff\<close> cannot find a divergence, and the latter visits every sequence once. The workload is clean, the benchmark passes agree, its percentiles are those of the nearest rank,
  its calibration ends and its results files can be read back.

  \<^bold>\<open>Bounds.\<close> Sequence numbers are 64 bits wide, so priority is stated for fewer than 2^64 commands. The
  fill-or-kill check adds up 32-bit quantities without looking for overflow; the specification takes that
  total as a parameter (\<open>wrap32\<close> for the engine), \<open>fok_check_wraps\<close> says exactly when an order is killed, and the agreement with
  the oracle, which adds up in 64 bits, asks that the total fits; quantities of at most ten on capacities below
  2^32 / 10, as in the random streams, always do. The workload is considered up to 2^32
  commands, where ids stay distinct as 32-bit accounts; samples up to 2^48, where the rank of a percentile does not
  overflow. \<open>bench_allocs\<close> and \<open>bench_overhead\<close> read behind their stream when their two counts wrap: the
  allocation profile tells its faults apart (an index out of range, no memory, a callee without result), and
  \<open>bench_allocs_overruns\<close> gives the index it reads at. Also an aligned request near 2^64 bytes wraps to a smaller one (\<open>aligned_request_covers\<close>).

  \<^bold>\<open>Not modelled.\<close> \<open>rdtscp\<close>, \<open>steady_clock\<close>, \<open>cpuid\<close>, scheduling and files are answers of the machine. \<open>double\<close> is an
  abstract type with the operations the harness uses; a property that needs an order on it says so. Builds other
  than 64-bit Linux, allocation by standard containers, include guards, deleted or defaulted special members
  and the C++ class boilerplate have no counterpart. The summaries the test drivers print, and the test programs
  that check single cases of what is proved here, are left out.
\<close>

end
